(* ===== verification/HaP_Prelude.thy ===== *)
theory HaP_Prelude
  imports Main "HOL-Library.Word" "HOL-Library.Sublist"
begin

text \<open>
  Shared vocabulary of the development: the machine integers and strings of the C sources
  under \<open>src/jni\<close>, the handful of C library functions on strings that several components call,
  and the generic lemmas on lists, bytes and words that the component proofs reuse.

  A C string is a \<^typ>\<open>string\<close> without its terminating NUL; a memory buffer whose bytes are
  handled as numbers is a list of \<^typ>\<open>8 word\<close>.
\<close>

unbundle bit_operations_syntax

type_synonym byte = "8 word"
type_synonym u16 = "16 word"
type_synonym u32 = "32 word"
type_synonym u64 = "64 word"
type_synonym bytes = "byte list"

named_theorems wire \<open>definitions of the byte layouts\<close>

subsection \<open>Characters and bytes\<close>

definition ord :: "char \<Rightarrow> nat" where
  "ord c = of_char c"

definition byte_of_char :: "char \<Rightarrow> byte" where
  "byte_of_char c = of_nat (ord c)"

definition char_of_byte :: "byte \<Rightarrow> char" where
  "char_of_byte b = char_of (unat b)"

definition bytes_of_string :: "string \<Rightarrow> bytes" where
  "bytes_of_string = map byte_of_char"

definition string_of_bytes :: "bytes \<Rightarrow> string" where
  "string_of_bytes = map char_of_byte"

lemma ord_less [simp]: "ord c < 256"
  by (simp add: ord_def)

lemma unat_byte_of_char [simp]: "unat (byte_of_char c) = ord c"
  by (simp add: byte_of_char_def unat_of_nat take_bit_eq_mod)

lemma char_of_byte_of_char [simp]: "char_of_byte (byte_of_char c) = c"
  by (simp add: char_of_byte_def ord_def)

lemma byte_of_char_of_byte [simp]: "byte_of_char (char_of_byte b) = b"
proof -
  have "unat b < 256" using unsigned_less [of b] by simp
  then show ?thesis by (simp add: byte_of_char_def char_of_byte_def ord_def)
qed

lemma string_of_bytes_of_string [simp]: "string_of_bytes (bytes_of_string s) = s"
  by (simp add: string_of_bytes_def bytes_of_string_def o_def)

lemma bytes_of_string_of_bytes [simp]: "bytes_of_string (string_of_bytes b) = b"
  by (simp add: string_of_bytes_def bytes_of_string_def o_def)

lemma length_bytes_of_string [simp]: "length (bytes_of_string s) = length s"
  by (simp add: bytes_of_string_def)

lemma length_string_of_bytes [simp]: "length (string_of_bytes b) = length b"
  by (simp add: string_of_bytes_def)

lemma bytes_of_string_append [simp]:
  "bytes_of_string (s @ t) = bytes_of_string s @ bytes_of_string t"
  by (simp add: bytes_of_string_def)

lemma bit_byte: "bit (b::byte) n \<Longrightarrow> n < 8"
  by (auto dest: bit_imp_le_length)

lemma unat_ucast_byte: "unat (ucast (x::byte) :: u32) = unat x"
  by (simp add: unsigned_ucast_eq take_bit_nat_eq_self_iff order_less_trans [OF unsigned_less])

text \<open>Integers in network byte order\<close>

definition be16 :: "u16 \<Rightarrow> bytes" where
  "be16 w = [ucast (drop_bit 8 w), ucast w]"

definition be32 :: "u32 \<Rightarrow> bytes" where
  "be32 w = [ucast (drop_bit 24 w), ucast (drop_bit 16 w), ucast (drop_bit 8 w), ucast w]"

definition get16 :: "bytes \<Rightarrow> u16" where
  "get16 b = push_bit 8 (ucast (b ! 0)) OR ucast (b ! 1)"

definition get32 :: "bytes \<Rightarrow> u32" where
  "get32 b = push_bit 24 (ucast (b ! 0)) OR push_bit 16 (ucast (b ! 1)) OR push_bit 8 (ucast (b ! 2)) OR ucast (b ! 3)"

lemma length_be [simp]: "length (be16 a) = 2" "length (be32 b) = 4"
  by (simp_all add: be16_def be32_def)

lemma get16_be16 [simp]: "get16 (be16 w @ r) = w"
  by (rule bit_word_eqI) (auto simp: get16_def be16_def bit_simps)

lemma get32_be32 [simp]: "get32 (be32 w @ r) = w"
proof (rule bit_word_eqI)
  fix n assume "n < LENGTH(32)"
  then consider "n < 8" | "8 \<le> n" "n < 16" | "16 \<le> n" "n < 24" | "24 \<le> n" "n < 32" by fastforce
  then show "bit (get32 (be32 w @ r)) n \<longleftrightarrow> bit w n"
    by cases (auto simp: get32_def be32_def bit_simps)
qed

subsection \<open>The C library on strings\<close>

text \<open>The classification functions of the C locale.\<close>

definition isspace :: "char \<Rightarrow> bool" where
  "isspace c \<longleftrightarrow> ord c = 32 \<or> 9 \<le> ord c \<and> ord c \<le> 13"

definition isdigit :: "char \<Rightarrow> bool" where
  "isdigit c \<longleftrightarrow> 48 \<le> ord c \<and> ord c \<le> 57"

definition isupper :: "char \<Rightarrow> bool" where
  "isupper c \<longleftrightarrow> 65 \<le> ord c \<and> ord c \<le> 90"

definition islower :: "char \<Rightarrow> bool" where
  "islower c \<longleftrightarrow> 97 \<le> ord c \<and> ord c \<le> 122"

definition isalpha :: "char \<Rightarrow> bool" where
  "isalpha c \<longleftrightarrow> isupper c \<or> islower c"

definition isalnum :: "char \<Rightarrow> bool" where
  "isalnum c \<longleftrightarrow> isalpha c \<or> isdigit c"

definition tolower :: "char \<Rightarrow> char" where
  "tolower c = (if isupper c then char_of (ord c + 32) else c)"

text \<open>\<open>strncasecmp(s, t, n) == 0\<close> and \<open>strncmp(s, t, n) == 0\<close>\<close>

fun strncasecmp0 :: "string \<Rightarrow> string \<Rightarrow> nat \<Rightarrow> bool" where
  "strncasecmp0 s t 0 = True"
| "strncasecmp0 [] [] (Suc n) = True"
| "strncasecmp0 [] (d # t) (Suc n) = False"
| "strncasecmp0 (c # s) [] (Suc n) = False"
| "strncasecmp0 (c # s) (d # t) (Suc n) = (tolower c = tolower d \<and> strncasecmp0 s t n)"

fun strncmp0 :: "string \<Rightarrow> string \<Rightarrow> nat \<Rightarrow> bool" where
  "strncmp0 s t 0 = True"
| "strncmp0 [] [] (Suc n) = True"
| "strncmp0 [] (d # t) (Suc n) = False"
| "strncmp0 (c # s) [] (Suc n) = False"
| "strncmp0 (c # s) (d # t) (Suc n) = (c = d \<and> strncmp0 s t n)"

lemma strncmp0_take: "strncmp0 s t n \<longleftrightarrow> take n s = take n t"
  by (induction s t n rule: strncmp0.induct) auto

lemma strncasecmp0_take: "strncasecmp0 s t n \<longleftrightarrow> map tolower (take n s) = map tolower (take n t)"
  by (induction s t n rule: strncasecmp0.induct) auto

text \<open>
  \<open>strtoul(s, &end, 0)\<close> where \<open>unsigned long\<close> has 32 bits: the value and the string at \<open>end\<close>.
  A value that is too large is \<open>ULONG_MAX\<close>; a minus sign negates modulo \<open>2\<^sup>3\<^sup>2\<close>. Without any
  digit the value is 0 and \<open>end\<close> is the start of the string.
\<close>

definition digit_val :: "char \<Rightarrow> nat" where
  "digit_val c = (if isdigit c then ord c - 48 else if islower c then ord c - 87
     else if isupper c then ord c - 55 else 99)"

fun strtoul_digits :: "nat \<Rightarrow> int \<Rightarrow> string \<Rightarrow> int \<times> string" where
  "strtoul_digits base acc [] = (acc, [])"
| "strtoul_digits base acc (c # cs) =
    (if digit_val c < base then strtoul_digits base (acc * int base + int (digit_val c)) cs
     else (acc, c # cs))"

definition strtoul_unsigned :: "string \<Rightarrow> (int \<times> string) option" where
  "strtoul_unsigned p =
    (if p = [] \<or> \<not> isdigit (hd p) then None
     else if hd p \<noteq> CHR ''0'' then Some (strtoul_digits 10 0 p)
     else if tl p \<noteq> [] \<and> tolower (hd (tl p)) = CHR ''x'' \<and> tl (tl p) \<noteq> []
             \<and> digit_val (hd (tl (tl p))) < 16
     then Some (strtoul_digits 16 0 (tl (tl p)))
     else Some (strtoul_digits 8 0 p))"

definition strtoul :: "string \<Rightarrow> int \<times> string" where
  "strtoul s =
    (let p = dropWhile isspace s;
         neg = (p \<noteq> [] \<and> hd p = CHR ''-'');
         q = (if p \<noteq> [] \<and> hd p \<in> {CHR ''-'', CHR ''+''} then tl p else p)
     in case strtoul_unsigned q of
       None \<Rightarrow> (0, s)
     | Some (v, r) \<Rightarrow>
         (if v \<ge> 2 ^ 32 then 2 ^ 32 - 1 else if neg then (- v) mod 2 ^ 32 else v, r))"

text \<open>
  \<open>inet_aton\<close>: one to four numbers in any base of C separated by dots, the last of which fills
  the rest of the address; the address in host byte order.
\<close>

fun inet_aton_parts :: "nat \<Rightarrow> int \<Rightarrow> string \<Rightarrow> int option" where
  "inet_aton_parts 0 acc s = None"
| "inet_aton_parts (Suc n) acc s =
    (case strtoul_unsigned s of
       None \<Rightarrow> None
     | Some (v, r) \<Rightarrow>
         if r \<noteq> [] \<and> hd r = CHR ''.'' then
           (if v > 255 then None else inet_aton_parts n (acc * 256 + v) (tl r))
         else if r \<noteq> [] \<and> \<not> isspace (hd r) then None
         else if v \<ge> 256 ^ Suc n then None else Some (acc * 256 ^ Suc n + v))"

definition inet_aton :: "string \<Rightarrow> u32 option" where
  "inet_aton s = map_option of_int (inet_aton_parts 4 0 s)"

text \<open>\<open>strchr\<close> and \<open>strstr\<close>: the string from the match on.\<close>

fun strchr :: "char \<Rightarrow> string \<Rightarrow> string option" where
  "strchr c [] = None"
| "strchr c (d # s) = (if d = c then Some (d # s) else strchr c s)"

fun strstr :: "string \<Rightarrow> string \<Rightarrow> string option" where
  "strstr t [] = (if t = [] then Some [] else None)"
| "strstr t (d # s) = (if prefix t (d # s) then Some (d # s) else strstr t s)"

lemma strchr_suffix: "strchr c s = Some r \<Longrightarrow> suffix r s"
  by (induction s) (auto split: if_splits intro: suffix_ConsI)

lemma strstr_suffix: "strstr t s = Some r \<Longrightarrow> suffix r s \<and> prefix t r"
  by (induction s) (auto split: if_splits intro: suffix_ConsI)

lemma strchr_some: "c \<in> set s \<Longrightarrow> \<exists>r. strchr c s = Some (c # r)"
  by (induction s) auto

text \<open>\<open>printf\<close> conversions: \<open>%0<w>x\<close> of an \<open>unsigned\<close> and \<open>%u\<close>\<close>

definition hex_digit :: "nat \<Rightarrow> char" where
  "hex_digit n = ''0123456789abcdef'' ! n"

definition hex_byte :: "byte \<Rightarrow> string" where
  "hex_byte b = [hex_digit (unat b div 16), hex_digit (unat b mod 16)]"

definition hex_u32 :: "u32 \<Rightarrow> string" where
  "hex_u32 w = concat (map (\<lambda>i. hex_byte (ucast (drop_bit (24 - 8 * i) w))) [0, 1, 2, 3])"

fun dec :: "nat \<Rightarrow> string" where
  "dec n = (if n < 10 then [char_of (48 + n)] else dec (n div 10) @ [char_of (48 + n mod 10)])"

declare dec.simps [simp del]

text \<open>\<open>inet_ntoa\<close> of an address in host byte order\<close>

definition inet_ntoa :: "u32 \<Rightarrow> string" where
  "inet_ntoa a =
    dec (unat (drop_bit 24 a)) @ ''.'' @ dec (unat (drop_bit 16 a) mod 256) @ ''.''
    @ dec (unat (drop_bit 8 a) mod 256) @ ''.'' @ dec (unat a mod 256)"

subsection \<open>Reading a decimal number\<close>

lemma digit_char: "n < 10 \<Longrightarrow> ord (char_of (48 + n)) = 48 + n"
  by (simp add: ord_def)

lemma digit_val_char: "n < 10 \<Longrightarrow> digit_val (char_of (48 + n)) = n \<and> isdigit (char_of (48 + n))"
  by (simp add: digit_val_def isdigit_def digit_char)

lemma strtoul_dec:
  "strtoul_digits 10 acc (dec n @ r) = strtoul_digits 10 (acc * 10 ^ length (dec n) + int n) r"
proof (induction n arbitrary: r rule: dec.induct)
  case (1 n)
  show ?case
  proof (cases "n < 10")
    case True
    then show ?thesis by (simp add: dec.simps [of n] digit_val_char)
  next
    case False
    have "int n = int (n div 10) * 10 + int (n mod 10)" by presburger
    with 1 [OF False] False show ?thesis
      by (simp add: dec.simps [of n] digit_val_char algebra_simps)
  qed
qed

lemma char_of_48: "char_of (48::nat) = CHR ''0''"
proof -
  have "of_char (CHR ''0'') = (48::nat)" by simp
  then show ?thesis by (metis char_of_char)
qed

lemma dec_hd: "dec n \<noteq> [] \<and> isdigit (hd (dec n)) \<and> (hd (dec n) = CHR ''0'' \<longleftrightarrow> n = 0)"
proof (induction n rule: dec.induct)
  case (1 n)
  have "n < 10 \<Longrightarrow> char_of (48 + n) = CHR ''0'' \<longleftrightarrow> n = 0"
    using digit_char [of n] char_of_48 by (metis add_0_right add_left_imp_eq digit_char zero_less_numeral)
  with 1 show ?case
    by (cases "n < 10") (auto simp: dec.simps [of n] digit_val_char)
qed

lemma digit_no_space: "isdigit c \<Longrightarrow> \<not> isspace c \<and> c \<notin> {CHR ''-'', CHR ''+''}"
  by (auto simp: isdigit_def isspace_def ord_def)

lemma length_hex_u32 [simp]: "length (hex_u32 w) = 8"
  by (simp add: hex_u32_def hex_byte_def)

lemma length_hex_bytes: "length (concat (map hex_byte bs)) = 2 * length bs"
  by (induction bs) (simp_all add: hex_byte_def)

subsection \<open>Walking a string\<close>

text \<open>A pointer that walks along a C string always points at a suffix of it.\<close>

lemma suffix_dropWhileI: "suffix xs ys \<Longrightarrow> suffix (dropWhile P xs) ys"
  by (rule suffix_order.trans [OF suffix_dropWhile])

lemma suffix_tlI: "suffix xs ys \<Longrightarrow> suffix (tl xs) ys"
  by (rule suffix_order.trans [OF suffix_tl])

lemma suffix_dropI: "suffix xs ys \<Longrightarrow> suffix (drop n xs) ys"
  by (rule suffix_order.trans [OF suffix_drop])

lemmas suffix_intros = suffix_dropWhileI suffix_tlI suffix_dropI suffix_order.refl

lemma length_dropWhile_less: "takeWhile P xs \<noteq> [] \<Longrightarrow> length (dropWhile P xs) < length xs"
  using arg_cong [OF takeWhile_dropWhile_id [of P xs], of length]
  by (cases "takeWhile P xs") auto

end
