(* ===== verification/HaP_Parser.thy ===== *)
theory HaP_Parser
  imports HaP_Prelude
begin

text \<open>
  The configuration parser of \<open>src/jni/redsocks/parser.c\<close>: the tokenizer, the value parsers and
  the loop of \<open>parser_run\<close> that reads lines into a growing buffer and feeds tokens to a small
  state machine.

  The components that own configuration sections are a parameter: a section has its callbacks
  and entries as functions on the application state \<open>'s\<close>. The file is its unread characters
  (no NUL among them) and the end-of-file flag; what \<open>getaddrinfo\<close> and \<open>rand\<close> give at the n-th
  assignment is an argument. The text of two messages is shortened. Memory
  allocation succeeds. What would be undefined behaviour or an abort of the C program is a
  value of type \<open>fault\<close>, so that the theorems can say when it does not happen.
\<close>

subsection \<open>The tokenizer\<close>

definition unescape :: "char \<Rightarrow> char" where
  "unescape c =
    (if c = CHR ''n'' then CHR 0x0A else if c = CHR ''t'' then CHR 0x09
     else if c = CHR ''r'' then CHR 0x0D else if c = CHR 0x5C then CHR 0x5C
     else if c = CHR 0x27 then CHR 0x27 else if c = CHR 0x22 then CHR 0x22 else CHR 0x00)"

text \<open>
  The first pass over a quoted string, from after the opening quote: \<^const>\<open>None\<close> when the string
  is incomplete, \<open>Some None\<close> for an unknown escape, otherwise its length.
\<close>

fun cstr_len :: "string \<Rightarrow> nat option option" where
  "cstr_len [] = None"
| "cstr_len (c # p) =
    (if c = CHR 0x22 then Some (Some 0)
     else if c = CHR 0x5C then
       (case p of [] \<Rightarrow> None
        | d # p' \<Rightarrow> if unescape d \<noteq> CHR 0x00 then map_option (map_option Suc) (cstr_len p')
                    else Some None)
     else map_option (map_option Suc) (cstr_len p))"

text \<open>
  The second pass copies without looking for the end of the string. \<^const>\<open>None\<close> is a read past
  that end.
\<close>

fun cstr_copy :: "string \<Rightarrow> (string \<times> string) option" where
  "cstr_copy [] = None"
| "cstr_copy (c # p) =
    (if c = CHR 0x22 then Some ([], p)
     else if c = CHR 0x5C then
       (case p of [] \<Rightarrow> None
        | d # p' \<Rightarrow> map_option (apfst ((#) (unescape d))) (cstr_copy p'))
     else map_option (apfst ((#) c)) (cstr_copy p))"

text \<open>The lengths of a number and of a word; \<^const>\<open>None\<close> when the token may go on.\<close>

fun number_len :: "string \<Rightarrow> nat option" where
  "number_len [] = None"
| "number_len (c # p) =
    (if isdigit c \<or> c = CHR ''.'' then map_option Suc (number_len p)
     else if c = CHR ''/'' then
       (case p of [] \<Rightarrow> None
        | d # _ \<Rightarrow> if isdigit d then map_option Suc (number_len p)
                   else if d = CHR ''/'' \<or> d = CHR ''*'' then Some 0 else None)
     else Some 0)"

fun word_len :: "string \<Rightarrow> nat option" where
  "word_len [] = None"
| "word_len (c # p) =
    (if isalnum c \<or> c = CHR ''_'' \<or> c = CHR ''.'' \<or> c = CHR ''-'' then map_option Suc (word_len p)
     else Some 0)"

datatype tok_result =
    NoToken
  | TokError string
  | TokFault
  | Tok string

definition plainstr :: "nat option \<Rightarrow> string \<Rightarrow> tok_result \<times> string" where
  "plainstr len iter =
    (case len of None \<Rightarrow> (NoToken, iter) | Some n \<Rightarrow> (Tok (take n iter), drop n iter))"

text \<open>The token and \<open>*iter\<close> afterwards; spaces are skipped even when there is no token.\<close>

definition gettoken :: "string \<Rightarrow> tok_result \<times> string" where
  "gettoken iter0 =
    (let iter = dropWhile isspace iter0 in
     case iter of
       [] \<Rightarrow> (NoToken, iter)
     | c # p \<Rightarrow>
       if c = CHR 0x22 then
         (case cstr_len p of
            None \<Rightarrow> (NoToken, iter)
          | Some None \<Rightarrow> (TokError ''unknown escaped char'', iter)
          | Some (Some n) \<Rightarrow>
              (case cstr_copy p of
                 None \<Rightarrow> (TokFault, iter)
               | Some (s, p') \<Rightarrow> if length s \<noteq> n then (TokFault, iter) else (Tok s, p')))
       else if isdigit c then plainstr (number_len iter) iter
       else if isalpha c then plainstr (word_len iter) iter
       else if c \<in> set ''{}=;'' then plainstr (Some 1) iter
       else if c = CHR ''/'' \<and> p \<noteq> [] \<and> (hd p = CHR ''/'' \<or> hd p = CHR ''*'')
       then plainstr (Some 2) iter
       else (TokError ''unexpected char'', iter))"

subsection \<open>The value parsers\<close>

datatype parser_type = pt_bool | pt_pchar | pt_uint16 | pt_in_addr | pt_in_addr2

text \<open>What a value parser stores at the address of an entry; a netmask goes behind its address.\<close>

datatype stored = SBool bool | SStr string | SU16 u16 | SAddr u32 | SMask u32

text \<open>
  A value parser gives what it stores, the errors it reports and whether it returned 0.
  An \<open>in_addr\<close> is kept in host byte order.
\<close>

type_synonym vp_result = "stored list \<times> string list \<times> bool"

definition vp_pbool :: "string \<Rightarrow> vp_result" where
  "vp_pbool token =
    (if token \<in> set [''ok'', ''on'', ''yes'', ''true''] then ([SBool True], [], True)
     else if token \<in> set [''off'', ''no'', ''false''] then ([SBool False], [], True)
     else ([], [''boolean is not parsed''], False))"

definition vp_pchar :: "string \<Rightarrow> vp_result" where
  "vp_pchar token = ([SStr token], [], True)"

definition vp_uint16 :: "string \<Rightarrow> vp_result" where
  "vp_uint16 token =
    (let (uli, end) = strtoul token in
     if uli > 0xFFFF then ([], [''integer out of 16bit range''], False)
     else if end \<noteq> [] then ([], [''integer is not parsed''], False)
     else ([SU16 (of_int uli)], [], True))"

text \<open>
  \<open>getaddrinfo\<close> gives an error message or the addresses found; an empty list would make
  \<open>rand() % count\<close> divide by zero, which is the result \<^const>\<open>None\<close>.
\<close>

type_synonym resolver = "string \<Rightarrow> string + u32 list"

definition vp_in_addr :: "resolver \<Rightarrow> nat \<Rightarrow> string \<Rightarrow> vp_result option" where
  "vp_in_addr getaddrinfo rand token =
    (case inet_aton token of
       Some ia \<Rightarrow> Some ([SAddr ia], [], True)
     | None \<Rightarrow>
         (case getaddrinfo token of
            Inr ainfo \<Rightarrow>
              if ainfo = [] then None
              else Some ([SAddr (ainfo ! (rand mod length ainfo))], [], True)
          | Inl err \<Rightarrow> Some ([], [err], False)))"

definition vp_in_addr2 :: "string \<Rightarrow> vp_result" where
  "vp_in_addr2 token =
    (let host = takeWhile (\<lambda>c. c \<noteq> CHR ''/'') token;
         msk = map_option tl (strchr (CHR ''/'') token);
         (st, msgs, ok) =
           (case inet_aton host of
              Some ia \<Rightarrow> ([SAddr ia], [], True)
            | None \<Rightarrow> ([], [''invalid IP address''], False))
     in case msk of
       None \<Rightarrow> (st, msgs, ok)
     | Some m \<Rightarrow>
         let (uli, end) = strtoul m in
         if end \<noteq> [] \<and> hd end = CHR ''.'' then
           (case inet_aton m of
              Some ia \<Rightarrow> (st @ [SMask ia], msgs, ok)
            | None \<Rightarrow> (st, msgs @ [''invalid IP address''], False))
         else if 0 < uli \<and> uli < 32 then
           (st @ [SMask (push_bit (nat (32 - uli)) (NOT 0))], msgs, ok)
         else (st, msgs @ [''number of netmask bits out of range''], False))"

definition value_parser_by_type ::
  "resolver \<Rightarrow> nat \<Rightarrow> parser_type \<Rightarrow> string \<Rightarrow> vp_result option"
where
  "value_parser_by_type getaddrinfo rand t token =
    (case t of
       pt_bool \<Rightarrow> Some (vp_pbool token)
     | pt_pchar \<Rightarrow> Some (vp_pchar token)
     | pt_uint16 \<Rightarrow> Some (vp_uint16 token)
     | pt_in_addr \<Rightarrow> vp_in_addr getaddrinfo rand token
     | pt_in_addr2 \<Rightarrow> Some (vp_in_addr2 token))"

subsection \<open>The parser loop\<close>

text \<open>
  A section: its name, the callbacks and the entries. A callback gives the new application
  state, the errors it reported through \<open>parser_error\<close> and whether it returned 0; an absent
  callback does nothing and succeeds.
\<close>

type_synonym 's callback = "'s \<Rightarrow> 's \<times> string list \<times> bool"

record 's parser_entry =
  ent_key :: string
  ent_type :: parser_type
  ent_store :: "stored \<Rightarrow> 's \<Rightarrow> 's"

record 's parser_section =
  sec_name :: string
  onenter :: "'s callback"
  onexit :: "'s callback"
  entries :: "'s parser_entry list"

text \<open>
  The faults: the assertions of lines 402 and 540, the NULL that \<open>strchr\<close> could give on line
  457, the store through the NULL address of the terminating entry (line 531 lets an unknown
  key through to it), the division by zero of line 312 and the over-read of the copy loop.
\<close>

datatype fault = Assert_filled | Assert_no_key | Null_newline | Null_entry | Div_zero | Over_read

record 's parser_context =
  fd :: string
  eof :: bool
  read_fails :: bool
  ctx_line :: nat
  ctx_error :: bool
  messages :: "(string \<times> nat) list"
  bsize :: nat
  buffer :: string
  ctx_app :: 's
  lookups :: nat
  faulted :: "fault option"

record 's parser_locals =
  section_token :: "string option"
  key_token :: "string option"
  value_token :: "string option"
  cur_section :: "'s parser_section option"
  in_comment :: bool

definition parser_error :: "string \<Rightarrow> 's parser_context \<Rightarrow> 's parser_context" where
  "parser_error msg context =
    context\<lparr> ctx_error := True, messages := messages context @ [(msg, ctx_line context)] \<rparr>"

definition parser_start :: "string \<Rightarrow> bool \<Rightarrow> 's \<Rightarrow> 's parser_context" where
  "parser_start file fails s =
    \<lparr> fd = file, eof = False, read_fails = fails, ctx_line = 0, ctx_error = False, messages = [],
      bsize = 128, buffer = [], ctx_app = s, lookups = 0, faulted = None \<rparr>"

definition parser_add_section :: "'s parser_section \<Rightarrow> 's parser_section list \<Rightarrow> 's parser_section list" where
  "parser_add_section sec sections = sec # sections"

definition set_fault :: "fault \<Rightarrow> 's parser_context \<Rightarrow> 's parser_context" where
  "set_fault f context = context\<lparr> faulted := Some f \<rparr>"

definition run_callback :: "'s callback \<Rightarrow> string \<Rightarrow> 's parser_context \<Rightarrow> 's parser_context" where
  "run_callback cb msg context =
    (let (s, msgs, ok) = cb (ctx_app context);
         context = fold parser_error msgs (context\<lparr> ctx_app := s \<rparr>)
     in if ok then context else parser_error msg context)"

text \<open>
  Lines 526--538. The search stops at the matching entry or at the terminator, whose type is
  \<open>pt_bool\<close> and whose address is NULL.
\<close>

definition assign :: "(nat \<Rightarrow> resolver) \<Rightarrow> (nat \<Rightarrow> nat) \<Rightarrow> 's parser_section \<Rightarrow> string \<Rightarrow> string
  \<Rightarrow> 's parser_context \<Rightarrow> 's parser_context"
where
  "assign getaddrinfo rand sec k v context =
    (let e = List.find (\<lambda>e. ent_key e = k) (entries sec)
     in case value_parser_by_type (getaddrinfo (lookups context)) (rand (lookups context))
            (case e of None \<Rightarrow> pt_bool | Some e \<Rightarrow> ent_type e) v of
       None \<Rightarrow> set_fault Div_zero context
     | Some (st, msgs, ok) \<Rightarrow>
         if e = None \<and> st \<noteq> [] then set_fault Null_entry context
         else
           let context = context\<lparr> lookups := lookups context + 1, ctx_app := (case e of None \<Rightarrow> ctx_app context
                 | Some e \<Rightarrow> fold (ent_store e) st (ctx_app context)) \<rparr>;
               context = fold parser_error msgs context
           in if ok then context else parser_error ''value can't be parsed'' context)"

text \<open>One token; the rest of the buffer is passed along because comments remove a part of it.\<close>

definition parser_token :: "(nat \<Rightarrow> resolver) \<Rightarrow> (nat \<Rightarrow> nat) \<Rightarrow> 's parser_section list \<Rightarrow> string \<Rightarrow> string
  \<Rightarrow> 's parser_context \<times> 's parser_locals \<Rightarrow> 's parser_context \<times> 's parser_locals \<times> string"
where
  "parser_token getaddrinfo rand sections token iter cl =
    (let (context, l) = cl in
     if token = ''//'' then
       (case strchr (CHR 0x0A) iter of
          None \<Rightarrow> (set_fault Null_newline context, l, iter)
        | Some endc \<Rightarrow> (context, l, tl endc))
     else if token = ''/*'' then (context, l\<lparr> in_comment := True \<rparr>, iter)
     else if token = ''{'' then
       (case (cur_section l, section_token l) of
          (Some _, _) \<Rightarrow> (parser_error ''section-in-section is invalid'' context, l, iter)
        | (None, None) \<Rightarrow> (parser_error ''expected token before {'' context, l, iter)
        | (None, Some t) \<Rightarrow>
            let l = l\<lparr> cur_section := List.find (\<lambda>p. sec_name p = t) sections, section_token := None \<rparr>
            in case cur_section l of
              Some sec \<Rightarrow> (run_callback (onenter sec) ''section->onenter failed'' context, l, iter)
            | None \<Rightarrow> (parser_error ''unknown section'' context, l, iter))
     else if token = ''}'' then
       (case cur_section l of
          Some sec \<Rightarrow> (run_callback (onexit sec) ''section->onexit failed'' context,
                       l\<lparr> cur_section := None \<rparr>, iter)
        | None \<Rightarrow> (parser_error ''can't close non-opened section'' context, l, iter))
     else if token = ''='' then
       (case (cur_section l, key_token l) of
          (None, _) \<Rightarrow> (parser_error ''assignment used outside of any section'' context, l, iter)
        | (Some _, None) \<Rightarrow> (parser_error ''assignment used without key'' context, l, iter)
        | _ \<Rightarrow> (context, l, iter))
     else if token = '';'' then
       let context =
         (case (cur_section l, key_token l, value_token l) of
            (None, _, _) \<Rightarrow> parser_error ''assignment termination outside of any section'' context
          | (Some _, Some _, None) \<Rightarrow> parser_error ''assignment has only key but no value'' context
          | (Some sec, Some k, Some v) \<Rightarrow> assign getaddrinfo rand sec k v context
          | (Some _, None, _) \<Rightarrow> set_fault Assert_no_key context)
       in (context, l\<lparr> key_token := None, value_token := None \<rparr>, iter)
     else
       (case (cur_section l, section_token l, key_token l, value_token l) of
          (None, None, _, _) \<Rightarrow> (context, l\<lparr> section_token := Some token \<rparr>, iter)
        | (Some _, _, None, _) \<Rightarrow> (context, l\<lparr> key_token := Some token \<rparr>, iter)
        | (Some _, _, Some _, None) \<Rightarrow> (context, l\<lparr> value_token := Some token \<rparr>, iter)
        | _ \<Rightarrow> (parser_error ''invalid token order'' context, l, iter)))"

text \<open>Every token is taken from the front of a non-empty string.\<close>

lemma cstr_copy_suffix: "cstr_copy p = Some (s, p') \<Longrightarrow> suffix p' p"
  by (induction p arbitrary: s rule: cstr_copy.induct)
    (auto split: if_splits list.splits intro: suffix_ConsI)

lemma number_len_pos: "isdigit c \<Longrightarrow> number_len (c # p) = Some n \<Longrightarrow> 0 < n"
  by (auto simp: map_option_case split: option.splits)

lemma word_len_pos: "isalpha c \<Longrightarrow> word_len (c # p) = Some n \<Longrightarrow> 0 < n"
  by (auto simp: isalnum_def split: option.splits)

lemma gettoken_suffix:
  assumes "gettoken iter = (r, iter')" shows "suffix iter' iter"
proof -
  define q where "q = dropWhile isspace iter"
  have "suffix iter' q"
    using assms unfolding gettoken_def Let_def q_def [symmetric]
    by (auto simp: plainstr_def simp del: number_len.simps word_len.simps
        split: list.splits if_splits option.splits prod.splits
        intro!: suffix_intros dest!: cstr_copy_suffix intro: suffix_ConsI suffix_order.trans [OF suffix_drop])
  moreover have "suffix q iter" unfolding q_def by (rule suffix_dropWhile)
  ultimately show ?thesis by (rule suffix_order.trans)
qed

lemma gettoken_shorter:
  assumes "gettoken iter = (Tok t, iter')" shows "length iter' < length iter"
proof -
  have "length (dropWhile isspace iter) \<le> length iter" by (rule length_dropWhile_le)
  moreover have "length iter' < length (dropWhile isspace iter)"
    using assms number_len_pos word_len_pos
    by (auto simp: gettoken_def Let_def plainstr_def simp del: number_len.simps word_len.simps
        split: list.splits if_splits option.splits prod.splits
        dest!: cstr_copy_suffix dest: suffix_length_le)
  ultimately show ?thesis by simp
qed

lemma parser_token_suffix:
  "parser_token gai rnd secs t iter (ctx, l) = (ctx', l', iter') \<Longrightarrow> suffix iter' iter"
  unfolding parser_token_def Let_def prod.case
  by (simp split: if_splits option.splits) (auto intro: suffix_intros dest: strchr_suffix)

lemma parser_token_shorter:
  "parser_token gai rnd secs t iter (ctx, l) = (ctx', l', iter') \<Longrightarrow> length iter' \<le> length iter"
  by (intro suffix_length_le parser_token_suffix)

text \<open>
  The loop over the tokens of the buffer. The last component says whether \<open>token\<close> is NULL after
  it, that is, whether \<open>gettoken\<close> ended the loop.
\<close>

function (sequential) parser_tokens ::
  "(nat \<Rightarrow> resolver) \<Rightarrow> (nat \<Rightarrow> nat) \<Rightarrow> 's parser_section list \<Rightarrow> 's parser_context \<Rightarrow> 's parser_locals
   \<Rightarrow> string \<Rightarrow> 's parser_context \<times> 's parser_locals \<times> string \<times> bool"
where
  "parser_tokens getaddrinfo rand sections context l iter =
    (if ctx_error context \<or> in_comment l \<or> faulted context \<noteq> None then (context, l, iter, False)
     else case gettoken iter of
       (NoToken, iter') \<Rightarrow> (context, l, iter', True)
     | (TokError msg, iter') \<Rightarrow> (parser_error msg context, l, iter', True)
     | (TokFault, iter') \<Rightarrow> (set_fault Over_read context, l, iter', True)
     | (Tok token, iter') \<Rightarrow>
         (case parser_token getaddrinfo rand sections token iter' (context, l) of
            (context, l, iter) \<Rightarrow> parser_tokens getaddrinfo rand sections context l iter))"
  by pat_completeness auto
termination
  by (relation "measure (\<lambda>(_, _, _, _, _, iter). length iter)")
    (auto dest!: sym [of _ "gettoken _"] gettoken_shorter sym [of _ "parser_token _ _ _ _ _ _"]
      intro: le_less_trans [OF parser_token_shorter])

declare parser_tokens.simps [simp del]

text \<open>
  \<open>fgets(p, n, fd)\<close>: at most \<open>n - 1\<close> characters, up to a newline. \<^const>\<open>None\<close> is NULL, with the
  end-of-file flag or, when reading fails, the error indicator set.
\<close>

fun fgets_chunk :: "nat \<Rightarrow> string \<Rightarrow> string" where
  "fgets_chunk 0 s = []"
| "fgets_chunk (Suc n) [] = []"
| "fgets_chunk (Suc n) (c # s) = c # (if c = CHR 0x0A then [] else fgets_chunk n s)"

definition fgets :: "nat \<Rightarrow> 's parser_context \<Rightarrow> string option \<times> 's parser_context" where
  "fgets n context =
    (let chunk = fgets_chunk (n - 1) (fd context);
         rest = drop (length chunk) (fd context);
         at_end = (length chunk < n - 1 \<and> (chunk = [] \<or> last chunk \<noteq> CHR 0x0A));
         context = context\<lparr> fd := rest \<rparr>
     in if at_end \<and> read_fails context then (None, context)
        else if at_end then (if chunk = [] then None else Some chunk, context\<lparr> eof := True \<rparr>)
        else (Some chunk, context))"

text \<open>
  Lines 438--569: the end of an open comment, then the tokens of the buffer. The last component
  is \<open>need_more_data\<close>.
\<close>

definition parser_line ::
  "(nat \<Rightarrow> resolver) \<Rightarrow> (nat \<Rightarrow> nat) \<Rightarrow> 's parser_section list \<Rightarrow> 's parser_context \<Rightarrow> 's parser_locals
   \<Rightarrow> 's parser_context \<times> 's parser_locals \<times> bool"
where
  "parser_line getaddrinfo rand sections context l =
    (case (if in_comment l then map_option (drop 2) (strstr ''*/'' (buffer context))
           else Some (buffer context)) of
       None \<Rightarrow> (context\<lparr> buffer := [] \<rparr>, l, True)
     | Some data \<Rightarrow>
         (case parser_tokens getaddrinfo rand sections context (l\<lparr> in_comment := False \<rparr>) data of
            (context, l, iter, no_token) \<Rightarrow> (context\<lparr> buffer := iter \<rparr>, l, no_token)))"

text \<open>What the processing of tokens leaves alone: the file and the size of the buffer.\<close>

definition same_file :: "'s parser_context \<Rightarrow> 's parser_context \<Rightarrow> bool" where
  "same_file c d \<longleftrightarrow> fd d = fd c \<and> eof d = eof c \<and> read_fails d = read_fails c \<and> bsize d = bsize c"

lemma same_file_refl [simp]: "same_file c c"
  by (simp add: same_file_def)

lemma same_file_trans: "same_file c d \<Longrightarrow> same_file d e \<Longrightarrow> same_file c e"
  by (simp add: same_file_def)

lemma same_file_update [simp]:
  "same_file c (parser_error m d) = same_file c d" "same_file c (set_fault f d) = same_file c d"
  "same_file c (d\<lparr> ctx_app := s \<rparr>) = same_file c d" "same_file c (d\<lparr> lookups := n \<rparr>) = same_file c d"
  "same_file c (d\<lparr> buffer := b \<rparr>) = same_file c d"
  by (simp_all add: same_file_def parser_error_def set_fault_def)

lemma same_file_errors [simp]: "same_file c (fold parser_error ms d) = same_file c d"
  by (induction ms arbitrary: d) simp_all

lemma same_file_run_callback [simp]: "same_file c (run_callback cb m d) = same_file c d"
  by (simp add: run_callback_def Let_def split: prod.splits)

lemma same_file_assign [simp]: "same_file c (assign gai rnd sec k v d) = same_file c d"
  by (simp add: assign_def Let_def split: option.splits prod.splits)

lemma parser_token_file:
  "parser_token gai rnd secs t iter (ctx, l) = (ctx', l', iter') \<Longrightarrow> same_file ctx ctx'"
  unfolding parser_token_def Let_def prod.case
  by (simp split: if_splits option.splits) auto

text \<open>
  The rule for the token loop: an invariant of its iterations holds at the last test of the loop
  condition, and either the condition was false there or \<open>gettoken\<close> gave no token.
\<close>

definition tokens_done :: "'s parser_context \<Rightarrow> 's parser_locals \<Rightarrow> bool" where
  "tokens_done c l \<longleftrightarrow> ctx_error c \<or> in_comment l \<or> faulted c \<noteq> None"

definition tok_exit :: "tok_result \<Rightarrow> 's parser_context \<Rightarrow> 's parser_context" where
  "tok_exit r c = (case r of TokError m \<Rightarrow> parser_error m c | TokFault \<Rightarrow> set_fault Over_read c | _ \<Rightarrow> c)"

lemma parser_tokens_while:
  assumes "parser_tokens gai rnd secs ctx l iter = (ctx', l', iter', nt)" and "I ctx l iter"
    and step: "\<And>c l i t i' c' l' i''. I c l i \<Longrightarrow> \<not> tokens_done c l \<Longrightarrow> gettoken i = (Tok t, i') \<Longrightarrow>
      parser_token gai rnd secs t i' (c, l) = (c', l', i'') \<Longrightarrow> I c' l' i''"
  shows "\<exists>c0 i0. I c0 l' i0 \<and>
    (if nt then \<exists>r. gettoken i0 = (r, iter') \<and> (\<forall>t. r \<noteq> Tok t) \<and> ctx' = tok_exit r c0 \<and> \<not> tokens_done c0 l'
     else ctx' = c0 \<and> iter' = i0 \<and> tokens_done c0 l')"
  using assms
proof (induction gai rnd secs ctx l iter rule: parser_tokens.induct [case_names less])
  case (less gai rnd secs ctx l iter)
  obtain r i' where g: "gettoken iter = (r, i')" by fastforce
  show ?case
  proof (cases "tokens_done ctx l \<or> (\<forall>t. r \<noteq> Tok t)")
    case True
    with less.prems(1,2) g show ?thesis
      by (intro exI [of _ ctx] exI [of _ iter], cases r)
        (auto simp: parser_tokens.simps [of _ _ _ ctx] tokens_done_def tok_exit_def split: if_splits)
  next
    case False
    then obtain t where t: "r = Tok t" and d: "\<not> tokens_done ctx l" by blast
    obtain c1 l1 i1 where p: "parser_token gai rnd secs t i' (ctx, l) = (c1, l1, i1)"
      by (metis prod_cases3)
    have "parser_tokens gai rnd secs c1 l1 i1 = (ctx', l', iter', nt)"
      using less.prems(1) g t d p by (simp add: parser_tokens.simps [of _ _ _ ctx] tokens_done_def)
    moreover have "I c1 l1 i1" using less.prems(2) d g t p by (blast intro: less.prems(3))
    ultimately show ?thesis
      using d [unfolded tokens_done_def] g t p less.prems(3)
      by (intro less.IH [of r i' t c1 "(l1, i1)" l1 i1]) auto
  qed
qed

lemma same_file_tok_exit [simp]: "same_file c (tok_exit r d) = same_file c d"
  by (simp add: tok_exit_def split: tok_result.split)

text \<open>The token loop ends with a comment, an error, a fault or all tokens consumed.\<close>

lemma parser_tokens_file:
  assumes "parser_tokens gai rnd secs ctx l iter = (ctx', l', iter', nt)"
  shows "same_file ctx ctx' \<and> suffix iter' iter \<and>
    (nt \<or> tokens_done ctx' l' \<and> (tokens_done ctx l \<or> length iter' < length iter))"
proof -
  let ?I = "\<lambda>c m i. same_file ctx c \<and> suffix i iter \<and>
    (c = ctx \<and> m = l \<and> i = iter \<or> \<not> tokens_done ctx l \<and> length i < length iter)"
  have "\<exists>c0 i0. ?I c0 l' i0 \<and>
    (if nt then \<exists>r. gettoken i0 = (r, iter') \<and> (\<forall>t. r \<noteq> Tok t) \<and> ctx' = tok_exit r c0 \<and> \<not> tokens_done c0 l'
     else ctx' = c0 \<and> iter' = i0 \<and> tokens_done c0 l')"
  proof (rule parser_tokens_while [OF assms], goal_cases)
    case (2 c m i t i' c' m' i'')
    have "suffix i'' i'" using 2(4) by (rule parser_token_suffix)
    moreover have "suffix i' i" "length i' < length i"
      using 2(3) gettoken_suffix gettoken_shorter by blast+
    moreover have "same_file c c'" using 2(4) by (rule parser_token_file)
    ultimately show ?case
      using 2(1,2) suffix_length_le [of i'' i']
      by (auto intro: same_file_trans suffix_order.trans)
  qed simp
  then show ?thesis
    by (auto split: if_splits dest: gettoken_suffix intro: suffix_order.trans)
qed

text \<open>
  After a line is processed, more input is needed or the rest of the buffer is shorter and
  begins inside a comment.
\<close>

lemma parser_line_file:
  assumes "parser_line gai rnd secs ctx l = (ctx', l', nd)"
  shows "same_file ctx ctx' \<and> suffix (buffer ctx') (buffer ctx) \<and>
    (nd \<or> ctx_error ctx' \<or> faulted ctx' \<noteq> None \<or>
     ctx_error ctx \<or> faulted ctx \<noteq> None \<or> length (buffer ctx') < length (buffer ctx))"
proof (cases "if in_comment l then map_option (drop 2) (strstr ''*/'' (buffer ctx)) else Some (buffer ctx)")
  case None
  with assms show ?thesis by (auto simp: parser_line_def)
next
  case (Some data)
  then have d: "suffix data (buffer ctx)"
    by (auto split: if_splits intro: suffix_order.trans [OF suffix_drop] dest: strstr_suffix)
  obtain c1 l1 i1 nt where
    t: "parser_tokens gai rnd secs ctx (l\<lparr> in_comment := False \<rparr>) data = (c1, l1, i1, nt)"
    by (metis prod_cases4)
  from parser_tokens_file [OF t] d suffix_length_le [OF d] show ?thesis
    using assms by (auto simp: parser_line_def Some t tokens_done_def dest: suffix_order.trans)
qed

lemma fgets_chunk_le: "length (fgets_chunk n s) \<le> n" "length (fgets_chunk n s) \<le> length s"
  by (induction n s rule: fgets_chunk.induct) auto

text \<open>
  A bound on what is left to do: the unread characters first, then the iterations that do not
  read any (a comment that starts in the buffer, a full buffer that is about to grow).
\<close>

definition parser_stopped :: "'s parser_context \<Rightarrow> bool" where
  "parser_stopped ctx \<longleftrightarrow> ctx_error ctx \<or> eof ctx \<or> faulted ctx \<noteq> None"

definition unread :: "'s parser_context \<Rightarrow> nat" where
  "unread ctx = (if parser_stopped ctx then 0 else length (fd ctx) + 1)"

definition pending :: "bool \<Rightarrow> bool \<Rightarrow> 's parser_context \<Rightarrow> nat" where
  "pending space data ctx = (if \<not> data then 3 + length (buffer ctx)
     else if \<not> space \<and> bsize ctx - length (buffer ctx) \<le> 1 then 2 else 1)"

lemma unread_same_file:
  "same_file c d \<Longrightarrow> \<not> parser_stopped c \<Longrightarrow> unread d \<le> unread c"
  by (auto simp: unread_def same_file_def)

lemma fgets_unread:
  assumes "fgets n ctx = (r, ctx')" and "\<not> parser_stopped ctx"
  shows "buffer ctx' = buffer ctx \<and> bsize ctx' = bsize ctx \<and>
    (case r of None \<Rightarrow> read_fails ctx' \<or> unread ctx' = 0
     | Some chunk \<Rightarrow> if chunk = [] then n \<le> 1 \<and> ctx' = ctx
         else unread ctx' < unread ctx \<and> (last chunk = CHR 0x0A \<longrightarrow> \<not> parser_stopped ctx'))"
proof -
  define k where "k = n - 1"
  define chunk where "chunk = fgets_chunk k (fd ctx)"
  define at_end where "at_end = (length chunk < k \<and> (chunk = [] \<or> last chunk \<noteq> CHR 0x0A))"
  have e: "chunk = [] \<Longrightarrow> k = 0 \<or> at_end" by (auto simp: at_end_def)
  have "chunk \<noteq> [] \<Longrightarrow> fd ctx \<noteq> []" unfolding chunk_def by (cases k; cases "fd ctx") simp_all
  then have d: "chunk \<noteq> [] \<Longrightarrow> length (drop (length chunk) (fd ctx)) < length (fd ctx)"
    by simp
  have f: "fgets n ctx = (let c = ctx\<lparr> fd := drop (length chunk) (fd ctx) \<rparr> in
      if at_end \<and> read_fails ctx then (None, c)
      else if at_end then (if chunk = [] then None else Some chunk, c\<lparr> eof := True \<rparr>)
      else (Some chunk, c))"
    unfolding fgets_def k_def [symmetric] chunk_def [symmetric] at_end_def [symmetric] Let_def by simp
  have l: "\<not> at_end \<Longrightarrow> chunk \<noteq> [] \<Longrightarrow> unread (ctx\<lparr> fd := drop (length chunk) (fd ctx) \<rparr>) < unread ctx
     \<and> \<not> parser_stopped (ctx\<lparr> fd := drop (length chunk) (fd ctx) \<rparr>)"
    using d assms(2) by (simp add: unread_def parser_stopped_def)
  have x: "unread (c\<lparr> eof := True \<rparr>) = 0" for c :: "'a parser_context"
    by (simp add: unread_def parser_stopped_def)
  have y: "0 < unread ctx" using assms(2) by (simp add: unread_def)
  consider "at_end" "read_fails ctx" | "at_end" "\<not> read_fails ctx" | "\<not> at_end" by blast
  then show ?thesis
  proof cases
    case 3
    then show ?thesis using assms(1) l e unfolding f Let_def
      by (cases "chunk = []") (auto simp: k_def)
  qed (use assms(1) x y in \<open>auto simp: f Let_def at_end_def\<close>)
qed

text \<open>
  One iteration of the outer loop: the loop goes on with new values of \<open>need_more_space\<close> and
  \<open>need_more_data\<close>, or it ends, or \<open>parser_run\<close> returns from the middle of it.
\<close>

datatype 's parser_outcome =
    Loop bool bool "'s parser_context" "'s parser_locals"
  | Leave "'s parser_context" "'s parser_locals"
  | Return "'s parser_context"

definition parser_process ::
  "(nat \<Rightarrow> resolver) \<Rightarrow> (nat \<Rightarrow> nat) \<Rightarrow> 's parser_section list
   \<Rightarrow> 's parser_context \<Rightarrow> 's parser_locals \<Rightarrow> 's parser_outcome"
where
  "parser_process getaddrinfo rand sections context l =
    (case parser_line getaddrinfo rand sections context l of
       (context, l, need_more_data) \<Rightarrow> Loop False need_more_data context l)"

definition parser_step ::
  "(nat \<Rightarrow> resolver) \<Rightarrow> (nat \<Rightarrow> nat) \<Rightarrow> 's parser_section list \<Rightarrow> bool \<Rightarrow> bool
   \<Rightarrow> 's parser_context \<Rightarrow> 's parser_locals \<Rightarrow> 's parser_outcome"
where
  "parser_step getaddrinfo rand sections need_more_space need_more_data context l =
    (if parser_stopped context then Leave context l
     else if \<not> length (buffer context) < bsize context then Leave (set_fault Assert_filled context) l
     else
       let context = (if need_more_space then context\<lparr> bsize := 2 * bsize context \<rparr> else context)
       in if need_more_data then
            (case fgets (bsize context - length (buffer context)) context of
               (None, context) \<Rightarrow>
                 if read_fails context then Return (parser_error ''file read failure'' context)
                 else Loop False True context l
             | (Some chunk, context) \<Rightarrow>
                 let context = context\<lparr> buffer := buffer context @ chunk \<rparr> in
                 if chunk \<noteq> [] \<and> last chunk = CHR 0x0A
                 then parser_process getaddrinfo rand sections
                        (context\<lparr> ctx_line := ctx_line context + 1 \<rparr>) l
                 else Loop True True context l)
          else parser_process getaddrinfo rand sections context l)"

lemma parser_process_decreases:
  assumes "parser_process gai rnd secs ctx l = Loop sp dt ctx' l'" and "\<not> parser_stopped ctx"
  shows "unread ctx' = 0 \<or> unread ctx' \<le> unread ctx \<and> pending sp dt ctx' < 3 + length (buffer ctx)"
proof -
  have "parser_line gai rnd secs ctx l = (ctx', l', dt)" "\<not> sp"
    using assms(1) by (auto simp: parser_process_def split: prod.splits)
  from parser_line_file [OF this(1)] this(2) assms(2) show ?thesis
    using unread_same_file [of ctx ctx'] by (auto simp: pending_def unread_def parser_stopped_def)
qed

lemma parser_step_decreases:
  assumes "parser_step gai rnd secs sp dt ctx l = Loop sp' dt' ctx' l'"
  shows "unread ctx' < unread ctx \<or> unread ctx' = unread ctx \<and> pending sp' dt' ctx' < pending sp dt ctx"
proof -
  define c where "c = (if sp then ctx\<lparr> bsize := 2 * bsize ctx \<rparr> else ctx)"
  have g: "\<not> parser_stopped ctx" "length (buffer ctx) < bsize ctx"
    using assms by (auto simp: parser_step_def split: if_splits)
  have c: "\<not> parser_stopped c" "buffer c = buffer ctx" "unread c = unread ctx" "0 < unread ctx"
    using g by (auto simp: c_def parser_stopped_def unread_def)
  show ?thesis
  proof (cases dt)
    case False
    then have "parser_process gai rnd secs c l = Loop sp' dt' ctx' l'"
      using assms g by (simp add: parser_step_def c_def Let_def)
    from parser_process_decreases [OF this c(1)] c False show ?thesis by (auto simp: pending_def)
  next
    case True
    obtain r c' where f: "fgets (bsize c - length (buffer c)) c = (r, c')" by fastforce
    note u = fgets_unread [OF f c(1)]
    show ?thesis
    proof (cases r)
      case None
      with assms g True f u c show ?thesis
        by (auto simp: parser_step_def c_def [symmetric] Let_def split: if_splits)
    next
      case (Some chunk)
      define d where "d = c'\<lparr> buffer := buffer c' @ chunk \<rparr>"
      have s: "parser_step gai rnd secs sp dt ctx l =
        (if chunk \<noteq> [] \<and> last chunk = CHR 0x0A
         then parser_process gai rnd secs (d\<lparr> ctx_line := ctx_line d + 1 \<rparr>) l
         else Loop True True d l)"
        using g True f Some by (simp add: parser_step_def c_def [symmetric] Let_def d_def)
      have d: "unread d = unread c'" "unread (d\<lparr> ctx_line := ctx_line d + 1 \<rparr>) = unread c'"
        by (simp_all add: d_def unread_def parser_stopped_def)
      show ?thesis
      proof (cases "chunk = []")
        case True
        with u Some have c': "c' = c" "bsize c - length (buffer c) \<le> 1" by simp_all
        then have "\<not> sp" using g by (auto simp: c_def)
        moreover from True assms s have "sp' \<and> dt' \<and> ctx' = d" by auto
        ultimately show ?thesis
          using c' c True \<open>dt\<close> d by (simp add: pending_def c_def)
      next
        case False
        then have lt: "unread c' < unread ctx"
          and nl: "last chunk = CHR 0x0A \<Longrightarrow> \<not> parser_stopped (d\<lparr> ctx_line := ctx_line d + 1 \<rparr>)"
          using u Some c by (simp_all add: d_def parser_stopped_def)
        show ?thesis
        proof (cases "last chunk = CHR 0x0A")
          case True
          with assms s False have
            "parser_process gai rnd secs (d\<lparr> ctx_line := ctx_line d + 1 \<rparr>) l = Loop sp' dt' ctx' l'"
            by simp
          from parser_process_decreases [OF this nl [OF True]] lt d show ?thesis by linarith
        next
          case False
          with assms s lt d show ?thesis by simp
        qed
      qed
    qed
  qed
qed

function parser_loop ::
  "(nat \<Rightarrow> resolver) \<Rightarrow> (nat \<Rightarrow> nat) \<Rightarrow> 's parser_section list \<Rightarrow> bool \<Rightarrow> bool
   \<Rightarrow> 's parser_context \<Rightarrow> 's parser_locals \<Rightarrow> 's parser_context \<times> 's parser_locals option"
where
  "parser_loop getaddrinfo rand sections need_more_space need_more_data context l =
    (case parser_step getaddrinfo rand sections need_more_space need_more_data context l of
       Loop space data context l \<Rightarrow> parser_loop getaddrinfo rand sections space data context l
     | Leave context l \<Rightarrow> (context, Some l)
     | Return context \<Rightarrow> (context, None))"
  by pat_completeness auto
termination
  by (relation "measures [\<lambda>(_, _, _, _, _, ctx, _). unread ctx,
        \<lambda>(_, _, _, sp, dt, ctx, _). pending sp dt ctx]")
    (auto dest: parser_step_decreases)

declare parser_loop.simps [simp del]

definition no_locals :: "'s parser_locals" where
  "no_locals = \<lparr> section_token = None, key_token = None, value_token = None,
     cur_section = None, in_comment = False \<rparr>"

text \<open>The context afterwards and whether 0 is returned.\<close>

definition parser_run ::
  "(nat \<Rightarrow> resolver) \<Rightarrow> (nat \<Rightarrow> nat) \<Rightarrow> 's parser_section list
   \<Rightarrow> 's parser_context \<Rightarrow> 's parser_context \<times> bool"
where
  "parser_run getaddrinfo rand sections context =
    (case parser_loop getaddrinfo rand sections False True context no_locals of
       (context, None) \<Rightarrow> (context, False)
     | (context, Some l) \<Rightarrow>
         let stale = (\<lambda>b msg context. if b then parser_error msg context else context);
             context = stale (cur_section l \<noteq> None) ''unclosed section'' context;
             context = stale (section_token l \<noteq> None) ''stale section_token'' context;
             context = stale (key_token l \<noteq> None) ''stale key_token'' context;
             context = stale (value_token l \<noteq> None) ''stale value_token'' context
         in (context, \<not> ctx_error context))"

subsection \<open>No undefined behaviour in the tokenizer and the buffer\<close>

lemma cstr_copy_len:
  "cstr_len p = Some (Some n) \<Longrightarrow> \<exists>s p'. cstr_copy p = Some (s, p') \<and> length s = n"
proof (induction p arbitrary: n rule: cstr_len.induct)
  case (2 c p)
  then show ?case by (fastforce split: if_splits list.splits)
qed simp

lemma number_len_less: "number_len p = Some n \<Longrightarrow> n < length p"
  by (induction p arbitrary: n rule: number_len.induct) (auto split: if_splits list.splits)

lemma word_len_less: "word_len p = Some n \<Longrightarrow> n < length p"
  by (induction p arbitrary: n rule: word_len.induct) (auto split: if_splits list.splits)

lemma cstr_copy_last: "cstr_copy p = Some (s, []) \<Longrightarrow> p \<noteq> [] \<and> last p = CHR 0x22"
  by (induction p arbitrary: s rule: cstr_copy.induct) (auto split: if_splits list.splits)

definition bad_faults :: "fault option set" where
  "bad_faults = {Some Assert_filled, Some Null_newline, Some Over_read}"

definition nl_ended :: "string \<Rightarrow> bool" where
  "nl_ended s \<longleftrightarrow> s = [] \<or> last s = CHR 0x0A"

lemma nl_ended_suffix: "suffix r s \<Longrightarrow> nl_ended s \<Longrightarrow> nl_ended r"
  by (cases "r = []") (auto simp: suffix_def nl_ended_def)

text \<open>A token never ends the buffer, because the buffer ends with a newline.\<close>

lemma last_short: "length xs \<le> Suc 0 \<Longrightarrow> xs \<noteq> [] \<Longrightarrow> last xs = hd xs"
  by (cases xs) auto

lemma gettoken_rest:
  assumes "gettoken iter = (Tok t, iter')" and "nl_ended iter"
  shows "iter' \<noteq> []"
proof
  assume e: "iter' = []"
  define q where "q = dropWhile isspace iter"
  have "suffix q iter" unfolding q_def by (rule suffix_dropWhile)
  then have q: "nl_ended q" using assms(2) by (rule nl_ended_suffix)
  show False
    using assms(1) q e unfolding gettoken_def Let_def q_def [symmetric]
    by (auto simp: plainstr_def nl_ended_def last_short simp del: number_len.simps word_len.simps
        split: list.splits if_splits option.splits prod.splits
        dest: number_len_less word_len_less cstr_copy_last)
qed

lemma gettoken_no_overread: "fst (gettoken iter) \<noteq> TokFault"
proof (cases "dropWhile isspace iter")
  case (Cons c p)
  have "fst (plainstr n i) \<noteq> TokFault" for n i by (simp add: plainstr_def split: option.split)
  moreover have "fst (case cstr_len p of None \<Rightarrow> (NoToken, i) | Some None \<Rightarrow> (TokError m, i)
      | Some (Some n) \<Rightarrow> (case cstr_copy p of None \<Rightarrow> (TokFault, i)
          | Some (s, p') \<Rightarrow> if length s \<noteq> n then (TokFault, i) else (Tok s, p'))) \<noteq> TokFault" for i m
  proof (cases "\<exists>n. cstr_len p = Some (Some n)")
    case True
    then show ?thesis using cstr_copy_len [of p] by auto
  qed (auto split: option.split)
  ultimately show ?thesis
    unfolding gettoken_def Cons Let_def list.case
    by (simp del: number_len.simps word_len.simps)
next
  case Nil
  then show ?thesis unfolding gettoken_def Let_def Nil by simp
qed

lemma faulted_parser_error [simp]: "faulted (parser_error m c) = faulted c"
  by (simp add: parser_error_def)

lemma faulted_parser_errors [simp]: "faulted (fold parser_error ms c) = faulted c"
  by (induction ms arbitrary: c) simp_all

lemma faulted_run_callback [simp]: "faulted (run_callback cb m c) = faulted c"
  by (simp add: run_callback_def Let_def split: prod.splits)

lemma assign_faults:
  "faulted (assign gai rnd sec k v c) \<in> {faulted c, Some Null_entry, Some Div_zero}"
  by (auto simp: assign_def Let_def set_fault_def split: option.splits prod.splits)

lemma parser_token_faults:
  assumes "parser_token gai rnd secs t iter (ctx, l) = (ctx', l', iter')"
    and "CHR 0x0A \<in> set iter"
  shows "faulted ctx' \<in> {faulted ctx, Some Null_entry, Some Div_zero, Some Assert_no_key}"
proof -
  have "assign gai rnd sec k v ctx = ctx' \<Longrightarrow> ?thesis" for sec k v
    using assign_faults [of gai rnd sec k v ctx] by auto
  then show ?thesis
    using assms strchr_some [OF assms(2)] unfolding parser_token_def Let_def prod.case
    by (simp split: if_splits option.splits) (auto simp: set_fault_def)
qed

lemma parser_tokens_faults:
  assumes "parser_tokens gai rnd secs ctx l iter = (ctx', l', iter', nt)"
    and "faulted ctx \<notin> bad_faults" and "nl_ended iter"
  shows "faulted ctx' \<notin> bad_faults \<and> nl_ended iter'"
proof -
  let ?I = "\<lambda>c m i. faulted c \<notin> bad_faults \<and> nl_ended i"
  have "\<exists>c0 i0. ?I c0 l' i0 \<and>
    (if nt then \<exists>r. gettoken i0 = (r, iter') \<and> (\<forall>t. r \<noteq> Tok t) \<and> ctx' = tok_exit r c0 \<and> \<not> tokens_done c0 l'
     else ctx' = c0 \<and> iter' = i0 \<and> tokens_done c0 l')"
  proof (rule parser_tokens_while [OF assms(1)], goal_cases)
    case (2 c m i t i' c' m' i'')
    have "nl_ended i'" using 2(1,3) gettoken_suffix nl_ended_suffix by blast
    moreover have "i' \<noteq> []" using 2(1,3) gettoken_rest by blast
    ultimately have "CHR 0x0A \<in> set i'" by (metis nl_ended_def last_in_set)
    from parser_token_faults [OF 2(4) this] parser_token_suffix [OF 2(4)] 2(1) \<open>nl_ended i'\<close>
    show ?case by (auto simp: bad_faults_def dest: nl_ended_suffix)
  qed (simp add: assms)
  then obtain c0 i0 where I: "faulted c0 \<notin> bad_faults" "nl_ended i0"
    and x: "if nt then \<exists>r. gettoken i0 = (r, iter') \<and> (\<forall>t. r \<noteq> Tok t) \<and> ctx' = tok_exit r c0 \<and> \<not> tokens_done c0 l'
     else ctx' = c0 \<and> iter' = i0 \<and> tokens_done c0 l'" by blast
  show ?thesis
  proof (cases nt)
    case True
    with x obtain r where r: "gettoken i0 = (r, iter')" "ctx' = tok_exit r c0" by auto
    have "nl_ended iter'" using r(1) I(2) gettoken_suffix nl_ended_suffix by blast
    moreover have "r \<noteq> TokFault" using gettoken_no_overread [of i0] r(1) by simp
    ultimately show ?thesis using r(2) I(1) by (simp add: tok_exit_def split: tok_result.splits)
  qed (use I x in simp)
qed

lemma parser_line_faults:
  assumes "parser_line gai rnd secs ctx l = (ctx', l', nd)"
    and "faulted ctx \<notin> bad_faults" and "nl_ended (buffer ctx)"
  shows "faulted ctx' \<notin> bad_faults \<and> nl_ended (buffer ctx')"
proof (cases "if in_comment l then map_option (drop 2) (strstr ''*/'' (buffer ctx)) else Some (buffer ctx)")
  case None
  with assms show ?thesis by (auto simp: parser_line_def nl_ended_def)
next
  case (Some data)
  then have "suffix data (buffer ctx)"
    by (auto split: if_splits intro: suffix_order.trans [OF suffix_drop] dest: strstr_suffix)
  then have d: "nl_ended data" using assms(3) nl_ended_suffix by blast
  obtain c1 l1 i1 nt where
    t: "parser_tokens gai rnd secs ctx (l\<lparr> in_comment := False \<rparr>) data = (c1, l1, i1, nt)"
    by (metis prod_cases4)
  from parser_tokens_faults [OF t assms(2) d] assms(1) show ?thesis
    by (auto simp: parser_line_def Some t)
qed

text \<open>The invariant of the outer loop.\<close>

definition parser_inv :: "bool \<Rightarrow> bool \<Rightarrow> 's parser_context \<Rightarrow> bool" where
  "parser_inv space data ctx \<longleftrightarrow> faulted ctx \<notin> bad_faults \<and> length (buffer ctx) < bsize ctx
     \<and> (\<not> data \<longrightarrow> nl_ended (buffer ctx))"

fun outcome_inv :: "'s parser_outcome \<Rightarrow> bool" where
  "outcome_inv (Loop space data ctx l) = parser_inv space data ctx"
| "outcome_inv (Leave ctx l) = (faulted ctx \<notin> bad_faults)"
| "outcome_inv (Return ctx) = (faulted ctx \<notin> bad_faults)"

lemma parser_process_inv:
  assumes "faulted ctx \<notin> bad_faults" and "length (buffer ctx) < bsize ctx" and "nl_ended (buffer ctx)"
  shows "outcome_inv (parser_process gai rnd secs ctx l)"
proof -
  obtain c' l' nd where p: "parser_line gai rnd secs ctx l = (c', l', nd)" by (metis prod_cases3)
  from parser_line_file [OF p] have "length (buffer c') \<le> length (buffer ctx)" "bsize c' = bsize ctx"
    by (auto simp: same_file_def dest: suffix_length_le)
  with parser_line_faults [OF p assms(1,3)] assms(2) show ?thesis
    by (simp add: parser_process_def p parser_inv_def)
qed

lemma fgets_inv:
  assumes "fgets n ctx = (r, ctx')" and "0 < n"
  shows "faulted ctx' = faulted ctx \<and> bsize ctx' = bsize ctx \<and> buffer ctx' = buffer ctx
    \<and> (\<forall>chunk. r = Some chunk \<longrightarrow> length chunk < n)"
  using assms fgets_chunk_le(1) [of "n - 1" "fd ctx"]
  by (simp add: fgets_def Let_def split: if_splits) auto

lemma parser_step_inv:
  assumes "parser_inv space data ctx"
  shows "outcome_inv (parser_step gai rnd secs space data ctx l)"
proof (cases "parser_stopped ctx")
  case False
  define c where "c = (if space then ctx\<lparr> bsize := 2 * bsize ctx \<rparr> else ctx)"
  have c: "faulted c \<notin> bad_faults" "buffer c = buffer ctx" "length (buffer c) < bsize c"
    "length (buffer ctx) < bsize ctx" "\<not> data \<Longrightarrow> nl_ended (buffer c)"
    using assms by (auto simp: c_def parser_inv_def)
  obtain r c' where f: "fgets (bsize c - length (buffer c)) c = (r, c')" by fastforce
  have i: "faulted c' = faulted c" "bsize c' = bsize c" "buffer c' = buffer c"
    "\<And>chunk. r = Some chunk \<Longrightarrow> length chunk < bsize c - length (buffer c)"
    using fgets_inv [OF f] c(3) by auto
  show ?thesis
  proof (cases "\<exists>chunk. data \<and> r = Some chunk")
    case True
    then obtain chunk where r: "r = Some chunk" "data" by blast
    let ?d = "c'\<lparr> buffer := buffer c' @ chunk \<rparr>"
    have "outcome_inv (parser_process gai rnd secs (?d\<lparr> ctx_line := ctx_line ?d + 1 \<rparr>) l)"
      if "chunk \<noteq> [] \<and> last chunk = CHR 0x0A"
      using that c i r(1) by (intro parser_process_inv) (auto simp: nl_ended_def)
    moreover have "outcome_inv (Loop True True ?d l)" using c i r(1) by (auto simp: parser_inv_def)
    ultimately show ?thesis
      using False c(4) f r unfolding parser_step_def c_def [symmetric] Let_def by simp
  next
    case no: False
    have "outcome_inv (parser_process gai rnd secs c l)" if "\<not> data"
      using that c by (intro parser_process_inv) auto
    with no False c i f show ?thesis
      unfolding parser_step_def c_def [symmetric] Let_def
      by (cases r) (auto simp: parser_inv_def)
  qed
qed (use assms in \<open>simp add: parser_step_def parser_inv_def\<close>)

lemma parser_loop_faults:
  "parser_inv space data ctx \<Longrightarrow> faulted (fst (parser_loop gai rnd secs space data ctx l)) \<notin> bad_faults"
proof (induction gai rnd secs space data ctx l rule: parser_loop.induct)
  case (1 gai rnd secs space data ctx l)
  from parser_step_inv [OF 1(2), of gai rnd secs l] 1(1) show ?case
    by (cases "parser_step gai rnd secs space data ctx l") (auto simp: parser_loop.simps [of _ _ _ space])
qed

text \<open>
  C10: on every file, with every set of sections, \<open>parser_run\<close> returns, and on the way the
  assertion that the buffer is not full never fails, the end of a line that a comment skips to
  always exists, and the copy of a quoted token never runs past the end of the buffer nor
  writes more characters than were counted for it.
\<close>

theorem parser_run_no_overrun:
  "faulted (fst (parser_run gai rnd secs (parser_start file fails s)))
   \<notin> {Some Assert_filled, Some Null_newline, Some Over_read}"
proof -
  have "parser_inv False True (parser_start file fails s)"
    by (simp add: parser_inv_def parser_start_def bad_faults_def)
  from parser_loop_faults [OF this, of gai rnd secs no_locals] show ?thesis
    by (auto simp: parser_run_def Let_def bad_faults_def split: prod.splits option.splits)
qed

subsection \<open>Reading back what was printed\<close>

definition escape :: "char \<Rightarrow> string" where
  "escape c =
    (if c = CHR 0x0A then [CHR 0x5C, CHR ''n''] else if c = CHR 0x09 then [CHR 0x5C, CHR ''t'']
     else if c = CHR 0x0D then [CHR 0x5C, CHR ''r'']
     else if c = CHR 0x5C \<or> c = CHR 0x22 then [CHR 0x5C, c] else [c])"

definition quote :: "string \<Rightarrow> string" where
  "quote s = CHR 0x22 # concat (map escape s) @ [CHR 0x22]"

lemma cstr_len_quote: "cstr_len (concat (map escape s) @ CHR 0x22 # r) = Some (Some (length s))"
  by (induction s) (auto simp: escape_def unescape_def)

lemma cstr_copy_quote: "cstr_copy (concat (map escape s) @ CHR 0x22 # r) = Some (s, r)"
  by (induction s) (auto simp: escape_def unescape_def)

lemma gettoken_quote: "gettoken (quote s @ r) = (Tok s, r)"
  by (simp add: gettoken_def quote_def isspace_def ord_def cstr_len_quote cstr_copy_quote)

lemma gettoken_space: "isspace c \<Longrightarrow> gettoken (c # s) = gettoken s"
  by (simp add: gettoken_def)

definition good_word :: "string \<Rightarrow> bool" where
  "good_word w \<longleftrightarrow> w \<noteq> [] \<and> isalpha (hd w)
     \<and> list_all (\<lambda>c. isalnum c \<or> c = CHR ''_'' \<or> c = CHR ''.'' \<or> c = CHR ''-'') w"

lemma word_len_append:
  "list_all (\<lambda>c. isalnum c \<or> c = CHR ''_'' \<or> c = CHR ''.'' \<or> c = CHR ''-'') w \<Longrightarrow>
   word_len (w @ CHR '' '' # r) = Some (length w)"
  by (induction w) (auto simp: isalnum_def isalpha_def isupper_def islower_def isdigit_def ord_def)

lemma alpha_simps:
  assumes "isalpha c"
  shows "\<not> isspace c" "\<not> isdigit c" "c \<noteq> CHR 0x22" "c \<notin> set ''{}=;/''"
  using assms by (auto simp: isalpha_def isupper_def islower_def isspace_def isdigit_def ord_def)

lemma gettoken_word: "good_word w \<Longrightarrow> gettoken (w @ CHR '' '' # r) = (Tok w, CHR '' '' # r)"
proof -
  assume g: "good_word w"
  then obtain c p where w: "w = c # p" and c: "isalpha c" by (cases w) (auto simp: good_word_def)
  have l: "word_len (c # p @ CHR '' '' # r) = Some (length w)"
    using word_len_append [of w r] g by (simp add: good_word_def w del: word_len.simps)
  show ?thesis
    using alpha_simps [OF c] c
    by (simp add: gettoken_def w plainstr_def l [unfolded w] del: word_len.simps number_len.simps)
qed

lemma gettoken_punct: "c \<in> set ''{}=;'' \<Longrightarrow> gettoken (c # r) = (Tok [c], r)"
  by (auto simp: gettoken_def plainstr_def isspace_def isdigit_def isalpha_def isupper_def islower_def ord_def)

lemma good_word_not_special:
  "good_word w \<Longrightarrow> w \<notin> {''//'', ''/*'', ''{'', ''}'', ''='', '';''}"
  by (auto simp: good_word_def isalpha_def isupper_def islower_def ord_def)

lemma tokens_step:
  assumes "\<not> tokens_done ctx l" and "gettoken i = (Tok t, i')"
    and "parser_token gai rnd secs t i' (ctx, l) = (c', l', i'')"
  shows "parser_tokens gai rnd secs ctx l i = parser_tokens gai rnd secs c' l' i''"
  using assms by (simp add: parser_tokens.simps [of _ _ _ ctx] tokens_done_def)

text \<open>One line per section: \<open>name { key = "value"; \<dots> }\<close>\<close>

definition print_entry :: "string \<times> string \<Rightarrow> string" where
  "print_entry e = fst e @ '' = '' @ quote (snd e) @ ''; ''"

definition print_section :: "string \<times> (string \<times> string) list \<Rightarrow> string" where
  "print_section s = fst s @ '' { '' @ concat (map print_entry (snd s)) @ [CHR ''}'', CHR 0x0A]"

text \<open>A value that is no punctuation: the quotes around a token are forgotten when it is read.\<close>

definition good_entry :: "string \<times> string \<Rightarrow> bool" where
  "good_entry e \<longleftrightarrow> good_word (fst e) \<and> snd e \<notin> {''//'', ''/*'', ''{'', ''}'', ''='', '';''}"

lemma tokens_entry:
  assumes "good_entry e" and "\<not> tokens_done ctx l" and "cur_section l = Some sec"
    and "key_token l = None" and "value_token l = None"
  shows "parser_tokens gai rnd secs ctx l (print_entry e @ r) =
    parser_tokens gai rnd secs (assign gai rnd sec (fst e) (snd e) ctx) l (CHR '' '' # r)"
proof -
  let ?k = "fst e" and ?v = "snd e"
  have g: "good_word ?k" "?v \<notin> {''//'', ''/*'', ''{'', ''}'', ''='', '';''}"
    using assms(1) by (simp_all add: good_entry_def)
  have d: "\<not> tokens_done ctx (l\<lparr> key_token := k, value_token := v \<rparr>)"
    "\<not> tokens_done ctx (l\<lparr> key_token := k \<rparr>)" for k v
    using assms(2) by (simp_all add: tokens_done_def)
  have sp: "isspace (CHR '' '')" by (simp add: isspace_def ord_def)
  have "parser_tokens gai rnd secs ctx l (print_entry e @ r) =
    parser_tokens gai rnd secs ctx (l\<lparr> key_token := Some ?k \<rparr>) ('' = '' @ quote ?v @ ''; '' @ r)"
    using assms g(1) good_word_not_special [OF g(1)]
    by (intro tokens_step [OF assms(2) , where t = ?k and i' = "'' = '' @ quote ?v @ ''; '' @ r"])
      (simp_all add: print_entry_def gettoken_word parser_token_def)
  also have "\<dots> = parser_tokens gai rnd secs ctx (l\<lparr> key_token := Some ?k \<rparr>) (CHR '' '' # quote ?v @ ''; '' @ r)"
    using assms
    by (intro tokens_step [OF d(2), where t = "''=''" and i' = "CHR '' '' # quote ?v @ ''; '' @ r"])
      (simp_all add: gettoken_space sp gettoken_punct parser_token_def)
  also have "\<dots> = parser_tokens gai rnd secs ctx (l\<lparr> key_token := Some ?k, value_token := Some ?v \<rparr>) (''; '' @ r)"
    using assms g(2)
    by (intro tokens_step [OF d(2), where t = ?v and i' = "''; '' @ r"])
      (simp_all add: gettoken_space sp gettoken_quote parser_token_def)
  also have "\<dots> = parser_tokens gai rnd secs (assign gai rnd sec ?k ?v ctx) l (CHR '' '' # r)"
    using assms
    by (intro tokens_step [OF d(1), where t = "'';''" and i' = "CHR '' '' # r"])
      (simp_all add: gettoken_punct parser_token_def)
  finally show ?thesis .
qed

text \<open>
  What a configuration means for the application state, without tokens, lines and buffers; the
  second component counts the assignments. \<^const>\<open>None\<close> when something is unknown or rejected.
\<close>

definition spec_entry where
  "spec_entry gai rnd sec e st =
    (case List.find (\<lambda>en. ent_key en = fst e) (entries sec) of
       None \<Rightarrow> None
     | Some en \<Rightarrow>
         (case value_parser_by_type (gai (snd st)) (rnd (snd st)) (ent_type en) (snd e) of
            Some (vs, [], True) \<Rightarrow> Some (fold (ent_store en) vs (fst st), snd st + 1)
          | _ \<Rightarrow> None))"

fun spec_entries where
  "spec_entries gai rnd sec [] st = Some st"
| "spec_entries gai rnd sec (e # es) st =
    Option.bind (spec_entry gai rnd sec e st) (spec_entries gai rnd sec es)"

definition spec_callback :: "'s callback \<Rightarrow> 's \<times> nat \<Rightarrow> ('s \<times> nat) option" where
  "spec_callback cb st = (case cb (fst st) of (s, [], True) \<Rightarrow> Some (s, snd st) | _ \<Rightarrow> None)"

definition spec_section where
  "spec_section gai rnd secs s st =
    (case List.find (\<lambda>sec. sec_name sec = fst s) secs of
       None \<Rightarrow> None
     | Some sec \<Rightarrow>
         Option.bind (spec_callback (onenter sec) st) (\<lambda>st.
         Option.bind (spec_entries gai rnd sec (snd s) st) (spec_callback (onexit sec))))"

fun spec_config where
  "spec_config gai rnd secs [] st = Some st"
| "spec_config gai rnd secs (s # cfg) st =
    Option.bind (spec_section gai rnd secs s st) (spec_config gai rnd secs cfg)"

definition put_app :: "'s \<times> nat \<Rightarrow> 's parser_context \<Rightarrow> 's parser_context" where
  "put_app st ctx = ctx\<lparr> ctx_app := fst st, lookups := snd st \<rparr>"

definition get_app :: "'s parser_context \<Rightarrow> 's \<times> nat" where
  "get_app ctx = (ctx_app ctx, lookups ctx)"

lemma app_simps [simp]:
  "get_app (put_app st ctx) = st" "put_app st' (put_app st ctx) = put_app st' ctx"
  "put_app (get_app ctx) ctx = ctx"
  "tokens_done (put_app st ctx) l = tokens_done ctx l"
  by (simp_all add: get_app_def put_app_def tokens_done_def)

lemma assign_spec:
  "spec_entry gai rnd sec e (get_app ctx) = Some st \<Longrightarrow>
   assign gai rnd sec (fst e) (snd e) ctx = put_app st ctx"
  by (auto simp: spec_entry_def assign_def get_app_def put_app_def Let_def
      split: option.splits prod.splits list.splits bool.splits)

lemma callback_spec:
  "spec_callback cb (get_app ctx) = Some st \<Longrightarrow> run_callback cb m ctx = put_app st ctx"
  by (auto simp: spec_callback_def run_callback_def get_app_def put_app_def
      split: prod.splits list.splits bool.splits)

lemma tokens_space:
  "\<not> tokens_done ctx l \<Longrightarrow> isspace c \<Longrightarrow>
   parser_tokens gai rnd secs ctx l (c # r) = parser_tokens gai rnd secs ctx l r"
  by (simp add: parser_tokens.simps [of _ _ _ ctx] gettoken_space tokens_done_def)

lemma isspace_blank [simp]: "isspace (CHR '' '')" "isspace (CHR 0x0A)"
  by (simp_all add: isspace_def ord_def)

lemma tokens_entries:
  assumes "list_all good_entry es" and "spec_entries gai rnd sec es (get_app ctx) = Some st"
    and "\<not> tokens_done ctx l" and "cur_section l = Some sec" "key_token l = None" "value_token l = None"
  shows "parser_tokens gai rnd secs ctx l (concat (map print_entry es) @ r) =
    parser_tokens gai rnd secs (put_app st ctx) l r"
  using assms(1-3)
proof (induction es arbitrary: ctx)
  case (Cons e es)
  from Cons.prems(2) obtain st1 where s: "spec_entry gai rnd sec e (get_app ctx) = Some st1"
    "spec_entries gai rnd sec es st1 = Some st" by (auto simp: bind_eq_Some_conv)
  have "parser_tokens gai rnd secs ctx l (concat (map print_entry (e # es)) @ r) =
    parser_tokens gai rnd secs (put_app st1 ctx) l (CHR '' '' # concat (map print_entry es) @ r)"
    using Cons.prems tokens_entry [OF _ Cons.prems(3) assms(4-6), of e] assign_spec [OF s(1)] by simp
  with Cons.IH [of "put_app st1 ctx"] Cons.prems(1,3) s(2) show ?case by (simp add: tokens_space)
qed auto

lemma tokens_section:
  assumes "good_word (fst s)" "list_all good_entry (snd s)"
    and "spec_section gai rnd secs s (get_app ctx) = Some st" and "\<not> tokens_done ctx no_locals"
  shows "parser_tokens gai rnd secs ctx no_locals (print_section s) = (put_app st ctx, no_locals, [], True)"
proof -
  from assms(3) obtain sec st1 st2 where sec: "List.find (\<lambda>sec. sec_name sec = fst s) secs = Some sec"
    and 1: "spec_callback (onenter sec) (get_app ctx) = Some st1"
    and 2: "spec_entries gai rnd sec (snd s) st1 = Some st2"
    and 3: "spec_callback (onexit sec) st2 = Some st"
    by (auto simp: spec_section_def bind_eq_Some_conv split: option.splits)
  let ?l = "no_locals\<lparr> cur_section := Some sec \<rparr>"
  let ?es = "concat (map print_entry (snd s))"
  have d: "\<not> tokens_done (put_app x ctx) ?l" "\<not> tokens_done (put_app x ctx) (no_locals\<lparr> section_token := y \<rparr>)"
    "\<not> tokens_done ctx (no_locals\<lparr> section_token := y \<rparr>)" for x y
    using assms(4) by (simp_all add: tokens_done_def put_app_def)
  have "parser_tokens gai rnd secs ctx no_locals (print_section s)
    = parser_tokens gai rnd secs ctx (no_locals\<lparr> section_token := Some (fst s) \<rparr>)
        ('' { '' @ ?es @ [CHR ''}'', CHR 0x0A])"
    using good_word_not_special [OF assms(1)]
    by (intro tokens_step [OF assms(4), where t = "fst s" and i' = "'' { '' @ ?es @ [CHR ''}'', CHR 0x0A]"])
      (simp_all add: print_section_def gettoken_word [OF assms(1)] parser_token_def no_locals_def)
  also have "\<dots> = parser_tokens gai rnd secs (put_app st1 ctx) ?l (CHR '' '' # ?es @ [CHR ''}'', CHR 0x0A])"
    using sec callback_spec [OF 1]
    by (intro tokens_step [OF d(3), where t = "''{''" and i' = "CHR '' '' # ?es @ [CHR ''}'', CHR 0x0A]"])
      (simp_all add: gettoken_space gettoken_punct parser_token_def no_locals_def)
  also have "\<dots> = parser_tokens gai rnd secs (put_app st1 ctx) ?l (?es @ [CHR ''}'', CHR 0x0A])"
    using d(1) by (simp add: tokens_space)
  also have "\<dots> = parser_tokens gai rnd secs (put_app st2 ctx) ?l [CHR ''}'', CHR 0x0A]"
    using tokens_entries [OF assms(2), of gai rnd sec "put_app st1 ctx" st2 ?l secs] 2 d(1)
    by (simp add: no_locals_def)
  also have "\<dots> = parser_tokens gai rnd secs (put_app st ctx) no_locals [CHR 0x0A]"
    using callback_spec [of "onexit sec" "put_app st2 ctx"] 3
    by (intro tokens_step [OF d(1), where t = "''}''" and i' = "[CHR 0x0A]"])
      (simp_all add: gettoken_punct parser_token_def no_locals_def)
  also have "\<dots> = (put_app st ctx, no_locals, [], True)"
    using assms(4) by (simp add: parser_tokens.simps tokens_done_def put_app_def gettoken_def)
  finally show ?thesis .
qed

text \<open>However long a line is, the growing buffer receives all of it.\<close>

lemma fgets_chunk_line:
  "CHR 0x0A \<notin> set b \<Longrightarrow>
   fgets_chunk k (b @ CHR 0x0A # rest) = (if length b < k then b @ [CHR 0x0A] else take k b)"
proof (induction b arbitrary: k)
  case Nil
  then show ?case by (cases k) auto
next
  case (Cons c b)
  then show ?case by (cases k) auto
qed

lemma fgets_line:
  assumes "fd ctx = b @ CHR 0x0A # rest" and "CHR 0x0A \<notin> set b"
  shows "fgets n ctx =
    (if length b + 1 < n then (Some (b @ [CHR 0x0A]), ctx\<lparr> fd := rest \<rparr>)
     else (Some (take (n - 1) b), ctx\<lparr> fd := drop (n - 1) b @ CHR 0x0A # rest \<rparr>))"
  using assms by (auto simp: fgets_def Let_def fgets_chunk_line)

definition line_read :: "string \<Rightarrow> string \<Rightarrow> nat \<Rightarrow> 's parser_context \<Rightarrow> 's parser_context" where
  "line_read b rest sz ctx = ctx\<lparr> bsize := sz, fd := rest, buffer := buffer ctx @ b @ [CHR 0x0A],
     ctx_line := ctx_line ctx + 1 \<rparr>"

definition part_read :: "string \<Rightarrow> string \<Rightarrow> nat \<Rightarrow> nat \<Rightarrow> 's parser_context \<Rightarrow> 's parser_context" where
  "part_read b rest sz k ctx = ctx\<lparr> bsize := sz, fd := drop k b @ CHR 0x0A # rest,
     buffer := buffer ctx @ take k b \<rparr>"

text \<open>A line gets into the buffer from the state \<open>ctx\<close> of the loop.\<close>

definition line_arrives where
  "line_arrives gai rnd secs sp b rest ctx l \<longleftrightarrow>
    (\<exists>sz > length (buffer ctx) + length b + 1. parser_loop gai rnd secs sp True ctx l =
      (case parser_line gai rnd secs (line_read b rest sz ctx) l of
         (c', l', nd) \<Rightarrow> parser_loop gai rnd secs False nd c' l'))"

lemma read_line_step:
  assumes "fd ctx = b @ CHR 0x0A # rest" and "CHR 0x0A \<notin> set b"
    and "\<not> parser_stopped ctx" and "length (buffer ctx) < bsize ctx"
    and "sz = (if sp then 2 * bsize ctx else bsize ctx)" and "n = sz - length (buffer ctx)"
  shows "parser_loop gai rnd secs sp True ctx l =
    (if length b + 1 < n
     then (case parser_line gai rnd secs (line_read b rest sz ctx) l of
             (c', l', nd) \<Rightarrow> parser_loop gai rnd secs False nd c' l')
     else parser_loop gai rnd secs True True (part_read b rest sz (n - 1) ctx) l)"
proof -
  let ?c = "ctx\<lparr> bsize := sz \<rparr>"
  have f: "fgets n ?c = (if length b + 1 < n then (Some (b @ [CHR 0x0A]), ?c\<lparr> fd := rest \<rparr>)
     else (Some (take (n - 1) b), ?c\<lparr> fd := drop (n - 1) b @ CHR 0x0A # rest \<rparr>))"
    using assms(1,2) by (intro fgets_line) simp_all
  have c: "(if sp then ctx\<lparr> bsize := 2 * bsize ctx \<rparr> else ctx) = ?c"
    using assms(5) by simp
  have t: "\<not> (take (n - 1) b \<noteq> [] \<and> last (take (n - 1) b) = CHR 0x0A)"
    using assms(2) by (metis in_set_takeD last_in_set)
  have m: "bsize ?c - length (buffer ?c) = n" using assms(6) by simp
  show ?thesis
  proof (cases "length b + 1 < n")
    case True
    then show ?thesis
      unfolding parser_loop.simps [of _ _ _ sp] parser_step_def c Let_def m f
      using assms(3,4) by (simp add: parser_process_def line_read_def split: prod.split)
  next
    case False
    then show ?thesis
      unfolding parser_loop.simps [of _ _ _ sp] parser_step_def c Let_def m f
      using assms(3,4) t by (auto simp: part_read_def simp del: take_eq_Nil)
  qed
qed

lemma part_line_read: "line_read (drop k b) rest sz' (part_read b rest sz k ctx) = line_read b rest sz' ctx"
  by (simp add: line_read_def part_read_def)

lemma line_arrives_step:
  assumes "fd ctx = b @ CHR 0x0A # rest" and "CHR 0x0A \<notin> set b"
    and "\<not> parser_stopped ctx" and "length (buffer ctx) < bsize ctx"
    and "sz = (if sp then 2 * bsize ctx else bsize ctx)" and "n = sz - length (buffer ctx)"
    and more: "\<not> length b + 1 < n \<Longrightarrow>
      line_arrives gai rnd secs True (drop (n - 1) b) rest (part_read b rest sz (n - 1) ctx) l"
  shows "line_arrives gai rnd secs sp b rest ctx l"
proof (cases "length b + 1 < n")
  case True
  then show ?thesis
    unfolding line_arrives_def read_line_step [OF assms(1-6)]
    using assms(6) by (intro exI [of _ sz]) auto
next
  case False
  have "length (take (n - 1) b) + length (drop (n - 1) b) = length b"
    by (metis append_take_drop_id length_append)
  then have "length (buffer (part_read b rest sz (n - 1) ctx)) + length (drop (n - 1) b)
    = length (buffer ctx) + length b"
    by (simp add: part_read_def)
  with more [OF False] False show ?thesis
    unfolding line_arrives_def read_line_step [OF assms(1-6)] part_line_read by auto
qed

lemma part_read_ok:
  assumes "\<not> length b + 1 < n" "CHR 0x0A \<notin> set b" "\<not> parser_stopped ctx" "length (buffer ctx) < bsize ctx"
    and "bsize ctx \<le> sz" and "n = sz - length (buffer ctx)"
  shows "fd (part_read b rest sz (n - 1) ctx) = drop (n - 1) b @ CHR 0x0A # rest"
    "CHR 0x0A \<notin> set (drop (n - 1) b)" "\<not> parser_stopped (part_read b rest sz (n - 1) ctx)"
    "length (buffer (part_read b rest sz (n - 1) ctx)) < bsize (part_read b rest sz (n - 1) ctx)"
  using assms by (auto simp: part_read_def parser_stopped_def dest: in_set_dropD)

lemma line_arrives_grow:
  assumes "fd ctx = b @ CHR 0x0A # rest" and "CHR 0x0A \<notin> set b"
    and "\<not> parser_stopped ctx" and "length (buffer ctx) < bsize ctx"
  shows "line_arrives gai rnd secs True b rest ctx l"
  using assms
proof (induction "length b" arbitrary: b ctx rule: less_induct)
  case less
  define n where "n = 2 * bsize ctx - length (buffer ctx)"
  show ?case
  proof (rule line_arrives_step [OF less(2-5)])
    assume m: "\<not> length b + 1 < n"
    have "length (drop (n - 1) b) < length b" using m less(5) by (auto simp: n_def)
    then show "line_arrives gai rnd secs True (drop (n - 1) b) rest
        (part_read b rest (2 * bsize ctx) (n - 1) ctx) l"
      using less(3-5) m by (intro less(1) part_read_ok) (simp_all add: n_def)
  qed (simp_all add: n_def)
qed

lemma line_arrives:
  assumes "fd ctx = b @ CHR 0x0A # rest" and "CHR 0x0A \<notin> set b"
    and "\<not> parser_stopped ctx" and "length (buffer ctx) < bsize ctx"
  shows "line_arrives gai rnd secs False b rest ctx l"
proof (rule line_arrives_step [OF assms])
  assume m: "\<not> length b + 1 < bsize ctx - length (buffer ctx)"
  show "line_arrives gai rnd secs True (drop (bsize ctx - length (buffer ctx) - 1) b) rest
      (part_read b rest (bsize ctx) (bsize ctx - length (buffer ctx) - 1) ctx) l"
    using assms m by (intro line_arrives_grow part_read_ok) simp_all
qed simp_all

lemma escape_no_newline: "CHR 0x0A \<notin> set (concat (map escape s))"
  by (induction s) (auto simp: escape_def)

lemma good_word_no_newline: "good_word w \<Longrightarrow> CHR 0x0A \<notin> set w"
  by (auto simp: good_word_def list_all_iff isalnum_def isalpha_def isupper_def islower_def
      isdigit_def ord_def)

lemma print_section_line:
  assumes "good_word (fst s)" "list_all good_entry (snd s)"
  shows "\<exists>b. print_section s = b @ [CHR 0x0A] \<and> CHR 0x0A \<notin> set b"
proof -
  let ?b = "fst s @ '' { '' @ concat (map print_entry (snd s)) @ ''}''"
  have "CHR 0x0A \<notin> set (print_entry e)" if "good_entry e" for e
    using that escape_no_newline [of "snd e"] good_word_no_newline
    by (auto simp: print_entry_def quote_def good_entry_def)
  then have "CHR 0x0A \<notin> set ?b"
    using assms good_word_no_newline [OF assms(1)] by (auto simp: list_all_iff)
  moreover have "print_section s = ?b @ [CHR 0x0A]" by (simp add: print_section_def)
  ultimately show ?thesis by blast
qed

lemma config_loop:
  assumes "list_all (\<lambda>s. good_word (fst s) \<and> list_all good_entry (snd s)) cfg"
    and "spec_config gai rnd secs cfg (get_app ctx) = Some st"
    and "fd ctx = concat (map print_section cfg)" "buffer ctx = []" "2 \<le> bsize ctx"
    and "\<not> parser_stopped ctx" "\<not> read_fails ctx"
  shows "\<exists>c. parser_loop gai rnd secs False True ctx no_locals = (c, Some no_locals)
    \<and> get_app c = st \<and> \<not> ctx_error c \<and> faulted c = None"
  using assms
proof (induction cfg arbitrary: ctx)
  case Nil
  let ?c = "ctx\<lparr> fd := [], eof := True \<rparr>"
  have "fgets (bsize ctx) ctx = (None, ?c)"
    using Nil by (cases "bsize ctx - 1") (auto simp: fgets_def Let_def)
  then have "parser_step gai rnd secs False True ctx no_locals = Loop False True ?c no_locals"
    using Nil by (simp add: parser_step_def)
  moreover have "parser_step gai rnd secs False True ?c no_locals = Leave ?c no_locals"
    by (simp add: parser_step_def parser_stopped_def)
  ultimately have "parser_loop gai rnd secs False True ctx no_locals = (?c, Some no_locals)"
    by (simp add: parser_loop.simps)
  with Nil show ?case by (simp add: get_app_def parser_stopped_def)
next
  case (Cons s cfg)
  from Cons.prems(1) print_section_line [of s] obtain b
    where b: "print_section s = b @ [CHR 0x0A]" "CHR 0x0A \<notin> set b" by auto
  from Cons.prems(2) obtain st1 where s: "spec_section gai rnd secs s (get_app ctx) = Some st1"
    "spec_config gai rnd secs cfg st1 = Some st" by (auto simp: bind_eq_Some_conv)
  let ?rest = "concat (map print_section cfg)"
  have "line_arrives gai rnd secs False b ?rest ctx no_locals"
    using Cons.prems b by (intro line_arrives) simp_all
  then obtain sz where sz: "length b + 1 < sz" and l: "parser_loop gai rnd secs False True ctx no_locals =
      (case parser_line gai rnd secs (line_read b ?rest sz ctx) no_locals of
         (c', l', nd) \<Rightarrow> parser_loop gai rnd secs False nd c' l')"
    using Cons.prems(4) by (auto simp: line_arrives_def)
  let ?d = "line_read b ?rest sz ctx"
  have d: "buffer ?d = print_section s" "\<not> tokens_done ?d no_locals" "get_app ?d = get_app ctx"
    using Cons.prems(4,6) b
    by (simp_all add: line_read_def tokens_done_def parser_stopped_def no_locals_def get_app_def)
  have "parser_tokens gai rnd secs ?d no_locals (print_section s) = (put_app st1 ?d, no_locals, [], True)"
    using Cons.prems(1) s(1) d by (intro tokens_section) simp_all
  then have "parser_line gai rnd secs ?d no_locals = ((put_app st1 ?d)\<lparr> buffer := [] \<rparr>, no_locals, True)"
    using d(1) by (simp add: parser_line_def no_locals_def)
  with l have l': "parser_loop gai rnd secs False True ctx no_locals
    = parser_loop gai rnd secs False True ((put_app st1 ?d)\<lparr> buffer := [] \<rparr>) no_locals" by simp
  show ?case unfolding l'
    using Cons.prems s(2) sz
    by (intro Cons.IH) (simp_all add: line_read_def put_app_def get_app_def parser_stopped_def)
qed

text \<open>
  C9: a configuration printed one section per line, with every value quoted and escaped, is
  read back: the run succeeds and the application state is the one that entering the sections,
  storing the parsed values in order and leaving the sections give. This holds for lines of
  any length and any number of sections.
\<close>

theorem config_roundtrip:
  assumes "list_all (\<lambda>s. good_word (fst s) \<and> list_all good_entry (snd s)) cfg"
    and "spec_config gai rnd secs cfg (s, 0) = Some (s', n)"
  shows "\<exists>ctx. parser_run gai rnd secs (parser_start (concat (map print_section cfg)) False s) = (ctx, True)
    \<and> ctx_app ctx = s' \<and> faulted ctx = None"
proof -
  let ?c = "parser_start (concat (map print_section cfg)) False s"
  have "\<exists>c. parser_loop gai rnd secs False True ?c no_locals = (c, Some no_locals)
    \<and> get_app c = (s', n) \<and> \<not> ctx_error c \<and> faulted c = None"
    using assms by (intro config_loop) (simp_all add: parser_start_def get_app_def parser_stopped_def)
  then obtain c where "parser_loop gai rnd secs False True ?c no_locals = (c, Some no_locals)"
    "get_app c = (s', n)" "\<not> ctx_error c" "faulted c = None" by blast
  then show ?thesis
    by (simp add: parser_run_def no_locals_def get_app_def Let_def)
qed

theorem config_roundtrip_witness:
  "\<exists>ctx. parser_run (\<lambda>_ _. Inl []) (\<lambda>_. 0)
     [\<lparr> sec_name = ''redsocks'', onenter = (\<lambda>s. ([], [], True)), onexit = (\<lambda>s. (s, [], True)),
        entries = [\<lparr> ent_key = ''login'', ent_type = pt_pchar, ent_store = (\<lambda>v s. s @ [v]) \<rparr>,
                   \<lparr> ent_key = ''on'', ent_type = pt_bool, ent_store = (\<lambda>v s. s @ [v]) \<rparr>] \<rparr>]
     (parser_start (concat (map print_section [(''redsocks'', [(''login'', ''a b''), (''on'', ''yes'')])]))
       False [SU16 7]) = (ctx, True)
   \<and> ctx_app ctx = [SStr ''a b'', SBool True] \<and> faulted ctx = None"
  by (rule config_roundtrip [where n = 2])
    (simp_all add: good_word_def good_entry_def isalnum_def isalpha_def islower_def isupper_def ord_def
      spec_section_def spec_callback_def spec_entry_def value_parser_by_type_def vp_pchar_def vp_pbool_def)

text \<open>Decimal numbers and dotted addresses, as a configuration file has them.\<close>

definition no_digit :: "string \<Rightarrow> bool" where
  "no_digit r \<longleftrightarrow> r = [] \<or> 10 \<le> digit_val (hd r) \<and> tolower (hd r) \<noteq> CHR ''x''"

lemma strtoul_unsigned_dec:
  assumes "no_digit r" shows "strtoul_unsigned (dec n @ r) = Some (int n, r)"
proof -
  have stop: "b \<le> 10 \<Longrightarrow> strtoul_digits b a r = (a, r)" for b a
    using assms by (cases r) (auto simp: no_digit_def)
  show ?thesis
  proof (cases "n = 0")
    case True
    have "dec n = [CHR ''0'']" using True by (simp add: dec.simps char_of_48)
    moreover have "digit_val (CHR ''0'') = 0" "isdigit (CHR ''0'')" by (simp_all add: digit_val_def isdigit_def ord_def)
    ultimately show ?thesis
      using assms stop [of 8 0] True by (cases r) (auto simp: strtoul_unsigned_def no_digit_def)
  next
    case False
    then show ?thesis
      using dec_hd [of n] strtoul_dec [of 0 n r] stop [of 10 "int n"]
      by (simp add: strtoul_unsigned_def)
  qed
qed

lemma strtoul_dec_string:
  assumes "no_digit r" "n < 2 ^ 32" shows "strtoul (dec n @ r) = (int n, r)"
proof -
  obtain c p where d: "dec n = c # p" "isdigit c" using dec_hd [of n] by (cases "dec n") auto
  have "int n < 2 ^ 32" using assms(2) by (metis of_nat_less_iff of_nat_numeral of_nat_power)
  with digit_no_space [OF d(2)] strtoul_unsigned_dec [OF assms(1), of n] show ?thesis
    by (simp add: strtoul_def d(1))
qed

fun dotted :: "nat \<times> nat \<times> nat \<times> nat \<Rightarrow> string" where
  "dotted (a, b, c, d) = dec a @ ''.'' @ dec b @ ''.'' @ dec c @ ''.'' @ dec d"

lemma no_digit_simps [simp]: "no_digit []" "no_digit (CHR ''.'' # r)" "no_digit (CHR ''/'' # r)"
  by (simp_all add: no_digit_def digit_val_def isdigit_def islower_def isupper_def ord_def tolower_def)

lemma inet_aton_dotted:
  assumes "a < 256" "b < 256" "c < 256" "d < 256"
  shows "inet_aton (dotted (a, b, c, d)) = Some (of_nat (((a * 256 + b) * 256 + c) * 256 + d))"
proof -
  have 4: "inet_aton_parts 4 = inet_aton_parts (Suc (Suc (Suc (Suc 0))))"
    by (rule arg_cong [where f = inet_aton_parts]) simp
  show ?thesis
    using assms strtoul_unsigned_dec [of "[]" d]
    unfolding inet_aton_def 4 by (simp add: strtoul_unsigned_dec)
qed

lemma strchr_append: "c \<notin> set s \<Longrightarrow> strchr c (s @ c # r) = Some (c # r)"
  by (induction s) auto

lemma dec_no_slash: "CHR ''/'' \<notin> set (dec n)"
proof (induction n rule: dec.induct)
  case (1 n)
  have "char_of (48 + m) \<noteq> CHR ''/''" if m: "m < 10" for m :: nat
  proof
    assume "char_of (48 + m) = CHR ''/''"
    then have "ord (char_of (48 + m)) = 47" by (simp only:) (simp add: ord_def)
    with digit_char [OF m] show False by simp
  qed
  from this [of n] this [of "n mod 10"] 1 show ?case
    by (cases "n < 10") (simp_all add: dec.simps [of n] eq_commute [of "CHR ''/''"])
qed

lemma dotted_no_slash: "CHR ''/'' \<notin> set (dotted ip)"
  using dec_no_slash by (cases ip) auto

lemma takeWhile_slash: "CHR ''/'' \<notin> set s \<Longrightarrow> takeWhile (\<lambda>c. c \<noteq> CHR ''/'') (s @ CHR ''/'' # r) = s"
  by (induction s) auto

text \<open>
  C12: a decimal number is stored as a 16-bit value exactly when it fits, and a larger one is
  reported (\<open>vp_uint16\<close>, decimal numbers below \<open>2\<^sup>3\<^sup>2\<close>).
\<close>

theorem uint16_decimal:
  assumes "n < 2 ^ 32"
  shows "vp_uint16 (dec n) = (if n < 2 ^ 16 then ([SU16 (of_nat n)], [], True)
    else ([], [''integer out of 16bit range''], False))"
proof -
  have "strtoul (dec n) = (int n, [])" using strtoul_dec_string [of "[]" n] assms by simp
  then show ?thesis by (simp add: vp_uint16_def)
qed

theorem uint16_decimal_witness: "vp_uint16 (dec 8118) = ([SU16 8118], [], True)"
  using uint16_decimal [of 8118] by simp

text \<open>
  C11: an address with a prefix length, \<open>a.b.c.d/k\<close>, is stored as that address and the netmask
  whose \<open>k\<close> leading bits are set. Prefix lengths 0 and 32 are reported as out of range, with
  the address stored.
\<close>

theorem netmask_bits:
  assumes "a < 256" "b < 256" "c < 256" "d < 256" "k < 2 ^ 32"
  shows "\<exists>m. vp_in_addr2 (dotted (a, b, c, d) @ ''/'' @ dec k) =
      (if 0 < k \<and> k < 32
       then ([SAddr (of_nat (((a * 256 + b) * 256 + c) * 256 + d)), SMask m], [], True)
       else ([SAddr (of_nat (((a * 256 + b) * 256 + c) * 256 + d))],
             [''number of netmask bits out of range''], False))
    \<and> (\<forall>i. bit m i = (32 - k \<le> i \<and> i < 32))"
proof -
  let ?m = "push_bit (32 - k) (NOT 0) :: u32"
  have s: "strtoul (dec k) = (int k, [])" using strtoul_dec_string [of "[]" k] assms(5) by simp
  have "bit ?m i = (32 - k \<le> i \<and> i < 32)" for i by (auto simp: bit_simps)
  moreover have "nat (32 - int k) = 32 - k" by simp
  ultimately show ?thesis
    using s dotted_no_slash [of "(a, b, c, d)"]
    by (intro exI [of _ ?m])
      (simp add: vp_in_addr2_def inet_aton_dotted [OF assms(1-4)] takeWhile_slash strchr_append
        del: dotted.simps)
qed

theorem netmask_bits_witness:
  "\<exists>m. vp_in_addr2 (dotted (192, 168, 1, 0) @ ''/'' @ dec 24) =
      ([SAddr (of_nat (((192 * 256 + 168) * 256 + 1) * 256 + 0)), SMask m], [], True)
    \<and> (\<forall>i. bit m i = (8 \<le> i \<and> i < 32))"
  using netmask_bits [of 192 168 1 0 24] by simp

subsection \<open>Rejected and mishandled input\<close>





lemma fgets_chunk_no_newline: "CHR 0x0A \<notin> set f \<Longrightarrow> fgets_chunk k f = take k f"
proof (induction f arbitrary: k)
  case Nil
  then show ?case by (cases k) auto
next
  case (Cons c f)
  then show ?case by (cases k) auto
qed

lemma fgets_result:
  assumes "fgets n c = (r, d)"
  shows "buffer d = buffer c \<and> bsize d = bsize c \<and> read_fails d = read_fails c \<and>
    ctx_error d = ctx_error c \<and> faulted d = faulted c \<and> ctx_app d = ctx_app c \<and> messages d = messages c"
    and "fd d = drop (length (fgets_chunk (n - 1) (fd c))) (fd c)"
    and "r = None \<or> r = Some (fgets_chunk (n - 1) (fd c))"
  using assms unfolding fgets_def Let_def by (simp_all split: if_splits) auto

lemma unterminated_step:
  assumes "CHR 0x0A \<notin> set (fd ctx)" and "\<not> read_fails ctx" and "\<not> ctx_error ctx" "faulted ctx = None"
    and "length (buffer ctx) < bsize ctx"
  shows "parser_step gai rnd secs sp True ctx l = Leave ctx l \<or>
    (\<exists>sp' c. parser_step gai rnd secs sp True ctx l = Loop sp' True c l \<and> CHR 0x0A \<notin> set (fd c)
      \<and> \<not> read_fails c \<and> \<not> ctx_error c \<and> faulted c = None \<and> length (buffer c) < bsize c
      \<and> ctx_app c = ctx_app ctx \<and> messages c = messages ctx)"
proof (cases "eof ctx")
  case False
  define c where "c = (if sp then ctx\<lparr> bsize := 2 * bsize ctx \<rparr> else ctx)"
  have c: "CHR 0x0A \<notin> set (fd c)" "\<not> read_fails c" "\<not> ctx_error c" "faulted c = None"
    "length (buffer c) < bsize c" "ctx_app c = ctx_app ctx" "messages c = messages ctx"
    using assms by (auto simp: c_def)
  define n where "n = bsize c - length (buffer c)"
  obtain r d where f: "fgets n c = (r, d)" by fastforce
  have k: "fgets_chunk (n - 1) (fd c) = take (n - 1) (fd c)"
    using c(1) by (rule fgets_chunk_no_newline)
  have d': "buffer d = buffer c \<and> bsize d = bsize c \<and> read_fails d = read_fails c \<and>
    ctx_error d = ctx_error c \<and> faulted d = faulted c \<and> ctx_app d = ctx_app c \<and> messages d = messages c"
    and "fd d = drop (length (take (n - 1) (fd c))) (fd c)"
    and d: "r = None \<or> r = Some (take (n - 1) (fd c))"
    using fgets_result [OF f] unfolding k by blast+
  then have d1: "CHR 0x0A \<notin> set (fd d)" using c(1) in_set_dropD by metis
  let ?x = "take (n - 1) (fd c)"
  have t: "\<not> (?x \<noteq> [] \<and> last ?x = CHR 0x0A)"
    using c(1) by (metis in_set_takeD last_in_set)
  have "parser_step gai rnd secs sp True ctx l =
    (case fgets n c of (None, context) \<Rightarrow>
        if read_fails context then Return (parser_error ''file read failure'' context)
        else Loop False True context l
     | (Some chunk, context) \<Rightarrow>
        let context = context\<lparr> buffer := buffer context @ chunk \<rparr> in
        if chunk \<noteq> [] \<and> last chunk = CHR 0x0A
        then parser_process gai rnd secs (context\<lparr> ctx_line := ctx_line context + 1 \<rparr>) l
        else Loop True True context l)"
    using False assms(3-5) unfolding parser_step_def c_def [symmetric] Let_def n_def [symmetric]
    by (simp add: parser_stopped_def)
  then have "parser_step gai rnd secs sp True ctx l =
    (if r = None then Loop False True d l else Loop True True (d\<lparr> buffer := buffer d @ ?x \<rparr>) l)"
    unfolding f using d d' c(2) t by (auto simp: Let_def)
  moreover have "length ?x < n" using c(5) by (simp add: n_def)
  ultimately show ?thesis using c d1 d' by (auto simp: n_def)
qed (simp add: parser_step_def parser_stopped_def)

lemma unterminated_loop:
  assumes "CHR 0x0A \<notin> set (fd ctx)" and "\<not> read_fails ctx" and "\<not> ctx_error ctx" "faulted ctx = None"
    and "length (buffer ctx) < bsize ctx"
  shows "\<exists>c. parser_loop gai rnd secs sp True ctx l = (c, Some l) \<and> ctx_app c = ctx_app ctx
    \<and> messages c = messages ctx \<and> \<not> ctx_error c"
  using assms
proof (induction gai rnd secs sp "True" ctx l rule: parser_loop.induct)
  case (1 gai rnd secs sp ctx l)
  consider "parser_step gai rnd secs sp True ctx l = Leave ctx l"
    | sp' c where "parser_step gai rnd secs sp True ctx l = Loop sp' True c l" "CHR 0x0A \<notin> set (fd c)"
      "\<not> read_fails c" "\<not> ctx_error c" "faulted c = None" "length (buffer c) < bsize c"
      "ctx_app c = ctx_app ctx" "messages c = messages ctx"
    using unterminated_step [OF 1(2-6), of gai rnd secs sp l] by blast
  then show ?case
  proof cases
    case 1
    then show ?thesis using "1.prems" by (simp add: parser_loop.simps)
  next
    case 2
    from "1.hyps" [OF 2(1-6)] 2 show ?thesis by (simp add: parser_loop.simps [of _ _ _ sp])
  qed
qed



end
