(* ===== verification/HaP_Evbuffer.thy ===== *)
theory HaP_Evbuffer
  imports HaP_Prelude
begin

text \<open>
  The byte queue of \<open>src/jni/libevent/buffer.c\<close> that every connection reads from and writes to:
  a list of chains, each an allocated block with a misaligned stretch of data. The operations
  are modelled on the chains, as the code has them; the locale \<open>byte_queue\<close> is the contract the
  proxy code relies on, and its interpretation shows that the chains implement a queue of bytes.

  No chain is pinned, immutable or a file reference: the proxies never create one. Allocation
  succeeds and the buffers are not frozen at the end that is used. The size of the chain header
  is the argument \<open>hdr\<close>.
\<close>

subsection \<open>Chains\<close>

record evbuffer_chain =
  buffer_len :: nat
  misalign :: nat
  ch_data :: bytes

record evbuffer =
  chains :: "evbuffer_chain list"
  total_len :: nat

definition contents :: "evbuffer \<Rightarrow> bytes" where
  "contents b = concat (map ch_data (chains b))"

definition evbuffer_new :: evbuffer where
  "evbuffer_new = \<lparr> chains = [], total_len = 0 \<rparr>"

text \<open>\<open>while (to_alloc < size) to_alloc <<= 1;\<close> from a positive start\<close>

function chain_alloc :: "nat \<Rightarrow> nat \<Rightarrow> nat" where
  "chain_alloc to_alloc sz = (if 0 < to_alloc \<and> to_alloc < sz then chain_alloc (2 * to_alloc) sz else to_alloc)"
  by pat_completeness auto
termination
  by (relation "measure (\<lambda>(a, s). s - a)") auto

declare chain_alloc.simps [simp del]

definition evbuffer_chain_new :: "nat \<Rightarrow> nat \<Rightarrow> evbuffer_chain" where
  "evbuffer_chain_new hdr sz =
    \<lparr> buffer_len = chain_alloc 512 (sz + hdr) - hdr, misalign = 0, ch_data = [] \<rparr>"

definition evbuffer_chain_insert :: "evbuffer \<Rightarrow> evbuffer_chain \<Rightarrow> evbuffer" where
  "evbuffer_chain_insert b ch =
    b\<lparr> chains := rev (dropWhile (\<lambda>c. ch_data c = []) (rev (chains b))) @ [ch],
       total_len := total_len b + length (ch_data ch) \<rparr>"

definition evbuffer_chain_align :: "evbuffer_chain \<Rightarrow> evbuffer_chain" where
  "evbuffer_chain_align ch = ch\<lparr> misalign := 0 \<rparr>"

definition evbuffer_chain_should_realign :: "evbuffer_chain \<Rightarrow> nat \<Rightarrow> bool" where
  "evbuffer_chain_should_realign ch datlen \<longleftrightarrow>
    datlen \<le> buffer_len ch - length (ch_data ch) \<and> length (ch_data ch) < buffer_len ch div 2
    \<and> length (ch_data ch) \<le> 2048"

definition append_last :: "evbuffer \<Rightarrow> evbuffer_chain \<Rightarrow> bytes \<Rightarrow> evbuffer" where
  "append_last b ch d = b\<lparr> chains := butlast (chains b) @ [ch\<lparr> ch_data := ch_data ch @ d \<rparr>],
     total_len := total_len b + length d \<rparr>"

definition evbuffer_add :: "nat \<Rightarrow> evbuffer \<Rightarrow> bytes \<Rightarrow> evbuffer" where
  "evbuffer_add hdr b0 d =
    (let datlen = length d;
         b = (if chains b0 = [] then evbuffer_chain_insert b0 (evbuffer_chain_new hdr datlen) else b0);
         ch = last (chains b);
         remain = buffer_len ch - misalign ch - length (ch_data ch)
     in if datlen \<le> remain then append_last b ch d
        else if evbuffer_chain_should_realign ch datlen then append_last b (evbuffer_chain_align ch) d
        else
          let to_alloc = (if buffer_len ch \<le> 2048 then 2 * buffer_len ch else buffer_len ch);
              to_alloc = max to_alloc datlen;
              tmp = evbuffer_chain_new hdr to_alloc;
              b = (if 0 < remain then append_last b ch (take remain d) else b)
          in evbuffer_chain_insert b (tmp\<lparr> ch_data := drop remain d \<rparr>))"

definition evbuffer_add_buffer :: "evbuffer \<Rightarrow> evbuffer \<Rightarrow> evbuffer \<times> evbuffer" where
  "evbuffer_add_buffer outbuf inbuf =
    (if total_len inbuf = 0 then (outbuf, inbuf)
     else if total_len outbuf = 0
     then (\<lparr> chains = chains inbuf, total_len = total_len inbuf \<rparr>, evbuffer_new)
     else (\<lparr> chains = chains outbuf @ chains inbuf, total_len = total_len outbuf + total_len inbuf \<rparr>,
           evbuffer_new))"

fun drain_chains :: "nat \<Rightarrow> evbuffer_chain list \<Rightarrow> evbuffer_chain list" where
  "drain_chains remaining [] = []"
| "drain_chains remaining (ch # chs) =
    (if length (ch_data ch) \<le> remaining then drain_chains (remaining - length (ch_data ch)) chs
     else ch\<lparr> misalign := misalign ch + remaining, ch_data := drop remaining (ch_data ch) \<rparr> # chs)"

definition evbuffer_drain :: "evbuffer \<Rightarrow> nat \<Rightarrow> evbuffer" where
  "evbuffer_drain b len =
    (if total_len b = 0 then b
     else if total_len b \<le> len then evbuffer_new
     else b\<lparr> chains := drain_chains len (chains b), total_len := total_len b - len \<rparr>)"

fun copy_chains :: "nat \<Rightarrow> evbuffer_chain list \<Rightarrow> bytes" where
  "copy_chains datlen [] = []"
| "copy_chains datlen (ch # chs) =
    (if datlen \<noteq> 0 \<and> length (ch_data ch) \<le> datlen
     then ch_data ch @ copy_chains (datlen - length (ch_data ch)) chs
     else take datlen (ch_data ch))"

definition evbuffer_copyout :: "evbuffer \<Rightarrow> nat \<Rightarrow> bytes" where
  "evbuffer_copyout b datlen = copy_chains (min datlen (total_len b)) (chains b)"

definition evbuffer_remove :: "evbuffer \<Rightarrow> nat \<Rightarrow> bytes \<times> evbuffer" where
  "evbuffer_remove b datlen =
    (let d = evbuffer_copyout b datlen
     in (d, if length d > 0 then evbuffer_drain b (length d) else b))"

subsection \<open>The search for a line end\<close>

text \<open>
  An \<open>evbuffer_ptr\<close> is the position in the buffer, the chains from the current one on, and the
  position in the current chain.
\<close>

type_synonym evbuffer_ptr = "nat \<times> evbuffer_chain list \<times> nat"

fun first_pos :: "('a \<Rightarrow> bool) \<Rightarrow> 'a list \<Rightarrow> nat option" where
  "first_pos P [] = None"
| "first_pos P (x # xs) = (if P x then Some 0 else map_option Suc (first_pos P xs))"

definition memchr :: "bytes \<Rightarrow> byte \<Rightarrow> nat option" where
  "memchr s c = first_pos (\<lambda>x. x = c) s"

function find_eol_char :: "bytes \<Rightarrow> nat option" where
  "find_eol_char s =
    (if s = [] then None
     else let chunk = take 128 s in
       case memchr chunk 13 of
         Some cr \<Rightarrow> (case memchr chunk 10 of Some lf \<Rightarrow> Some (if lf < cr then lf else cr) | None \<Rightarrow> Some cr)
       | None \<Rightarrow> (case memchr chunk 10 of
             Some lf \<Rightarrow> Some lf
           | None \<Rightarrow> map_option (\<lambda>k. 128 + k) (find_eol_char (drop 128 s))))"
  by pat_completeness auto
termination
  by (relation "measure length") auto

declare find_eol_char.simps [simp del]

fun evbuffer_find_eol_char :: "evbuffer_ptr \<Rightarrow> evbuffer_ptr option" where
  "evbuffer_find_eol_char (pos, [], i) = None"
| "evbuffer_find_eol_char (pos, ch # chs, i) =
    (case find_eol_char (drop i (ch_data ch)) of
       Some k \<Rightarrow> Some (pos + k, ch # chs, i + k)
     | None \<Rightarrow> evbuffer_find_eol_char (pos + (length (ch_data ch) - i), chs, 0))"

definition evbuffer_getchr :: "evbuffer_ptr \<Rightarrow> byte" where
  "evbuffer_getchr it = (case it of (pos, chs, off) \<Rightarrow> ch_data (hd chs) ! off)"

fun ptr_advance :: "evbuffer_chain list \<Rightarrow> nat \<Rightarrow> nat \<Rightarrow> (evbuffer_chain list \<times> nat) option" where
  "ptr_advance [] position left = None"
| "ptr_advance (ch # chs) position left =
    (if length (ch_data ch) \<le> position + left
     then ptr_advance chs 0 (left - (length (ch_data ch) - position))
     else Some (ch # chs, position + left))"

text \<open>\<open>evbuffer_ptr_set\<close> with \<open>EVBUFFER_PTR_ADD\<close>\<close>

definition evbuffer_ptr_set :: "evbuffer_ptr \<Rightarrow> nat \<Rightarrow> evbuffer_ptr option" where
  "evbuffer_ptr_set it n =
    (case it of (pos, chs, position) \<Rightarrow>
       map_option (\<lambda>(chs', p). (pos + n, chs', p)) (ptr_advance chs position n))"

fun ptr_compare :: "evbuffer_chain list \<Rightarrow> nat \<Rightarrow> bytes \<Rightarrow> bool" where
  "ptr_compare [] position mem = True"
| "ptr_compare (ch # chs) position mem =
    (if mem = [] then True
     else let n_comparable = (if length (ch_data ch) < length mem + position
                              then length (ch_data ch) - position else length mem)
       in take n_comparable (drop position (ch_data ch)) = take n_comparable mem
          \<and> ptr_compare chs 0 (drop n_comparable mem))"

text \<open>whether \<open>evbuffer_ptr_memcmp\<close> returns 0\<close>

definition evbuffer_ptr_memcmp :: "evbuffer \<Rightarrow> evbuffer_ptr \<Rightarrow> bytes \<Rightarrow> bool" where
  "evbuffer_ptr_memcmp b it mem =
    (case it of (pos, chs, position) \<Rightarrow>
       if total_len b < pos + length mem then False else ptr_compare chs position mem)"

definition ptr_rest :: "evbuffer_ptr \<Rightarrow> bytes" where
  "ptr_rest it = (case it of (pos, [], i) \<Rightarrow> [] | (pos, ch # chs, i) \<Rightarrow> drop i (ch_data ch) @ concat (map ch_data chs))"

lemma first_pos_append:
  "first_pos P (xs @ ys) = (case first_pos P xs of None \<Rightarrow> map_option (\<lambda>k. length xs + k) (first_pos P ys) | Some k \<Rightarrow> Some k)"
  by (induction xs) (auto split: option.splits simp: option.map_comp comp_def option.map_ident cong: option.map_cong)

lemma first_pos_or:
  "first_pos (\<lambda>x. P x \<or> Q x) xs =
   (case first_pos P xs of
      Some p \<Rightarrow> (case first_pos Q xs of Some q \<Rightarrow> Some (if q < p then q else p) | None \<Rightarrow> Some p)
    | None \<Rightarrow> first_pos Q xs)"
  by (induction xs) (auto split: option.splits)

lemma first_pos_drop:
  "first_pos P xs = Some k \<Longrightarrow> k < length xs \<and> drop k xs = dropWhile (\<lambda>x. \<not> P x) xs \<and> P (xs ! k)"
  by (induction xs arbitrary: k) (auto split: if_splits)

lemma first_pos_None: "first_pos P xs = None \<longleftrightarrow> (\<forall>x \<in> set xs. \<not> P x)"
  by (induction xs) auto

text \<open>The search in pieces of 128 bytes finds the first carriage return or newline.\<close>

lemma find_eol_char_first: "find_eol_char s = first_pos (\<lambda>c. c = 13 \<or> c = 10) s"
proof (induction s rule: find_eol_char.induct)
  case (1 s)
  show ?case
  proof (cases "s = []")
    case True
    then show ?thesis by (simp add: find_eol_char.simps)
  next
    case False
    have s: "first_pos P s = (case first_pos P (take 128 s) of
        None \<Rightarrow> map_option (\<lambda>k. length (take 128 s) + k) (first_pos P (drop 128 s)) | Some k \<Rightarrow> Some k)" for P
      by (metis append_take_drop_id first_pos_append)
    have "length (take 128 s) = 128 \<or> drop 128 s = []" by auto
    then have "map_option (\<lambda>k. length (take 128 s) + k) (first_pos P (drop 128 s)) = map_option (\<lambda>k. 128 + k) (first_pos P (drop 128 s))" for P
      by (elim disjE) simp_all
    moreover have "memchr (take 128 s) 13 = None \<Longrightarrow> memchr (take 128 s) 10 = None \<Longrightarrow>
      find_eol_char (drop 128 s) = first_pos (\<lambda>c. c = 13 \<or> c = 10) (drop 128 s)"
      using 1 [OF False refl] by simp
    ultimately show ?thesis
      unfolding s [of "\<lambda>c. c = 13 \<or> c = 10"] first_pos_or [of "\<lambda>c. c = 13" "\<lambda>c. c = 10" "take 128 s"]
      using False by (subst find_eol_char.simps) (simp add: Let_def memchr_def split: option.splits)
  qed
qed

lemma ptr_rest_simps [simp]:
  "ptr_rest (pos, [], i) = []"
  "ptr_rest (pos, ch # chs, i) = drop i (ch_data ch) @ concat (map ch_data chs)"
  by (simp_all add: ptr_rest_def)

lemma ptr_rest_0: "ptr_rest (pos, chs, 0) = concat (map ch_data chs)"
  by (cases chs) simp_all

definition no_eol :: "byte \<Rightarrow> bool" where
  "no_eol c \<longleftrightarrow> \<not> (c = 13 \<or> c = 10)"

lemma find_eol_ptr:
  "evbuffer_find_eol_char it = Some it' \<Longrightarrow>
   ptr_rest it' = dropWhile no_eol (ptr_rest it) \<and> ptr_rest it' \<noteq> []
   \<and> evbuffer_getchr it' = hd (ptr_rest it') \<and> fst it' + length (ptr_rest it') = fst it + length (ptr_rest it)
   \<and> fst (snd it') \<noteq> [] \<and> snd (snd it') < length (ch_data (hd (fst (snd it'))))"
proof (induction it rule: evbuffer_find_eol_char.induct)
  case (1 pos i)
  then show ?case by simp
next
  case (2 pos ch chs i)
  show ?case
  proof (cases "find_eol_char (drop i (ch_data ch))")
    case None
    then have n: "\<forall>x \<in> set (drop i (ch_data ch)). no_eol x"
      by (simp add: find_eol_char_first first_pos_None no_eol_def)
    then have "dropWhile no_eol (drop i (ch_data ch) @ xs) = dropWhile no_eol xs" for xs
      by (simp add: dropWhile_append2)
    moreover have "evbuffer_find_eol_char (pos + (length (ch_data ch) - i), chs, 0) = Some it'"
      using 2(2) None by simp
    note 2(1) [OF None this]
    ultimately show ?thesis
      by (auto simp: ptr_rest_0 add.assoc simp del: dropWhile_eq_Nil_conv)
  next
    case (Some k)
    then have it': "it' = (pos + k, ch # chs, i + k)" using 2 by simp
    note k = first_pos_drop [OF Some [unfolded find_eol_char_first]]
    then have w: "drop (i + k) (ch_data ch) = dropWhile no_eol (drop i (ch_data ch))"
      by (simp add: no_eol_def [abs_def] add.commute)
    have "\<exists>x \<in> set (drop i (ch_data ch)). \<not> no_eol x"
      using k nth_mem unfolding no_eol_def by blast
    then have "dropWhile no_eol (drop i (ch_data ch) @ xs) = drop (i + k) (ch_data ch) @ xs" for xs
      unfolding w by (metis dropWhile_append1)
    moreover have "i + k < length (ch_data ch)" using conjunct1 [OF k] by simp
    ultimately show ?thesis
      by (simp add: it' evbuffer_getchr_def hd_append hd_drop_conv_nth)
  qed
qed

lemma find_eol_ptr_None:
  "evbuffer_find_eol_char it = None \<Longrightarrow> \<forall>c \<in> set (ptr_rest it). no_eol c"
proof (induction it rule: evbuffer_find_eol_char.induct)
  case (2 pos ch chs i)
  show ?case
  proof (cases "find_eol_char (drop i (ch_data ch))")
    case None
    then have "\<forall>x \<in> set (drop i (ch_data ch)). no_eol x"
      by (simp add: find_eol_char_first first_pos_None no_eol_def)
    moreover have "evbuffer_find_eol_char (pos + (length (ch_data ch) - i), chs, 0) = None"
      using 2(2) None by simp
    note 2(1) [OF None this]
    ultimately show ?thesis by (auto simp: ptr_rest_0)
  next
    case (Some k)
    with 2 show ?thesis by simp
  qed
qed simp

lemma ptr_advance_zero:
  "case ptr_advance chs 0 0 of None \<Rightarrow> concat (map ch_data chs) = []
   | Some (chs', p) \<Rightarrow> concat (map ch_data chs) = ptr_rest (q, chs', p)"
  by (induction chs) (auto simp: ptr_rest_def split: option.splits)

lemma ptr_set_rest:
  assumes "chs \<noteq> []" "i < length (ch_data (hd chs))"
  shows "case evbuffer_ptr_set (pos, chs, i) 1 of None \<Rightarrow> tl (ptr_rest (pos, chs, i)) = []
    | Some it \<Rightarrow> ptr_rest it = tl (ptr_rest (pos, chs, i)) \<and> fst it = pos + 1"
proof -
  obtain ch chs' where c: "chs = ch # chs'" using assms by (cases chs) auto
  show ?thesis
  proof (cases "Suc i < length (ch_data ch)")
    case True
    with c show ?thesis by (simp add: evbuffer_ptr_set_def ptr_rest_def tl_append2 tl_drop drop_Suc)
  next
    case False
    then have "Suc i = length (ch_data ch)" using assms c by simp
    moreover from this have "tl (drop i (ch_data ch) @ xs) = xs" for xs
      by (metis Cons_nth_drop_Suc append_Cons append_Nil assms(2) c drop_all list.sel(1,3) order_refl)
    ultimately show ?thesis using c ptr_advance_zero [of chs' "pos + 1"]
      by (auto simp: evbuffer_ptr_set_def ptr_rest_def split: option.splits)
  qed
qed

function search_eol_crlf :: "evbuffer \<Rightarrow> evbuffer_ptr \<Rightarrow> (nat \<times> nat) option" where
  "search_eol_crlf b it =
    (case evbuffer_find_eol_char it of
       None \<Rightarrow> None
     | Some it \<Rightarrow>
         if evbuffer_getchr it = 10 then Some (fst it, 1)
         else if evbuffer_ptr_memcmp b it [13, 10] then Some (fst it, 2)
         else (case evbuffer_ptr_set it 1 of None \<Rightarrow> None | Some it \<Rightarrow> search_eol_crlf b it))"
  by pat_completeness auto
termination
proof (relation "measure (\<lambda>(b, it). length (ptr_rest it))", goal_cases)
  case (2 b it it1 it2)
  obtain pos chs i where it1: "it1 = (pos, chs, i)" by (cases it1)
  from find_eol_ptr [OF 2(1)] have f: "chs \<noteq> []" "i < length (ch_data (hd chs))" "ptr_rest it1 \<noteq> []"
    "length (ptr_rest it1) \<le> length (ptr_rest it)"
    by (auto simp: it1 length_dropWhile_le)
  with ptr_set_rest [OF f(1,2), of pos] 2(4) have "ptr_rest it2 = tl (ptr_rest it1)" by (simp add: it1)
  with f(3,4) show ?case by (cases "ptr_rest it1") auto
qed simp

declare search_eol_crlf.simps [simp del]

text \<open>\<open>evbuffer_search_eol\<close> with \<open>EVBUFFER_EOL_CRLF\<close> from the start of the buffer\<close>

definition evbuffer_search_eol :: "evbuffer \<Rightarrow> (nat \<times> nat) option" where
  "evbuffer_search_eol b = search_eol_crlf b (0, chains b, 0)"

definition evbuffer_readln :: "evbuffer \<Rightarrow> bytes option \<times> evbuffer" where
  "evbuffer_readln b =
    (case evbuffer_search_eol b of
       None \<Rightarrow> (None, b)
     | Some (pos, extra_drain) \<Rightarrow>
         (case evbuffer_remove b pos of (line, b) \<Rightarrow> (Some line, evbuffer_drain b extra_drain)))"

subsection \<open>The queue of bytes\<close>

text \<open>
  The line end on a byte list: the position of the first one and its length. A carriage return
  that no newline follows is passed over.
\<close>

fun find_eol_crlf :: "nat \<Rightarrow> bytes \<Rightarrow> (nat \<times> nat) option" where
  "find_eol_crlf pos [] = None"
| "find_eol_crlf pos (c # cs) =
    (if c = 10 then Some (pos, 1)
     else if c = 13 \<and> cs \<noteq> [] \<and> hd cs = 10 then Some (pos, 2)
     else find_eol_crlf (pos + 1) cs)"

text \<open>The same operations on a plain byte list, which the model of the connections uses.\<close>

definition bytes_readln :: "bytes \<Rightarrow> bytes option \<times> bytes" where
  "bytes_readln s =
    (case find_eol_crlf 0 s of
       None \<Rightarrow> (None, s)
     | Some (pos, n) \<Rightarrow> (Some (take pos s), drop (pos + n) s))"

text \<open>What a user of the buffer may rely on.\<close>

locale byte_queue =
  fixes view :: "'b \<Rightarrow> bytes"
    and inv :: "'b \<Rightarrow> bool"
    and empty :: 'b
    and add :: "'b \<Rightarrow> bytes \<Rightarrow> 'b"
    and move :: "'b \<Rightarrow> 'b \<Rightarrow> 'b \<times> 'b"
    and drain :: "'b \<Rightarrow> nat \<Rightarrow> 'b"
    and remove :: "'b \<Rightarrow> nat \<Rightarrow> bytes \<times> 'b"
  assumes view_empty: "inv empty \<and> view empty = []"
    and view_add: "inv b \<Longrightarrow> inv (add b d) \<and> view (add b d) = view b @ d"
    and view_move: "inv b \<Longrightarrow> inv c \<Longrightarrow> move b c = (b', c') \<Longrightarrow>
      inv b' \<and> inv c' \<and> view b' = view b @ view c \<and> view c' = []"
    and view_drain: "inv b \<Longrightarrow> inv (drain b n) \<and> view (drain b n) = drop n (view b)"
    and view_remove: "inv b \<Longrightarrow> remove b n = (d, b') \<Longrightarrow>
      inv b' \<and> d = take n (view b) \<and> view b' = drop n (view b)"
begin

text \<open>Reading a line through the interface is reading it from the list.\<close>

definition readln :: "'b \<Rightarrow> bytes option \<times> 'b" where
  "readln b =
    (case find_eol_crlf 0 (view b) of
       None \<Rightarrow> (None, b)
     | Some (pos, n) \<Rightarrow> (case remove b pos of (line, b) \<Rightarrow> (Some line, drain b n)))"

lemma readln_view:
  assumes "inv b"
  shows "inv (snd (readln b)) \<and>
    (fst (readln b), view (snd (readln b))) = bytes_readln (view b)"
proof (cases "find_eol_crlf 0 (view b)")
  case None
  with assms show ?thesis by (simp add: readln_def bytes_readln_def)
next
  case (Some e)
  obtain d b' where r: "remove b (fst e) = (d, b')" by fastforce
  from view_remove [OF assms r] view_drain [of b' "snd e"] Some r show ?thesis
    by (cases e) (simp add: readln_def bytes_readln_def add.commute)
qed

text \<open>Bytes come out in the order they went in, however they were added.\<close>

lemma add_all_view:
  "inv b \<Longrightarrow> inv (foldl add b ds) \<and> view (foldl add b ds) = view b @ concat ds"
  by (induction ds arbitrary: b) (simp_all add: view_add)

end

subsection \<open>The chains implement it\<close>

definition chain_ok :: "evbuffer_chain \<Rightarrow> bool" where
  "chain_ok ch \<longleftrightarrow> misalign ch + length (ch_data ch) \<le> buffer_len ch"

definition evbuffer_ok :: "evbuffer \<Rightarrow> bool" where
  "evbuffer_ok b \<longleftrightarrow> total_len b = length (contents b) \<and> list_all chain_ok (chains b)"

lemma chain_alloc_ge: "0 < a \<Longrightarrow> s \<le> chain_alloc a s \<and> a \<le> chain_alloc a s"
  by (induction a s rule: chain_alloc.induct) (subst chain_alloc.simps, auto)+

lemma chain_new_room: "n \<le> buffer_len (evbuffer_chain_new hdr n)"
  using chain_alloc_ge [of 512 "n + hdr"] by (simp add: evbuffer_chain_new_def le_diff_conv2)

lemma concat_trailing: "concat (rev (map ch_data (dropWhile (\<lambda>c. ch_data c = []) (rev cs)))) = concat (map ch_data cs)"
  by (induction cs rule: rev_induct) (auto simp: rev_map)

lemma list_all_dropWhile_rev: "list_all P cs \<Longrightarrow> list_all P (dropWhile Q (rev cs))"
  by (auto simp: list_all_iff dest: set_dropWhileD)

lemma insert_ok:
  "evbuffer_ok b \<Longrightarrow> chain_ok ch \<Longrightarrow>
   evbuffer_ok (evbuffer_chain_insert b ch) \<and> contents (evbuffer_chain_insert b ch) = contents b @ ch_data ch"
  by (simp add: evbuffer_ok_def evbuffer_chain_insert_def contents_def rev_map [symmetric] concat_trailing list_all_dropWhile_rev)

lemma append_last_ok:
  assumes "evbuffer_ok b" and "chains b \<noteq> []" and "ch_data ch = ch_data (last (chains b))"
    and "misalign ch + length (ch_data ch) + length d \<le> buffer_len ch"
  shows "evbuffer_ok (append_last b ch d) \<and> contents (append_last b ch d) = contents b @ d"
proof -
  obtain cs c where c: "chains b = cs @ [c]" using assms(2) by (metis append_butlast_last_id)
  with assms show ?thesis
    by (simp add: evbuffer_ok_def append_last_def contents_def chain_ok_def)
qed

lemma evbuffer_add_ok:
  assumes "evbuffer_ok b0"
  shows "evbuffer_ok (evbuffer_add hdr b0 d) \<and> contents (evbuffer_add hdr b0 d) = contents b0 @ d"
proof -
  define b where "b = (if chains b0 = [] then evbuffer_chain_insert b0 (evbuffer_chain_new hdr (length d)) else b0)"
  define ch where "ch = last (chains b)"
  define remain where "remain = buffer_len ch - misalign ch - length (ch_data ch)"
  define tmp where "tmp = evbuffer_chain_new hdr
    (max (if buffer_len ch \<le> 2048 then 2 * buffer_len ch else buffer_len ch) (length d))"
  have "chain_ok (evbuffer_chain_new hdr n)" "ch_data (evbuffer_chain_new hdr n) = []" for n
    by (simp_all add: chain_ok_def evbuffer_chain_new_def)
  then have b: "evbuffer_ok b" "contents b = contents b0" "chains b \<noteq> []"
    using assms insert_ok by (auto simp: b_def) (simp add: evbuffer_chain_insert_def)
  have ch: "chain_ok ch" using b(1,3) by (simp add: evbuffer_ok_def list_all_iff ch_def)
  have tmp: "chain_ok (tmp\<lparr> ch_data := drop remain d \<rparr>)"
    using chain_new_room [of "max (if buffer_len ch \<le> 2048 then 2 * buffer_len ch else buffer_len ch) (length d)" hdr]
    by (auto simp: chain_ok_def tmp_def evbuffer_chain_new_def)
  have e: "evbuffer_add hdr b0 d =
    (if length d \<le> remain then append_last b ch d
     else if evbuffer_chain_should_realign ch (length d) then append_last b (evbuffer_chain_align ch) d
     else evbuffer_chain_insert (if 0 < remain then append_last b ch (take remain d) else b)
            (tmp\<lparr> ch_data := drop remain d \<rparr>))"
    unfolding evbuffer_add_def Let_def b_def [symmetric] ch_def [symmetric] remain_def [symmetric] tmp_def [symmetric] ..
  consider "length d \<le> remain" | "\<not> length d \<le> remain" "evbuffer_chain_should_realign ch (length d)"
    | "\<not> length d \<le> remain" "\<not> evbuffer_chain_should_realign ch (length d)" by blast
  then show ?thesis
  proof cases
    case 1
    with append_last_ok [OF b(1,3), of ch d] ch b(2) e show ?thesis
      by (simp add: ch_def [symmetric] remain_def chain_ok_def)
  next
    case 2
    moreover have "length (ch_data ch) + length d \<le> buffer_len ch"
      using 2 by (auto simp: evbuffer_chain_should_realign_def)
    ultimately show ?thesis using append_last_ok [OF b(1,3), of "evbuffer_chain_align ch" d] b(2) e
      by (simp add: ch_def [symmetric] evbuffer_chain_align_def evbuffer_chain_should_realign_def)
  next
    case 3
    let ?b = "if 0 < remain then append_last b ch (take remain d) else b"
    have "evbuffer_ok ?b \<and> contents ?b = contents b @ take remain d"
      using append_last_ok [OF b(1,3), of ch "take remain d"] ch b(1)
      by (simp add: ch_def [symmetric] remain_def chain_ok_def)
    with insert_ok [OF _ tmp, of ?b] 3 e b(2) show ?thesis by simp
  qed
qed

lemma evbuffer_move_ok:
  assumes "evbuffer_ok b" "evbuffer_ok c" "evbuffer_add_buffer b c = (b', c')"
  shows "evbuffer_ok b' \<and> evbuffer_ok c' \<and> contents b' = contents b @ contents c \<and> contents c' = []"
  using assms by (auto simp: evbuffer_add_buffer_def evbuffer_ok_def contents_def evbuffer_new_def split: if_splits)

lemma drain_chains_ok:
  "n < length (concat (map ch_data cs)) \<Longrightarrow> list_all chain_ok cs \<Longrightarrow>
   concat (map ch_data (drain_chains n cs)) = drop n (concat (map ch_data cs))
   \<and> list_all chain_ok (drain_chains n cs)"
  by (induction n cs rule: drain_chains.induct) (auto simp: chain_ok_def)

lemma evbuffer_drain_ok:
  assumes "evbuffer_ok b"
  shows "evbuffer_ok (evbuffer_drain b n) \<and> contents (evbuffer_drain b n) = drop n (contents b)"
proof (cases "length (contents b) \<le> n")
  case True
  with assms show ?thesis
    by (auto simp: evbuffer_drain_def evbuffer_ok_def contents_def evbuffer_new_def)
next
  case False
  then have "total_len b \<noteq> 0" "\<not> total_len b \<le> n" using assms by (auto simp: evbuffer_ok_def)
  then have "evbuffer_drain b n = b\<lparr> chains := drain_chains n (chains b), total_len := total_len b - n \<rparr>"
    by (simp only: evbuffer_drain_def if_False)
  with assms False drain_chains_ok [of n "chains b"] show ?thesis
    by (simp add: evbuffer_ok_def contents_def)
qed

lemma copy_chains_take: "copy_chains n cs = take n (concat (map ch_data cs))"
  by (induction n cs rule: copy_chains.induct) auto

lemma evbuffer_copyout_take: "evbuffer_ok b \<Longrightarrow> evbuffer_copyout b n = take n (contents b)"
  by (cases "n \<le> total_len b")
     (simp_all add: evbuffer_copyout_def copy_chains_take evbuffer_ok_def contents_def [symmetric] min_def)

lemma evbuffer_remove_ok:
  assumes "evbuffer_ok b" "evbuffer_remove b n = (d, b')"
  shows "evbuffer_ok b' \<and> d = take n (contents b) \<and> contents b' = drop n (contents b)"
  using assms evbuffer_drain_ok [OF assms(1)]
  by (auto simp: evbuffer_remove_def Let_def evbuffer_copyout_take min_def)

interpretation ev: byte_queue contents evbuffer_ok evbuffer_new "evbuffer_add hdr"
  evbuffer_add_buffer evbuffer_drain evbuffer_remove for hdr
proof (unfold_locales, goal_cases)
  case 1
  show ?case by (simp add: evbuffer_new_def evbuffer_ok_def contents_def)
next
  case (2 b d)
  then show ?case by (rule evbuffer_add_ok)
next
  case (3 b c b' c')
  then show ?case by (rule evbuffer_move_ok)
next
  case (4 b n)
  then show ?case by (rule evbuffer_drain_ok)
next
  case (5 b n d b')
  then show ?case by (rule evbuffer_remove_ok)
qed

lemma ptr_compare_prefix:
  "ptr_compare chs i mem \<longleftrightarrow>
   take (min (length mem) (length (ptr_rest (q, chs, i)))) (ptr_rest (q, chs, i)) = take (length (ptr_rest (q, chs, i))) mem"
proof (induction chs i mem arbitrary: q rule: ptr_compare.induct)
  case (1 position mem)
  then show ?case by (simp add: ptr_rest_def)
next
  case (2 ch chs position mem)
  have r: "ptr_rest (q, chs, 0) = concat (map ch_data chs)" by (cases chs) (simp_all add: ptr_rest_def)
  define n where "n = (if length (ch_data ch) < length mem + position then length (ch_data ch) - position else length mem)"
  show ?case
  proof (cases "mem = []")
    case True
    then show ?thesis by simp
  next
    case False
    from 2 [OF False n_def, of q] have IH: "ptr_compare chs 0 (drop n mem) \<longleftrightarrow>
      take (min (length mem - n) (length (concat (map ch_data chs)))) (concat (map ch_data chs))
      = take (length (concat (map ch_data chs))) (drop n mem)" by (simp add: r)
    show ?thesis
    proof (cases "length (ch_data ch) < length mem + position")
      case True
      then have "n = length (drop position (ch_data ch))" "n \<le> length mem" by (auto simp: n_def)
      then show ?thesis using False IH
        by (simp add: ptr_rest_def n_def [symmetric] Let_def take_add)
           (auto simp: min_def take_add n_def)
    next
      case F: False
      then have "n = length mem" by (simp add: n_def)
      then show ?thesis using False F IH
        by (simp add: ptr_rest_def n_def [symmetric] Let_def min_def)
    qed
  qed
qed

lemma memcmp_crlf:
  assumes "pos + length (ptr_rest (pos, chs, i)) = total_len b" "ptr_rest (pos, chs, i) = c # cs"
  shows "evbuffer_ptr_memcmp b (pos, chs, i) [13, 10] \<longleftrightarrow> c = 13 \<and> cs \<noteq> [] \<and> hd cs = 10"
proof (cases cs)
  case Nil
  with assms show ?thesis by (simp add: evbuffer_ptr_memcmp_def)
next
  case (Cons d ds)
  with assms ptr_compare_prefix [of chs i "[13, 10]" pos] show ?thesis
    by (simp add: evbuffer_ptr_memcmp_def)
qed

lemma find_eol_crlf_skip:
  "find_eol_crlf pos s = find_eol_crlf (pos + length (takeWhile no_eol s)) (dropWhile no_eol s)"
  by (induction pos s rule: find_eol_crlf.induct) (auto simp: no_eol_def)

lemma find_eol_crlf_none: "\<forall>c \<in> set s. no_eol c \<Longrightarrow> find_eol_crlf pos s = None"
  by (induction pos s rule: find_eol_crlf.induct) (auto simp: no_eol_def)

lemma search_eol_ptr:
  "fst it + length (ptr_rest it) = total_len b \<Longrightarrow> search_eol_crlf b it = find_eol_crlf (fst it) (ptr_rest it)"
proof (induction b it rule: search_eol_crlf.induct)
  case (1 b it)
  show ?case
  proof (cases "evbuffer_find_eol_char it")
    case None
    show ?thesis
      unfolding search_eol_crlf.simps [of b it] None option.case
      by (rule find_eol_crlf_none [OF find_eol_ptr_None [OF None], symmetric])
  next
    case (Some it1)
    obtain pos chs i where it1: "it1 = (pos, chs, i)" by (cases it1)
    from find_eol_ptr [OF Some] have d0: "ptr_rest it1 = dropWhile no_eol (ptr_rest it)" and ne: "ptr_rest it1 \<noteq> []"
      and g: "evbuffer_getchr it1 = hd (ptr_rest it1)" and l: "fst it1 + length (ptr_rest it1) = fst it + length (ptr_rest it)"
      and o: "chs \<noteq> []" "i < length (ch_data (hd chs))"
      unfolding it1 fst_conv snd_conv by blast+
    obtain c cs where r: "ptr_rest it1 = c # cs" using ne by (auto simp: neq_Nil_conv)
    have d: "dropWhile no_eol (ptr_rest it) = c # cs" by (rule trans [OF d0 [symmetric] r])
    have "length (ptr_rest it) = length (takeWhile no_eol (ptr_rest it)) + length (c # cs)"
      by (metis d length_append takeWhile_dropWhile_id)
    moreover have "fst it1 + length (c # cs) = fst it + length (ptr_rest it)" using l by (simp only: r)
    ultimately have "fst it + length (takeWhile no_eol (ptr_rest it)) = pos" by (simp add: it1)
    then have e: "find_eol_crlf (fst it) (ptr_rest it) = find_eol_crlf pos (c # cs)"
      by (subst find_eol_crlf_skip) (simp only: d)
    have t: "pos + length (ptr_rest (pos, chs, i)) = total_len b" using l 1(2) by (simp only: it1 fst_conv)
    have c: "evbuffer_getchr it1 = c" by (simp only: g r list.sel)
    have m: "evbuffer_ptr_memcmp b it1 [13, 10] \<longleftrightarrow> c = 13 \<and> cs \<noteq> [] \<and> hd cs = 10"
      unfolding it1 by (rule memcmp_crlf [OF t r [unfolded it1]])
    show ?thesis
    proof (cases "c = 10 \<or> (c = 13 \<and> cs \<noteq> [] \<and> hd cs = 10)")
      case True
      with c m show ?thesis unfolding e search_eol_crlf.simps [of b it] Some option.case by (auto simp: it1)
    next
      case False
      then have n: "evbuffer_getchr it1 \<noteq> 10" "\<not> evbuffer_ptr_memcmp b it1 [13, 10]" using c m by auto
      have p: "case evbuffer_ptr_set it1 1 of None \<Rightarrow> cs = [] | Some it2 \<Rightarrow> ptr_rest it2 = cs \<and> fst it2 = pos + 1"
        using ptr_set_rest [OF o, of pos] by (simp only: it1 [symmetric] r list.sel)
      show ?thesis
      proof (cases "evbuffer_ptr_set it1 1")
        case N: None
        with p n False show ?thesis unfolding e search_eol_crlf.simps [of b it] Some option.case N by simp
      next
        case S: (Some it2)
        with p have q: "ptr_rest it2 = cs" "fst it2 = pos + 1" by simp_all
        have "fst it2 + length (ptr_rest it2) = total_len b" using t unfolding it1 [symmetric] r q by simp
        from 1(1) [OF Some n S this] have "search_eol_crlf b it2 = find_eol_crlf (pos + 1) cs" by (simp only: q)
        moreover have "find_eol_crlf pos (c # cs) = find_eol_crlf (pos + 1) cs" using False by auto
        ultimately show ?thesis unfolding e unfolding search_eol_crlf.simps [of b it] Some option.case S using n by simp
      qed
    qed
  qed
qed

lemma search_eol_contents:
  assumes "evbuffer_ok b"
  shows "evbuffer_search_eol b = find_eol_crlf 0 (contents b)"
  using assms search_eol_ptr [of "(0, chains b, 0)" b]
  by (simp add: evbuffer_ok_def evbuffer_search_eol_def ptr_rest_0 contents_def)

lemma evbuffer_readln_eq: "evbuffer_ok b \<Longrightarrow> evbuffer_readln b = ev.readln b"
  by (simp add: evbuffer_readln_def search_eol_contents ev.readln_def)

subsection \<open>Properties\<close>

text \<open>
  C16: whatever is added to a buffer, in however many pieces, through new chains, realigned
  chains or the rest of the last chain, comes out of \<open>evbuffer_remove\<close> in order, and the
  bookkeeping (\<open>total_len\<close>, the bounds of every chain) stays right.
\<close>

theorem evbuffer_fifo:
  assumes "evbuffer_ok b" and "evbuffer_remove (foldl (evbuffer_add hdr) b ds) n = (d, b')"
  shows "evbuffer_ok b' \<and> d @ contents b' = contents b @ concat ds
    \<and> length d = min n (length (contents b @ concat ds))"
  using ev.add_all_view [OF assms(1), of hdr ds] ev.view_remove [OF _ assms(2)]
  by (metis append_take_drop_id length_take min.commute)

theorem evbuffer_fifo_witness:
  "\<exists>d b'. evbuffer_remove (foldl (evbuffer_add 24) evbuffer_new [[1, 2], [3]]) 2 = (d, b')
    \<and> evbuffer_ok b' \<and> d @ contents b' = [1, 2, 3] \<and> length d = 2"
proof -
  obtain d b' where r: "evbuffer_remove (foldl (evbuffer_add 24) evbuffer_new [[1, 2], [3]]) 2 = (d, b')"
    by fastforce
  from evbuffer_fifo [OF _ r] r show ?thesis
    by (auto simp: evbuffer_ok_def evbuffer_new_def contents_def)
qed

text \<open>
  C17: reading a line from the chains gives what the line search on the byte list gives: the
  bytes before the first newline without one carriage return in front of it, and the rest;
  without a newline nothing is consumed.
\<close>

theorem evbuffer_readln_refines:
  assumes "evbuffer_ok b"
  shows "evbuffer_ok (snd (evbuffer_readln b)) \<and>
    (fst (evbuffer_readln b), contents (snd (evbuffer_readln b))) = bytes_readln (contents b)"
  using ev.readln_view [OF assms] assms by (simp add: evbuffer_readln_eq)

theorem evbuffer_readln_refines_witness:
  "(fst (evbuffer_readln \<lparr> chains = [\<lparr> buffer_len = 9, misalign = 1, ch_data = [65, 13] \<rparr>,
        \<lparr> buffer_len = 9, misalign = 0, ch_data = [10, 66] \<rparr>], total_len = 4 \<rparr>)) = Some [65]"
proof -
  let ?b = "\<lparr> chains = [\<lparr> buffer_len = 9, misalign = 1, ch_data = [65, 13] \<rparr>,
        \<lparr> buffer_len = 9, misalign = 0, ch_data = [10, 66] \<rparr>], total_len = 4 \<rparr> :: evbuffer"
  have "evbuffer_ok ?b" by (simp add: evbuffer_ok_def contents_def chain_ok_def)
  from evbuffer_readln_refines [OF this] show ?thesis
    by (simp add: bytes_readln_def contents_def)
qed

end
