(* ===== verification/HaP_Bufferevent.thy ===== *)
theory HaP_Bufferevent
  imports HaP_Evbuffer
begin

text \<open>
  Socket bufferevents: \<open>src/jni/libevent/bufferevent.c\<close> and \<open>bufferevent_sock.c\<close>. A
  bufferevent is a socket with an input and an output queue, the set of directions that are
  enabled, watermarks and the two data callbacks; \<open>ev_read\<close> and \<open>ev_write\<close> say whether its
  events are in the event loop. The queues are byte lists, which the chains of
  \<open>HaP_Evbuffer\<close> implement.

  The proxies create their bufferevents with \<open>bufferevent_new\<close> on a socket of their own: no
  timeouts, no rate limit, no deferred callbacks and no \<open>connecting\<close> phase. The queues are frozen
  only at the ends the loop itself uses, so moving bytes between them never fails. Whether
  \<open>event_add\<close> and \<open>event_del\<close> succeed is up to the environment.
\<close>

unbundle bit_operations_syntax

definition EV_READ :: u16 where "EV_READ = 2"
definition EV_WRITE :: u16 where "EV_WRITE = 4"

definition BEV_EVENT_READING :: u16 where "BEV_EVENT_READING = 1"
definition BEV_EVENT_WRITING :: u16 where "BEV_EVENT_WRITING = 2"
definition BEV_EVENT_EOF :: u16 where "BEV_EVENT_EOF = 0x10"
definition BEV_EVENT_ERROR :: u16 where "BEV_EVENT_ERROR = 0x20"

definition BEV_SUSPEND_WM :: u16 where "BEV_SUSPEND_WM = 1"

record event_env =
  event_add_ok :: "nat \<Rightarrow> u16 \<Rightarrow> bool"
  event_del_ok :: "nat \<Rightarrow> u16 \<Rightarrow> bool"

record 'cb bufferevent =
  bev_fd :: nat
  bev_input :: bytes
  bev_output :: bytes
  bev_enabled :: u16
  ev_read :: bool
  ev_write :: bool
  read_suspended :: u16
  wm_read_low :: nat
  wm_read_high :: nat
  wm_write_low :: nat
  wm_write_high :: nat
  readcb :: "'cb option"
  writecb :: "'cb option"

definition bufferevent_socket_new :: "nat \<Rightarrow> 'cb bufferevent" where
  "bufferevent_socket_new fd =
    \<lparr> bev_fd = fd, bev_input = [], bev_output = [], bev_enabled = EV_WRITE,
      ev_read = False, ev_write = False, read_suspended = 0,
      wm_read_low = 0, wm_read_high = 0, wm_write_low = 0, wm_write_high = 0,
      readcb = None, writecb = None \<rparr>"

definition bufferevent_setcb :: "'cb option \<Rightarrow> 'cb option \<Rightarrow> 'cb bufferevent \<Rightarrow> 'cb bufferevent" where
  "bufferevent_setcb rcb wcb b = b\<lparr> readcb := rcb, writecb := wcb \<rparr>"

definition bufferevent_new :: "nat \<Rightarrow> 'cb option \<Rightarrow> 'cb option \<Rightarrow> 'cb bufferevent" where
  "bufferevent_new fd rcb wcb = bufferevent_setcb rcb wcb (bufferevent_socket_new fd)"

lemmas bufferevent_new_unfold = bufferevent_new_def bufferevent_setcb_def bufferevent_socket_new_def

subsection \<open>Enabling and disabling\<close>

definition be_socket_enable ::
  "'e event_env_scheme \<Rightarrow> u16 \<Rightarrow> 'cb bufferevent \<Rightarrow> bool \<times> 'cb bufferevent" where
  "be_socket_enable e event b =
    (let rd = event AND EV_READ \<noteq> 0; wr = event AND EV_WRITE \<noteq> 0
     in if rd \<and> \<not> event_add_ok e (bev_fd b) EV_READ then (False, b)
        else let b = (if rd then b\<lparr> ev_read := True \<rparr> else b)
          in if wr \<and> \<not> event_add_ok e (bev_fd b) EV_WRITE then (False, b)
             else (True, if wr then b\<lparr> ev_write := True \<rparr> else b))"

definition be_socket_disable ::
  "'e event_env_scheme \<Rightarrow> u16 \<Rightarrow> 'cb bufferevent \<Rightarrow> bool \<times> 'cb bufferevent" where
  "be_socket_disable e event b =
    (let rd = event AND EV_READ \<noteq> 0; wr = event AND EV_WRITE \<noteq> 0
     in if rd \<and> \<not> event_del_ok e (bev_fd b) EV_READ then (False, b)
        else let b = (if rd then b\<lparr> ev_read := False \<rparr> else b)
          in if wr \<and> \<not> event_del_ok e (bev_fd b) EV_WRITE then (False, b)
             else (True, if wr then b\<lparr> ev_write := False \<rparr> else b))"

definition bufferevent_enable ::
  "'e event_env_scheme \<Rightarrow> u16 \<Rightarrow> 'cb bufferevent \<Rightarrow> bool \<times> 'cb bufferevent" where
  "bufferevent_enable e event b =
    (let impl_events = (if read_suspended b \<noteq> 0 then event AND NOT EV_READ else event);
         b = b\<lparr> bev_enabled := bev_enabled b OR event \<rparr>
     in if impl_events \<noteq> 0 then be_socket_enable e impl_events b else (True, b))"

definition bufferevent_disable ::
  "'e event_env_scheme \<Rightarrow> u16 \<Rightarrow> 'cb bufferevent \<Rightarrow> bool \<times> 'cb bufferevent" where
  "bufferevent_disable e event b =
    be_socket_disable e event (b\<lparr> bev_enabled := bev_enabled b AND NOT event \<rparr>)"

definition bufferevent_suspend_read ::
  "'e event_env_scheme \<Rightarrow> u16 \<Rightarrow> 'cb bufferevent \<Rightarrow> 'cb bufferevent" where
  "bufferevent_suspend_read e what b =
    (let b = (if read_suspended b = 0 then snd (be_socket_disable e EV_READ b) else b)
     in b\<lparr> read_suspended := read_suspended b OR what \<rparr>)"

subsection \<open>Moving bytes into the output\<close>

definition bufferevent_socket_outbuf_cb ::
  "'e event_env_scheme \<Rightarrow> nat \<Rightarrow> 'cb bufferevent \<Rightarrow> 'cb bufferevent" where
  "bufferevent_socket_outbuf_cb e n_added b =
    (if n_added \<noteq> 0 \<and> bev_enabled b AND EV_WRITE \<noteq> 0 \<and> \<not> ev_write b
     then if event_add_ok e (bev_fd b) EV_WRITE then b\<lparr> ev_write := True \<rparr> else b
     else b)"

text \<open>The bufferevent and the emptied source\<close>

definition bufferevent_write_buffer ::
  "'e event_env_scheme \<Rightarrow> bytes \<Rightarrow> 'cb bufferevent \<Rightarrow> 'cb bufferevent \<times> bytes" where
  "bufferevent_write_buffer e buf b =
    (bufferevent_socket_outbuf_cb e (length buf) (b\<lparr> bev_output := bev_output b @ buf \<rparr>), [])"

subsection \<open>The handlers of the event loop\<close>

text \<open>
  What \<open>read\<close> and \<open>write\<close> on the socket give (the bytes that were transferred), and what the
  handler does next: nothing, a data callback, or the error callback with its flags.
\<close>

datatype read_result = Read_data bytes | Read_eof | Read_again | Read_error
datatype write_result = Wrote bytes | Write_again | Write_error
datatype run = Run_nothing | Run_readcb | Run_writecb | Run_eventcb u16

definition read_howmuch :: "'cb bufferevent \<Rightarrow> nat" where
  "read_howmuch b =
    (if wm_read_high b \<noteq> 0 then min (wm_read_high b - length (bev_input b)) 16384 else 16384)"

definition bufferevent_readcb ::
  "'e event_env_scheme \<Rightarrow> read_result \<Rightarrow> 'cb bufferevent \<Rightarrow> 'cb bufferevent \<times> run" where
  "bufferevent_readcb e res b =
    (if wm_read_high b \<noteq> 0 \<and> wm_read_high b \<le> length (bev_input b)
     then (bufferevent_suspend_read e BEV_SUSPEND_WM b, Run_nothing)
     else if read_suspended b \<noteq> 0 then (b, Run_nothing)
     else case res of
       Read_data d \<Rightarrow>
         (let b = b\<lparr> bev_input := bev_input b @ d \<rparr>
          in (b, if wm_read_low b \<le> length (bev_input b) then Run_readcb else Run_nothing))
     | Read_again \<Rightarrow> (b, Run_nothing)
     | Read_error \<Rightarrow>
         (snd (bufferevent_disable e EV_READ b), Run_eventcb (BEV_EVENT_READING OR BEV_EVENT_ERROR))
     | Read_eof \<Rightarrow>
         (snd (bufferevent_disable e EV_READ b), Run_eventcb (BEV_EVENT_READING OR BEV_EVENT_EOF)))"

definition writecb_tail ::
  "'e event_env_scheme \<Rightarrow> 'cb bufferevent \<Rightarrow> 'cb bufferevent \<times> run" where
  "writecb_tail e b =
    (let b = (if bev_output b = [] \<and> event_del_ok e (bev_fd b) EV_WRITE then b\<lparr> ev_write := False \<rparr> else b)
     in (b, if length (bev_output b) \<le> wm_write_low b then Run_writecb else Run_nothing))"

definition bufferevent_writecb ::
  "'e event_env_scheme \<Rightarrow> write_result \<Rightarrow> 'cb bufferevent \<Rightarrow> 'cb bufferevent \<times> run" where
  "bufferevent_writecb e res b =
    (if bev_output b = [] then writecb_tail e b
     else case res of
       Wrote d \<Rightarrow>
         if d = []
         then (snd (bufferevent_disable e EV_WRITE b), Run_eventcb (BEV_EVENT_WRITING OR BEV_EVENT_EOF))
         else writecb_tail e (b\<lparr> bev_output := drop (length d) (bev_output b) \<rparr>)
     | Write_again \<Rightarrow> (b, Run_nothing)
     | Write_error \<Rightarrow>
         (snd (bufferevent_disable e EV_WRITE b), Run_eventcb (BEV_EVENT_WRITING OR BEV_EVENT_ERROR)))"

subsection \<open>What the operations leave alone\<close>

text \<open>The part of a bufferevent that enabling, disabling and suspending do not touch\<close>

definition same_conn :: "'cb bufferevent \<Rightarrow> 'cb bufferevent \<Rightarrow> bool" where
  "same_conn b b' \<longleftrightarrow>
    bev_fd b' = bev_fd b \<and> bev_input b' = bev_input b \<and> bev_output b' = bev_output b
    \<and> wm_read_low b' = wm_read_low b \<and> wm_read_high b' = wm_read_high b
    \<and> wm_write_low b' = wm_write_low b \<and> wm_write_high b' = wm_write_high b
    \<and> readcb b' = readcb b \<and> writecb b' = writecb b"

lemma same_conn_refl [simp]: "same_conn b b"
  by (simp add: same_conn_def)

lemma same_conn_ops:
  "same_conn b (snd (be_socket_enable e ev b))"
  "same_conn b (snd (be_socket_disable e ev b))"
  by (simp_all add: same_conn_def be_socket_enable_def be_socket_disable_def Let_def)

lemma same_conn_enable: "same_conn b (snd (bufferevent_enable e ev b))"
  using same_conn_ops(1) [of "b\<lparr> bev_enabled := bev_enabled b OR ev \<rparr>" e]
  by (simp add: bufferevent_enable_def Let_def same_conn_def)

lemma same_conn_disable: "same_conn b (snd (bufferevent_disable e ev b))"
  using same_conn_ops(2) [of "b\<lparr> bev_enabled := bev_enabled b AND NOT ev \<rparr>" e]
  by (simp add: bufferevent_disable_def same_conn_def)

lemma same_conn_suspend: "same_conn b (bufferevent_suspend_read e what b)"
  using same_conn_ops(2) [of b e EV_READ]
  by (simp add: bufferevent_suspend_read_def Let_def same_conn_def)

lemma enable_frame [simp]:
  "bev_fd (snd (bufferevent_enable e ev b)) = bev_fd b"
  "bev_input (snd (bufferevent_enable e ev b)) = bev_input b"
  "bev_output (snd (bufferevent_enable e ev b)) = bev_output b"
  "wm_read_low (snd (bufferevent_enable e ev b)) = wm_read_low b"
  "wm_read_high (snd (bufferevent_enable e ev b)) = wm_read_high b"
  "wm_write_low (snd (bufferevent_enable e ev b)) = wm_write_low b"
  "wm_write_high (snd (bufferevent_enable e ev b)) = wm_write_high b"
  "readcb (snd (bufferevent_enable e ev b)) = readcb b"
  "writecb (snd (bufferevent_enable e ev b)) = writecb b"
  using same_conn_enable [of b e ev] by (simp_all add: same_conn_def)

lemma disable_frame [simp]:
  "bev_fd (snd (bufferevent_disable e ev b)) = bev_fd b"
  "bev_input (snd (bufferevent_disable e ev b)) = bev_input b"
  "bev_output (snd (bufferevent_disable e ev b)) = bev_output b"
  "wm_read_low (snd (bufferevent_disable e ev b)) = wm_read_low b"
  "wm_read_high (snd (bufferevent_disable e ev b)) = wm_read_high b"
  "wm_write_low (snd (bufferevent_disable e ev b)) = wm_write_low b"
  "wm_write_high (snd (bufferevent_disable e ev b)) = wm_write_high b"
  "readcb (snd (bufferevent_disable e ev b)) = readcb b"
  "writecb (snd (bufferevent_disable e ev b)) = writecb b"
  using same_conn_disable [of b e ev] by (simp_all add: same_conn_def)

lemma suspend_frame [simp]:
  "bev_fd (bufferevent_suspend_read e what b) = bev_fd b"
  "bev_input (bufferevent_suspend_read e what b) = bev_input b"
  "bev_output (bufferevent_suspend_read e what b) = bev_output b"
  "wm_read_low (bufferevent_suspend_read e what b) = wm_read_low b"
  "wm_read_high (bufferevent_suspend_read e what b) = wm_read_high b"
  "wm_write_low (bufferevent_suspend_read e what b) = wm_write_low b"
  "wm_write_high (bufferevent_suspend_read e what b) = wm_write_high b"
  "readcb (bufferevent_suspend_read e what b) = readcb b"
  "writecb (bufferevent_suspend_read e what b) = writecb b"
  using same_conn_suspend [of b e what] by (simp_all add: same_conn_def)

lemma write_buffer_frame [simp]:
  "bev_fd (fst (bufferevent_write_buffer e d b)) = bev_fd b"
  "bev_input (fst (bufferevent_write_buffer e d b)) = bev_input b"
  "bev_output (fst (bufferevent_write_buffer e d b)) = bev_output b @ d"
  "wm_write_high (fst (bufferevent_write_buffer e d b)) = wm_write_high b"
  "readcb (fst (bufferevent_write_buffer e d b)) = readcb b"
  "writecb (fst (bufferevent_write_buffer e d b)) = writecb b"
  "read_suspended (fst (bufferevent_write_buffer e d b)) = read_suspended b"
  "snd (bufferevent_write_buffer e d b) = []"
  by (simp_all add: bufferevent_write_buffer_def bufferevent_socket_outbuf_cb_def)

end
