(* ===== verification/HaP_Redsocks.thy ===== *)
theory HaP_Redsocks
  imports HaP_Bufferevent
begin

text \<open>
  The core of the transparent redirector: \<open>src/jni/redsocks/redsocks.c\<close> with the socket helpers of
  \<open>utils.c\<close>. The state of the process is a \<open>world\<close>: the configured instances in the order of
  their list, the clients by address, the open file descriptors and the first memory or
  assertion fault. A callback of the code is a function on the world; it is told by an \<open>env\<close> what
  the system calls it makes return.

  Pointers are numbers: the map \<open>clients\<close> gives what a client address points to, and touching an
  address that was freed sets the fault. A client holds two bufferevents, to the client and to
  the proxy (the relay); each owns its descriptor.
\<close>

subsection \<open>State\<close>

datatype side = SClient | SRelay

datatype cb =
    Relay_connected | Ss_readcb | Ss_writecb
  | Relay_clientreadcb | Relay_clientwritecb | Relay_relayreadcb | Relay_relaywritecb

type_synonym bev = "cb bufferevent"

record sockaddr_in =
  sin_addr :: u32
  sin_port :: u16

record socks5_client =
  do_password :: bool
  to_skip :: nat

datatype relay_ss = Http_connect | Socks4 | Socks5

record redsocks_config =
  bindaddr :: sockaddr_in
  relayaddr :: sockaddr_in
  cf_type :: "string option"
  cf_login :: "string option"
  cf_password :: "string option"
  min_backoff_ms :: u16
  max_backoff_ms :: u16
  listenq :: u16

text \<open>\<open>inserted\<close> is the time in microseconds, 0 when the event is not in the loop.\<close>

record tracked_event =
  tev_fd :: "nat option"
  inserted :: int

record http_auth =
  last_auth_query :: "string option"
  last_auth_count :: u32

record redsocks_instance =
  config :: redsocks_config
  listener :: tracked_event
  accept_backoff :: tracked_event
  accept_backoff_ms :: u16
  inst_clients :: "nat list"
  relay_ss :: relay_ss
  auth :: http_auth

record redsocks_client =
  instance_of :: nat
  c_client :: "bev option"
  c_relay :: "bev option"
  clientaddr :: sockaddr_in
  destaddr :: sockaddr_in
  c_state :: nat
  client_evshut :: u16
  relay_evshut :: u16
  first_event :: int
  last_event :: int
  socks5 :: socks5_client

datatype fault = Use_after_free | Null_pointer | Assertion | Bad_descriptor | Out_of_bounds

record world =
  instances :: "(nat \<times> redsocks_instance) list"
  clients :: "nat \<Rightarrow> redsocks_client option"
  open_fds :: "nat list"
  world_fault :: "fault option"

text \<open>
  What the calls made during one callback return. The results that belong to a descriptor are
  functions of it; \<open>socket_fd\<close> gives the new descriptor when those in the list are open.
  \<open>so_error\<close> is \<open>None\<close> when \<open>getsockopt\<close> fails; \<open>new_client\<close> is the
  address \<open>calloc\<close> returns.
\<close>

datatype accept_result = Accepted nat sockaddr_in | Out_of_descriptors | Accept_failed

record env = event_env +
  env_time :: int
  env_clock :: int
  tev_add_ok :: bool
  tev_del_ok :: bool
  close_ok :: "nat \<Rightarrow> bool"
  so_error :: "nat \<Rightarrow> int option"
  socket_fd :: "nat list \<Rightarrow> nat option"
  fcntl_ok :: "nat \<Rightarrow> bool"
  setsockopt_ok :: "nat \<Rightarrow> bool"
  connect_ok :: "nat \<Rightarrow> bool"
  bind_ok :: "nat \<Rightarrow> bool"
  listen_ok :: "nat \<Rightarrow> bool"
  bev_new_ok :: "nat \<Rightarrow> bool"
  accept_res :: accept_result
  getsockname_ok :: bool
  env_destaddr :: "sockaddr_in option"
  new_client :: "nat option"
  env_random :: int
  evbuffer_ok_env :: bool
  env_rand :: "u32 list"
  sigaction_ok :: bool
  signal_add_ok :: bool

subsection \<open>Access to the state\<close>

definition set_fault :: "fault \<Rightarrow> world \<Rightarrow> world" where
  "set_fault f w = (if world_fault w = None then w\<lparr> world_fault := Some f \<rparr> else w)"

definition with_client :: "nat \<Rightarrow> (redsocks_client \<Rightarrow> world \<Rightarrow> world) \<Rightarrow> world \<Rightarrow> world" where
  "with_client c k w = (case clients w c of None \<Rightarrow> set_fault Use_after_free w | Some cl \<Rightarrow> k cl w)"

definition put_client :: "nat \<Rightarrow> redsocks_client \<Rightarrow> world \<Rightarrow> world" where
  "put_client c cl w = w\<lparr> clients := (clients w)(c := Some cl) \<rparr>"

definition with_instance :: "nat \<Rightarrow> (redsocks_instance \<Rightarrow> world \<Rightarrow> world) \<Rightarrow> world \<Rightarrow> world" where
  "with_instance i k w =
    (case map_of (instances w) i of None \<Rightarrow> set_fault Use_after_free w | Some x \<Rightarrow> k x w)"

definition upd_instance :: "nat \<Rightarrow> (redsocks_instance \<Rightarrow> redsocks_instance) \<Rightarrow> world \<Rightarrow> world" where
  "upd_instance i f w =
    w\<lparr> instances := map (\<lambda>(k, x). (k, if k = i then f x else x)) (instances w) \<rparr>"

fun bev_of :: "side \<Rightarrow> redsocks_client \<Rightarrow> bev option" where
  "bev_of SClient cl = c_client cl"
| "bev_of SRelay cl = c_relay cl"

fun set_bev :: "side \<Rightarrow> bev option \<Rightarrow> redsocks_client \<Rightarrow> redsocks_client" where
  "set_bev SClient b cl = cl\<lparr> c_client := b \<rparr>"
| "set_bev SRelay b cl = cl\<lparr> c_relay := b \<rparr>"

fun evshut :: "side \<Rightarrow> redsocks_client \<Rightarrow> u16" where
  "evshut SClient cl = client_evshut cl"
| "evshut SRelay cl = relay_evshut cl"

fun set_evshut :: "side \<Rightarrow> u16 \<Rightarrow> redsocks_client \<Rightarrow> redsocks_client" where
  "set_evshut SClient v cl = cl\<lparr> client_evshut := v \<rparr>"
| "set_evshut SRelay v cl = cl\<lparr> relay_evshut := v \<rparr>"

fun other :: "side \<Rightarrow> side" where
  "other SClient = SRelay"
| "other SRelay = SClient"

text \<open>A bufferevent of a client, dereferenced\<close>

definition with_bev :: "nat \<Rightarrow> side \<Rightarrow> (bev \<Rightarrow> world \<Rightarrow> world) \<Rightarrow> world \<Rightarrow> world" where
  "with_bev c s k w =
    with_client c (\<lambda>cl w. case bev_of s cl of None \<Rightarrow> set_fault Null_pointer w | Some b \<Rightarrow> k b w) w"

definition put_bev :: "nat \<Rightarrow> side \<Rightarrow> bev option \<Rightarrow> world \<Rightarrow> world" where
  "put_bev c s b w = with_client c (\<lambda>cl. put_client c (set_bev s b cl)) w"

subsection \<open>Events with their insertion time\<close>

definition tracked_event_add :: "env \<Rightarrow> tracked_event \<Rightarrow> tracked_event" where
  "tracked_event_add e t = (if tev_add_ok e then t\<lparr> inserted := env_clock e \<rparr> else t)"

definition tracked_event_del :: "env \<Rightarrow> tracked_event \<Rightarrow> tracked_event" where
  "tracked_event_del e t = (if tev_del_ok e then t\<lparr> inserted := 0 \<rparr> else t)"

subsection \<open>Closing\<close>

definition redsocks_accept_backoff :: "env \<Rightarrow> nat \<Rightarrow> world \<Rightarrow> world" where
  "redsocks_accept_backoff e i w =
    upd_instance i (\<lambda>x. x\<lparr> accept_backoff := tracked_event_del e (accept_backoff x),
                           listener := tracked_event_add e (listener x) \<rparr>) w"

definition backoff_passed :: "env \<Rightarrow> redsocks_instance \<Rightarrow> bool" where
  "backoff_passed e x \<longleftrightarrow>
    inserted (accept_backoff x) \<noteq> 0
    \<and> (let ms = uint (min_backoff_ms (config x))
       in (ms div 1000) * 1000000 + (ms mod 1000) * 1000 < env_clock e - inserted (accept_backoff x))"

fun first_backoff :: "env \<Rightarrow> (nat \<times> redsocks_instance) list \<Rightarrow> nat option" where
  "first_backoff e [] = None"
| "first_backoff e ((i, x) # xs) = (if backoff_passed e x then Some i else first_backoff e xs)"

definition redsocks_close :: "env \<Rightarrow> nat \<Rightarrow> world \<Rightarrow> world" where
  "redsocks_close e fd w =
    (if fd \<notin> set (open_fds w) then set_fault Bad_descriptor w
     else let w = w\<lparr> open_fds := remove1 fd (open_fds w) \<rparr>
       in if close_ok e fd
          then case first_backoff e (instances w) of
                 None \<Rightarrow> w | Some i \<Rightarrow> redsocks_accept_backoff e i w
          else w)"

definition close_bev :: "env \<Rightarrow> bev option \<Rightarrow> world \<Rightarrow> world" where
  "close_bev e b w = (case b of None \<Rightarrow> w | Some b \<Rightarrow> redsocks_close e (bev_fd b) w)"

definition redsocks_drop_client :: "env \<Rightarrow> nat \<Rightarrow> world \<Rightarrow> world" where
  "redsocks_drop_client e c w =
    with_client c (\<lambda>cl. with_instance (instance_of cl) (\<lambda>_ w.
      let w = close_bev e (c_client cl) w;
          w = close_bev e (c_relay cl) w;
          w = upd_instance (instance_of cl) (\<lambda>x. x\<lparr> inst_clients := remove1 c (inst_clients x) \<rparr>) w
      in w\<lparr> clients := (clients w)(c := None) \<rparr>)) w"

subsection \<open>Relaying\<close>

definition redsocks_touch_client :: "env \<Rightarrow> nat \<Rightarrow> world \<Rightarrow> world" where
  "redsocks_touch_client e c w =
    with_client c (\<lambda>cl. put_client c (cl\<lparr> last_event := env_time e \<rparr>)) w"

datatype shut_how = SHUT_RD | SHUT_WR | SHUT_RDWR

fun evhow :: "shut_how \<Rightarrow> u16" where
  "evhow SHUT_RD = EV_READ"
| "evhow SHUT_WR = EV_WRITE"
| "evhow SHUT_RDWR = EV_READ OR EV_WRITE"

text \<open>The socket call on a descriptor that is not open is the fault; its result is only logged.\<close>

definition redsocks_shutdown :: "env \<Rightarrow> nat \<Rightarrow> side \<Rightarrow> shut_how \<Rightarrow> world \<Rightarrow> world" where
  "redsocks_shutdown e c s how w =
    with_bev c s (\<lambda>b. with_client c (\<lambda>cl w.
      let w = (if \<not> (how = SHUT_RD \<and> evshut s cl AND EV_WRITE \<noteq> 0) \<and> bev_fd b \<notin> set (open_fds w)
               then set_fault Bad_descriptor w else w);
          b = snd (bufferevent_disable e (evhow how) b);
          cl = set_evshut s (evshut s cl OR evhow how) (set_bev s (Some b) cl);
          w = put_client c cl w
      in if relay_evshut cl = EV_READ OR EV_WRITE \<and> client_evshut cl = EV_READ OR EV_WRITE
         then redsocks_drop_client e c w else w)) w"

definition relay_move :: "env \<Rightarrow> nat \<Rightarrow> side \<Rightarrow> bev \<Rightarrow> bev \<Rightarrow> world \<Rightarrow> world" where
  "relay_move e c from f t w =
    (case bufferevent_write_buffer e (bev_input f) t of (t, rest) \<Rightarrow>
       put_bev c (other from) (Some t) (put_bev c from (Some (f\<lparr> bev_input := rest \<rparr>)) w))"

definition redsocks_relay_readcb :: "env \<Rightarrow> nat \<Rightarrow> side \<Rightarrow> world \<Rightarrow> world" where
  "redsocks_relay_readcb e c from w =
    with_bev c (other from) (\<lambda>t. with_bev c from (\<lambda>f.
      if length (bev_output t) < wm_write_high t then relay_move e c from f t
      else put_bev c from (Some (snd (bufferevent_disable e EV_READ f))))) w"

definition redsocks_relay_writecb :: "env \<Rightarrow> nat \<Rightarrow> side \<Rightarrow> world \<Rightarrow> world" where
  "redsocks_relay_writecb e c from w =
    with_client c (\<lambda>cl. with_bev c from (\<lambda>f. with_bev c (other from) (\<lambda>t w.
      if bev_input f = [] \<and> evshut from cl AND EV_READ \<noteq> 0
      then redsocks_shutdown e c (other from) SHUT_WR w
      else if length (bev_output t) < wm_write_high t
      then with_bev c from (\<lambda>f. put_bev c from (Some (snd (bufferevent_enable e EV_READ f))))
             (relay_move e c from f t w)
      else w))) w"

definition redsocks_relay_relayreadcb :: "env \<Rightarrow> nat \<Rightarrow> world \<Rightarrow> world" where
  "redsocks_relay_relayreadcb e c w = redsocks_relay_readcb e c SRelay (redsocks_touch_client e c w)"

definition redsocks_relay_relaywritecb :: "env \<Rightarrow> nat \<Rightarrow> world \<Rightarrow> world" where
  "redsocks_relay_relaywritecb e c w = redsocks_relay_writecb e c SClient (redsocks_touch_client e c w)"

definition redsocks_relay_clientreadcb :: "env \<Rightarrow> nat \<Rightarrow> world \<Rightarrow> world" where
  "redsocks_relay_clientreadcb e c w = redsocks_relay_readcb e c SClient (redsocks_touch_client e c w)"

definition redsocks_relay_clientwritecb :: "env \<Rightarrow> nat \<Rightarrow> world \<Rightarrow> world" where
  "redsocks_relay_clientwritecb e c w = redsocks_relay_writecb e c SRelay (redsocks_touch_client e c w)"

definition REDSOCKS_RELAY_HALFBUFF :: nat where
  "REDSOCKS_RELAY_HALFBUFF = 4096"

definition relay_bev :: "cb \<Rightarrow> cb \<Rightarrow> bev \<Rightarrow> bev" where
  "relay_bev rcb wcb b =
    b\<lparr> wm_read_low := 0, wm_write_low := 0,
       wm_read_high := REDSOCKS_RELAY_HALFBUFF, wm_write_high := REDSOCKS_RELAY_HALFBUFF,
       readcb := Some rcb, writecb := Some wcb \<rparr>"

definition redsocks_start_relay :: "env \<Rightarrow> nat \<Rightarrow> world \<Rightarrow> world" where
  "redsocks_start_relay e c w =
    with_bev c SRelay (\<lambda>r. with_bev c SClient (\<lambda>b w.
      let b = relay_bev Relay_clientreadcb Relay_clientwritecb b;
          r = relay_bev Relay_relayreadcb Relay_relaywritecb r
      in case bufferevent_enable e (EV_READ OR EV_WRITE) b of (ok, b) \<Rightarrow>
           (case (if ok then bufferevent_enable e (EV_READ OR EV_WRITE) r else (False, r)) of (ok, r) \<Rightarrow>
              let w = put_bev c SRelay (Some r) (put_bev c SClient (Some b) w)
              in if ok then w else redsocks_drop_client e c w))) w"

definition redsocks_event_error :: "env \<Rightarrow> nat \<Rightarrow> side \<Rightarrow> u16 \<Rightarrow> world \<Rightarrow> world" where
  "redsocks_event_error e c s what w =
    (let w = redsocks_touch_client e c w
     in if what = BEV_EVENT_READING OR BEV_EVENT_EOF
        then with_client c (\<lambda>cl w.
          let antiev = bev_of (other s) cl;
              w = redsocks_shutdown e c s SHUT_RD w
          in if antiev \<noteq> None
             then with_bev c (other s) (\<lambda>a w.
               if bev_output a = [] then redsocks_shutdown e c (other s) SHUT_WR w else w) w
             else w) w
        else redsocks_drop_client e c w)"

subsection \<open>Helpers of the protocols\<close>

definition sizes_equal :: "nat \<Rightarrow> nat \<Rightarrow> bool" where
  "sizes_equal a b \<longleftrightarrow> a = b"

definition sizes_greater_equal :: "nat \<Rightarrow> nat \<Rightarrow> bool" where
  "sizes_greater_equal a b \<longleftrightarrow> b \<le> a"

text \<open>
  \<open>redsocks_read_expected\<close> on the input of the relay: \<open>k\<close> is what the caller does with the bytes
  read. When the size is wrong the client is dropped and the caller returns.
\<close>

definition redsocks_read_expected ::
  "env \<Rightarrow> nat \<Rightarrow> (nat \<Rightarrow> nat \<Rightarrow> bool) \<Rightarrow> nat \<Rightarrow> (bytes \<Rightarrow> world \<Rightarrow> world) \<Rightarrow> world \<Rightarrow> world" where
  "redsocks_read_expected e c comparator expected k w =
    with_bev c SRelay (\<lambda>b w.
      if comparator (length (bev_input b)) expected
      then let data = take expected (bev_input b);
               w = put_bev c SRelay (Some (b\<lparr> bev_input := drop expected (bev_input b) \<rparr>)) w
           in if length data = expected then k data w else set_fault Assertion w
      else redsocks_drop_client e c w) w"

definition mkevbuffer :: "env \<Rightarrow> bytes \<Rightarrow> bytes option" where
  "mkevbuffer e data = (if evbuffer_ok_env e then Some data else None)"

text \<open>
  The message maker may change the world and returns a buffer or \<open>None\<close>; \<open>None\<close> in its place
  is the null pointer. The bufferevent is the relay of the client.
\<close>

definition redsocks_write_helper_ex ::
  "env \<Rightarrow> nat \<Rightarrow> (world \<Rightarrow> world \<times> bytes option) option \<Rightarrow> nat \<Rightarrow> nat \<Rightarrow> nat \<Rightarrow> world \<Rightarrow> world" where
  "redsocks_write_helper_ex e c mkmessage state wm_low wm_high w =
    (case (case mkmessage of None \<Rightarrow> (w, Some []) | Some mk \<Rightarrow> mk w) of
       (w, None) \<Rightarrow> redsocks_drop_client e c w
     | (w, Some buff) \<Rightarrow>
         with_bev c SRelay (\<lambda>b. with_client c (\<lambda>cl.
           let b = fst (bufferevent_write_buffer e buff b);
               b = b\<lparr> wm_read_low := wm_low, wm_read_high := wm_high \<rparr>
           in put_client c (set_bev SRelay (Some (snd (bufferevent_enable e EV_READ b)))
                (cl\<lparr> c_state := state \<rparr>)))) w)"

definition redsocks_write_helper ::
  "env \<Rightarrow> nat \<Rightarrow> (world \<Rightarrow> world \<times> bytes option) option \<Rightarrow> nat \<Rightarrow> nat \<Rightarrow> world \<Rightarrow> world" where
  "redsocks_write_helper e c mkmessage state wm_only w =
    redsocks_write_helper_ex e c mkmessage state wm_only wm_only w"

subsection \<open>Connecting to the proxy\<close>

text \<open>The error of the socket, -1 when it cannot be read\<close>

definition red_socket_geterrno :: "env \<Rightarrow> bev \<Rightarrow> int" where
  "red_socket_geterrno e b = (case so_error e (bev_fd b) of None \<Rightarrow> -1 | Some err \<Rightarrow> err)"

definition red_is_socket_connected_ok :: "env \<Rightarrow> bev \<Rightarrow> bool" where
  "red_is_socket_connected_ok e b \<longleftrightarrow>
    (let pseudo_errno = red_socket_geterrno e b
     in if pseudo_errno = -1 then False else if pseudo_errno \<noteq> 0 then False else True)"

definition red_connect_relay :: "env \<Rightarrow> world \<Rightarrow> bev option \<times> world" where
  "red_connect_relay e w =
    (case socket_fd e (open_fds w) of
       None \<Rightarrow> (None, w)
     | Some fd \<Rightarrow>
         let w = w\<lparr> open_fds := fd # open_fds w \<rparr>
         in if \<not> fcntl_ok e fd then (None, redsocks_close e fd w)
            else if \<not> setsockopt_ok e fd then (None, redsocks_close e fd w)
            else if \<not> connect_ok e fd then (None, redsocks_close e fd w)
            else if \<not> bev_new_ok e fd then (None, redsocks_close e fd w)
            else case bufferevent_enable e EV_WRITE (bufferevent_new fd None (Some Relay_connected)) of
                (ok, b) \<Rightarrow> if ok then (Some b, w) else (None, redsocks_close e fd w))"

definition redsocks_connect_relay :: "env \<Rightarrow> nat \<Rightarrow> world \<Rightarrow> world" where
  "redsocks_connect_relay e c w =
    with_client c (\<lambda>cl. with_instance (instance_of cl) (\<lambda>_ w.
      case red_connect_relay e w of (b, w) \<Rightarrow>
        let w = put_bev c SRelay b w
        in if b = None then redsocks_drop_client e c w else w)) w"

text \<open>\<open>relay_ss->writecb\<close> is the argument \<open>ss_write\<close>.\<close>

definition redsocks_relay_connected ::
  "(env \<Rightarrow> nat \<Rightarrow> world \<Rightarrow> world) \<Rightarrow> env \<Rightarrow> nat \<Rightarrow> world \<Rightarrow> world" where
  "redsocks_relay_connected ss_write e c w =
    (let w = redsocks_touch_client e c w
     in with_bev c SRelay (\<lambda>b w.
          if \<not> red_is_socket_connected_ok e b then redsocks_drop_client e c w
          else ss_write e c
            (put_bev c SRelay (Some (b\<lparr> readcb := Some Ss_readcb, writecb := Some Ss_writecb \<rparr>)) w)) w)"

subsection \<open>Accepting a client\<close>

definition clamp_value :: "u16 \<Rightarrow> u16 \<Rightarrow> u16 \<Rightarrow> u16" where
  "clamp_value v lo hi = (let v = (if v < lo then lo else v) in if v > hi then hi else v)"

definition accept_no_fd :: "env \<Rightarrow> redsocks_instance \<Rightarrow> redsocks_instance" where
  "accept_no_fd e self =
    (let self = self\<lparr> accept_backoff_ms :=
           clamp_value (push_bit 1 (accept_backoff_ms self) + 1) (min_backoff_ms (config self)) (max_backoff_ms (config self)) \<rparr>
     in self\<lparr> listener := tracked_event_del e (listener self),
              accept_backoff := tracked_event_add e (accept_backoff self) \<rparr>)"

text \<open>The delay of the timer, in milliseconds\<close>

definition backoff_delay :: "env \<Rightarrow> redsocks_instance \<Rightarrow> int" where
  "backoff_delay e self = env_random e mod uint (accept_backoff_ms (accept_no_fd e self)) + 1"

definition new_redsocks_client :: "nat \<Rightarrow> sockaddr_in \<Rightarrow> sockaddr_in \<Rightarrow> redsocks_client" where
  "new_redsocks_client i from_addr dest_addr =
    \<lparr> instance_of = i, c_client = None, c_relay = None, clientaddr = from_addr, destaddr = dest_addr,
      c_state = 0, client_evshut = 0, relay_evshut = 0, first_event = 0, last_event = 0,
      socks5 = \<lparr> do_password = False, to_skip = 0 \<rparr> \<rparr>"

text \<open>
  From the allocation of the client on; \<open>ss_init\<close> is \<open>relay_ss->init\<close> with the configuration of
  the instance. The three protocols modelled have no \<open>connect_relay\<close> of their own.
\<close>

definition accept_start ::
  "(redsocks_config \<Rightarrow> redsocks_client \<Rightarrow> redsocks_client) \<Rightarrow> env \<Rightarrow> nat \<Rightarrow> nat \<Rightarrow> nat \<Rightarrow>
   redsocks_client \<Rightarrow> world \<Rightarrow> world" where
  "accept_start ss_init e i fd c cl w =
    with_instance i (\<lambda>self w.
      let cl = ss_init (config self) cl;
          cl = cl\<lparr> first_event := env_time e \<rparr>
      in if env_time e = -1
         then redsocks_close e fd (redsocks_drop_client e c (put_client c cl w))
         else let w = redsocks_touch_client e c (put_client c cl w)
           in if \<not> bev_new_ok e fd then redsocks_close e fd (redsocks_drop_client e c w)
              else case bufferevent_enable e EV_READ (bufferevent_new fd None None) of (ok, b) \<Rightarrow>
                let w = put_bev c SClient (Some b) w;
                    w = upd_instance i (\<lambda>x. x\<lparr> inst_clients := c # inst_clients x \<rparr>) w
                in if ok then redsocks_connect_relay e c w else redsocks_drop_client e c w) w"

definition redsocks_accept_client ::
  "(redsocks_config \<Rightarrow> redsocks_client \<Rightarrow> redsocks_client) \<Rightarrow> env \<Rightarrow> nat \<Rightarrow> world \<Rightarrow> world" where
  "redsocks_accept_client ss_init e i w =
    (case accept_res e of
       Out_of_descriptors \<Rightarrow> upd_instance i (accept_no_fd e) w
     | Accept_failed \<Rightarrow> w
     | Accepted fd from_addr \<Rightarrow>
         let w = w\<lparr> open_fds := fd # open_fds w \<rparr>;
             w = upd_instance i (\<lambda>x. x\<lparr> accept_backoff_ms := 0 \<rparr>) w
         in if \<not> getsockname_ok e then redsocks_close e fd w
            else case env_destaddr e of
                None \<Rightarrow> redsocks_close e fd w
              | Some dest_addr \<Rightarrow>
                  if \<not> setsockopt_ok e fd then redsocks_close e fd w
                  else case new_client e of
                      None \<Rightarrow> redsocks_close e fd w
                    | Some c \<Rightarrow> accept_start ss_init e i fd c (new_redsocks_client i from_addr dest_addr) w)"

subsection \<open>Starting and stopping an instance\<close>

definition redsocks_fini_instance :: "env \<Rightarrow> nat \<Rightarrow> world \<Rightarrow> world" where
  "redsocks_fini_instance e i w =
    with_instance i (\<lambda>x w.
      let w = fold (redsocks_drop_client e) (inst_clients x) w;
          w = upd_instance i (\<lambda>x. if relay_ss x = Http_connect
                then x\<lparr> auth := (auth x)\<lparr> last_auth_query := None \<rparr> \<rparr> else x) w;
          w = (case tev_fd (listener x) of
                 None \<Rightarrow> w
               | Some fd \<Rightarrow>
                   let w = upd_instance i (\<lambda>x. if inserted (listener x) \<noteq> 0
                         then x\<lparr> listener := tracked_event_del e (listener x) \<rparr> else x) w
                   in redsocks_close e fd w)
      in w\<lparr> instances := filter (\<lambda>(k, _). k \<noteq> i) (instances w) \<rparr>) w"

text \<open>Whether the call succeeded, and the world; after a failure the instance is gone.\<close>

definition redsocks_init_instance :: "env \<Rightarrow> nat \<Rightarrow> world \<Rightarrow> bool \<times> world" where
  "redsocks_init_instance e i w =
    (case socket_fd e (open_fds w) of
       None \<Rightarrow> (False, redsocks_fini_instance e i w)
     | Some fd \<Rightarrow>
         let w = w\<lparr> open_fds := fd # open_fds w \<rparr>;
             fail = (False, redsocks_close e fd (redsocks_fini_instance e i w))
         in if \<not> setsockopt_ok e fd then fail
            else if \<not> bind_ok e fd then fail
            else if \<not> fcntl_ok e fd then fail
            else if \<not> listen_ok e fd then fail
            else
              let w = upd_instance i (\<lambda>x. x\<lparr> listener := \<lparr> tev_fd = Some fd, inserted = 0 \<rparr>,
                                             accept_backoff := \<lparr> tev_fd = None, inserted = 0 \<rparr> \<rparr>) w
              in if tev_add_ok e
                 then (True, upd_instance i (\<lambda>x. x\<lparr> listener := tracked_event_add e (listener x) \<rparr>) w)
                 else (False, redsocks_fini_instance e i w))"

fun redsocks_init_instances :: "env \<Rightarrow> nat list \<Rightarrow> world \<Rightarrow> bool \<times> world" where
  "redsocks_init_instances e [] w = (True, w)"
| "redsocks_init_instances e (i # is) w =
    (case redsocks_init_instance e i w of
       (True, w) \<Rightarrow> redsocks_init_instances e is w
     | (False, w) \<Rightarrow> (False, w))"

definition redsocks_fini :: "env \<Rightarrow> world \<Rightarrow> world" where
  "redsocks_fini e w = fold (redsocks_fini_instance e) (map fst (instances w)) w"

definition redsocks_init :: "env \<Rightarrow> world \<Rightarrow> bool \<times> world" where
  "redsocks_init e w =
    (if \<not> sigaction_ok e then (False, w)
     else if \<not> signal_add_ok e then (False, redsocks_fini e w)
     else case redsocks_init_instances e (map fst (instances w)) w of
       (True, w) \<Rightarrow> (True, w)
     | (False, w) \<Rightarrow> (False, redsocks_fini e w))"

end
