(* ===== verification/HaP_Redsocks_Inv.thy ===== *)
theory HaP_Redsocks_Inv
  imports HaP_Redsocks
begin

text \<open>
  The invariant of the redirector and the rules by which its operations keep it. Between two
  events every client has both its connections, each descriptor is open and has one owner, and
  a client is in one of three phases: it waits for the connection to the proxy, it talks to the
  proxy, or it relays.

  An operation works on one client. The rules split the world into that client and the rest:
  \<open>rest_ok c F w\<close> says that everything but the client \<open>c\<close> is in order and that \<open>F\<close> is the set
  of open descriptors nobody else owns.
\<close>

subsection \<open>One client\<close>

definition connecting :: "redsocks_client \<Rightarrow> bev \<Rightarrow> bev \<Rightarrow> bool" where
  "connecting cl b r \<longleftrightarrow>
    readcb b = None \<and> writecb b = None \<and> readcb r = None \<and> writecb r = Some Relay_connected \<and> c_state cl = 0"

definition talking :: "bev \<Rightarrow> bev \<Rightarrow> bool" where
  "talking b r \<longleftrightarrow>
    readcb b = None \<and> writecb b = None \<and> readcb r = Some Ss_readcb \<and> writecb r = Some Ss_writecb"

definition relaying :: "bev \<Rightarrow> bev \<Rightarrow> bool" where
  "relaying b r \<longleftrightarrow>
    readcb b = Some Relay_clientreadcb \<and> writecb b = Some Relay_clientwritecb
    \<and> readcb r = Some Relay_relayreadcb \<and> writecb r = Some Relay_relaywritecb"

definition evshut_vals :: "u16 set" where
  "evshut_vals = {0, EV_READ, EV_WRITE, EV_READ OR EV_WRITE}"

text \<open>A side is shut for writing only after the other side has ended, and not all is shut.\<close>

definition evshut_ok :: "redsocks_client \<Rightarrow> bool" where
  "evshut_ok cl \<longleftrightarrow>
    client_evshut cl \<in> evshut_vals \<and> relay_evshut cl \<in> evshut_vals
    \<and> (client_evshut cl AND EV_WRITE \<noteq> 0 \<longrightarrow> relay_evshut cl AND EV_READ \<noteq> 0)
    \<and> (relay_evshut cl AND EV_WRITE \<noteq> 0 \<longrightarrow> client_evshut cl AND EV_READ \<noteq> 0)
    \<and> \<not> (client_evshut cl = EV_READ OR EV_WRITE \<and> relay_evshut cl = EV_READ OR EV_WRITE)"

definition cred_ok :: "redsocks_instance \<Rightarrow> redsocks_client \<Rightarrow> bool" where
  "cred_ok x cl \<longleftrightarrow> (do_password (socks5 cl) \<longrightarrow> cf_login (config x) \<noteq> None \<and> cf_password (config x) \<noteq> None)"

definition phase_ok :: "redsocks_client \<Rightarrow> bool" where
  "phase_ok cl \<longleftrightarrow>
    (case (c_client cl, c_relay cl) of
       (Some b, Some r) \<Rightarrow>
         bev_fd b \<noteq> bev_fd r
         \<and> (connecting cl b r \<or> talking b r \<and> 1 \<le> c_state cl \<or> relaying b r)
     | _ \<Rightarrow> False)"

definition client_ok :: "redsocks_client \<Rightarrow> bool" where
  "client_ok cl \<longleftrightarrow> evshut_ok cl \<and> phase_ok cl"

definition inst_ok :: "redsocks_instance \<Rightarrow> bool" where
  "inst_ok x \<longleftrightarrow>
    0 < min_backoff_ms (config x) \<and> min_backoff_ms (config x) < max_backoff_ms (config x)
    \<and> accept_backoff_ms x \<le> max_backoff_ms (config x)
    \<and> (last_auth_query (auth x) \<noteq> None \<longrightarrow> cf_login (config x) \<noteq> None \<and> cf_password (config x) \<noteq> None)"

subsection \<open>The world\<close>

definition bev_fds :: "bev option \<Rightarrow> nat set" where
  "bev_fds b = (case b of None \<Rightarrow> {} | Some b \<Rightarrow> {bev_fd b})"

definition cfds :: "redsocks_client \<Rightarrow> nat set" where
  "cfds cl = bev_fds (c_client cl) \<union> bev_fds (c_relay cl)"

definition fds_of :: "world \<Rightarrow> nat \<Rightarrow> nat set" where
  "fds_of w c = (case clients w c of None \<Rightarrow> {} | Some cl \<Rightarrow> cfds cl)"

definition listen_fds :: "world \<Rightarrow> nat set" where
  "listen_fds w = {fd. \<exists>i x. (i, x) \<in> set (instances w) \<and> tev_fd (listener x) = Some fd}"

definition no_fault :: "world \<Rightarrow> bool" where
  "no_fault w \<longleftrightarrow> world_fault w = None \<or> world_fault w = Some Out_of_bounds"

definition insts_ok :: "world \<Rightarrow> bool" where
  "insts_ok w \<longleftrightarrow>
    distinct (map fst (instances w))
    \<and> (\<forall>i x. (i, x) \<in> set (instances w) \<longrightarrow> inst_ok x \<and> distinct (inst_clients x))
    \<and> (\<forall>i x j y fd. (i, x) \<in> set (instances w) \<longrightarrow> (j, y) \<in> set (instances w) \<longrightarrow>
         tev_fd (listener x) = Some fd \<longrightarrow> tev_fd (listener y) = Some fd \<longrightarrow> i = j)"

definition listed :: "world \<Rightarrow> nat \<Rightarrow> nat \<Rightarrow> bool" where
  "listed w c i \<longleftrightarrow> (\<exists>x. (i, x) \<in> set (instances w) \<and> c \<in> set (inst_clients x))"

definition client_in :: "world \<Rightarrow> nat \<Rightarrow> redsocks_client \<Rightarrow> bool" where
  "client_in w c cl \<longleftrightarrow>
    (\<exists>x. map_of (instances w) (instance_of cl) = Some x \<and> cred_ok x cl)
    \<and> (\<forall>i. listed w c i \<longleftrightarrow> i = instance_of cl)"

definition slot_ok :: "world \<Rightarrow> nat \<Rightarrow> bool" where
  "slot_ok w d \<longleftrightarrow>
    (case clients w d of
       None \<Rightarrow> \<forall>i. \<not> listed w d i
     | Some cl \<Rightarrow> client_ok cl \<and> client_in w d cl)"

definition rest_ok :: "nat \<Rightarrow> nat set \<Rightarrow> world \<Rightarrow> bool" where
  "rest_ok c F w \<longleftrightarrow>
    no_fault w \<and> insts_ok w \<and> distinct (open_fds w)
    \<and> set (open_fds w) = F \<union> (\<Union>d \<in> - {c}. fds_of w d) \<union> listen_fds w
    \<and> F \<inter> listen_fds w = {} \<and> (\<forall>d. d \<noteq> c \<longrightarrow> fds_of w d \<inter> listen_fds w = {})
    \<and> (\<forall>d. d \<noteq> c \<longrightarrow> F \<inter> fds_of w d = {})
    \<and> (\<forall>d d'. d \<noteq> c \<longrightarrow> d' \<noteq> c \<longrightarrow> d \<noteq> d' \<longrightarrow> fds_of w d \<inter> fds_of w d' = {})
    \<and> (\<forall>d. d \<noteq> c \<longrightarrow> slot_ok w d)"

definition world_ok :: "world \<Rightarrow> bool" where
  "world_ok w \<longleftrightarrow>
    no_fault w \<and> insts_ok w \<and> distinct (open_fds w)
    \<and> set (open_fds w) = (\<Union>d. fds_of w d) \<union> listen_fds w
    \<and> (\<forall>d. fds_of w d \<inter> listen_fds w = {})
    \<and> (\<forall>d d'. d \<noteq> d' \<longrightarrow> fds_of w d \<inter> fds_of w d' = {})
    \<and> (\<forall>d. slot_ok w d)"

lemma world_split: "world_ok w \<longleftrightarrow> rest_ok c (fds_of w c) w \<and> slot_ok w c"
proof -
  have u: "(\<Union>d. fds_of w d) = fds_of w c \<union> (\<Union>d \<in> - {c}. fds_of w d)" by auto
  have d: "(\<forall>d d'. d \<noteq> d' \<longrightarrow> fds_of w d \<inter> fds_of w d' = {}) \<longleftrightarrow>
    (\<forall>d. d \<noteq> c \<longrightarrow> fds_of w c \<inter> fds_of w d = {}) \<and>
    (\<forall>d d'. d \<noteq> c \<longrightarrow> d' \<noteq> c \<longrightarrow> d \<noteq> d' \<longrightarrow> fds_of w d \<inter> fds_of w d' = {})"
    by (metis inf_commute)
  have a: "(\<forall>d. P d) \<longleftrightarrow> P c \<and> (\<forall>d. d \<noteq> c \<longrightarrow> P d)" for P by auto
  show ?thesis
    unfolding world_ok_def rest_ok_def u d a [of "slot_ok w"] a [of "\<lambda>d. fds_of w d \<inter> listen_fds w = {}"]
    by (intro iffI conjI; elim conjE; assumption)
qed

lemma put_client_simps [simp]:
  "clients (put_client c cl w) c = Some cl"
  "d \<noteq> c \<Longrightarrow> clients (put_client c cl w) d = clients w d"
  "instances (put_client c cl w) = instances w"
  "open_fds (put_client c cl w) = open_fds w"
  "world_fault (put_client c cl w) = world_fault w"
  "put_client c cl (put_client c cl' w) = put_client c cl w"
  by (simp_all add: put_client_def)

lemma put_client_self: "clients w c = Some cl \<Longrightarrow> put_client c cl w = w"
  by (simp add: put_client_def fun_upd_idem)

lemma put_client_frame [simp]:
  "no_fault (put_client c cl w) = no_fault w"
  "insts_ok (put_client c cl w) = insts_ok w"
  "listen_fds (put_client c cl w) = listen_fds w"
  "listed (put_client c cl w) = listed w"
  "client_in (put_client c cl w) d cl' = client_in w d cl'"
  "d \<noteq> c \<Longrightarrow> fds_of (put_client c cl w) d = fds_of w d"
  "d \<noteq> c \<Longrightarrow> slot_ok (put_client c cl w) d = slot_ok w d"
  by (simp_all add: no_fault_def insts_ok_def listen_fds_def listed_def [abs_def] client_in_def fds_of_def
      slot_ok_def split: option.split)

lemma rest_ok_put [simp]: "rest_ok c F (put_client c cl w) \<longleftrightarrow> rest_ok c F w"
proof -
  have "(\<Union>d \<in> - {c}. fds_of (put_client c cl w) d) = (\<Union>d \<in> - {c}. fds_of w d)"
    by (rule SUP_cong) simp_all
  then show ?thesis by (simp add: rest_ok_def)
qed

text \<open>The ways into and out of the view of one client\<close>

lemma world_ok_put:
  "world_ok (put_client c cl w) \<longleftrightarrow> rest_ok c (cfds cl) w \<and> client_ok cl \<and> client_in w c cl"
  by (subst world_split [of _ c]) (simp add: fds_of_def slot_ok_def)

lemma world_ok_client:
  "world_ok w \<Longrightarrow> clients w c = Some cl \<Longrightarrow> rest_ok c (cfds cl) w \<and> client_ok cl \<and> client_in w c cl"
  using world_split [of w c] by (simp add: fds_of_def slot_ok_def)

lemma world_ok_none:
  "clients w c = None \<Longrightarrow> world_ok w \<longleftrightarrow> rest_ok c {} w \<and> (\<forall>i. \<not> listed w c i)"
  using world_split [of w c] by (simp add: fds_of_def slot_ok_def)

subsection \<open>Running an operation on one client\<close>

named_theorems world_simps \<open>operations on a world whose client is known\<close>

lemma with_client_put [world_simps]: "with_client c k (put_client c cl w) = k cl (put_client c cl w)"
  by (simp add: with_client_def)

lemma with_bev_put [world_simps]:
  "with_bev c s k (put_client c cl w) =
   (case bev_of s cl of None \<Rightarrow> set_fault Null_pointer (put_client c cl w) | Some b \<Rightarrow> k b (put_client c cl w))"
  by (simp add: with_bev_def with_client_put)

lemma put_bev_put [world_simps]: "put_bev c s b (put_client c cl w) = put_client c (set_bev s b cl) w"
  by (simp add: put_bev_def with_client_put)

lemma touch_put [world_simps]:
  "redsocks_touch_client e c (put_client c cl w) = put_client c (cl\<lparr> last_event := env_time e \<rparr>) w"
  by (simp add: redsocks_touch_client_def with_client_put)

lemma upd_instance_put [world_simps]:
  "upd_instance i f (put_client c cl w) = put_client c cl (upd_instance i f w)"
  by (simp add: upd_instance_def put_client_def)

lemma with_instance_put [world_simps]:
  "with_instance i k (put_client c cl w) =
   (case map_of (instances w) i of
      None \<Rightarrow> set_fault Use_after_free (put_client c cl w) | Some x \<Rightarrow> k x (put_client c cl w))"
  by (simp add: with_instance_def)

lemma bev_of_set [simp]:
  "bev_of s (set_bev s b cl) = b" "bev_of (other s) (set_bev s b cl) = bev_of (other s) cl"
  "bev_of s (set_bev (other s) b cl) = bev_of s cl"
  "bev_of s (set_evshut t v cl) = bev_of s cl"
  by (cases s; cases t; simp)+

subsection \<open>Changes to the instances\<close>

definition benign :: "(redsocks_instance \<Rightarrow> redsocks_instance) \<Rightarrow> bool" where
  "benign f \<longleftrightarrow> (\<forall>x. tev_fd (listener (f x)) = tev_fd (listener x) \<and> config (f x) = config x
     \<and> inst_clients (f x) = inst_clients x \<and> (inst_ok x \<longrightarrow> inst_ok (f x)))"

lemma benign_id [simp]: "benign (\<lambda>x. x)"
  by (simp add: benign_def)

lemma upd_instance_simps [simp]:
  "clients (upd_instance i f w) = clients w" "open_fds (upd_instance i f w) = open_fds w"
  "world_fault (upd_instance i f w) = world_fault w"
  "no_fault (upd_instance i f w) = no_fault w" "fds_of (upd_instance i f w) = fds_of w"
  by (simp_all add: upd_instance_def no_fault_def fds_of_def [abs_def])

lemma instances_upd: "instances (upd_instance i f w) = map (\<lambda>(k, x). (k, if k = i then f x else x)) (instances w)"
  by (simp add: upd_instance_def)

lemma map_of_upd:
  "map_of (instances (upd_instance i f w)) j = map_option (\<lambda>x. if j = i then f x else x) (map_of (instances w) j)"
proof -
  have "map_of (map (\<lambda>(k, x). (k, if k = i then f x else x)) xs) j
    = map_option (\<lambda>x. if j = i then f x else x) (map_of xs j)" for xs
    by (induction xs) auto
  then show ?thesis by (simp add: instances_upd)
qed

lemma mem_upd:
  "(j, y) \<in> set (instances (upd_instance i f w)) \<longleftrightarrow>
   (\<exists>x. (j, x) \<in> set (instances w) \<and> y = (if j = i then f x else x))"
  unfolding instances_upd set_map image_iff by force

lemma keys_upd: "map fst (instances (upd_instance i f w)) = map fst (instances w)"
  by (simp add: instances_upd split_beta comp_def)

lemma benign_frame:
  assumes "benign f"
  shows "listen_fds (upd_instance i f w) = listen_fds w" "listed (upd_instance i f w) = listed w"
    "client_in w c cl \<Longrightarrow> client_in (upd_instance i f w) c cl"
    "insts_ok w \<Longrightarrow> insts_ok (upd_instance i f w)"
proof -
  have f: "tev_fd (listener (f x)) = tev_fd (listener x)" "config (f x) = config x"
    "inst_clients (f x) = inst_clients x" "inst_ok x \<Longrightarrow> inst_ok (f x)" for x
    using assms by (auto simp: benign_def)
  have "(\<exists>y. (j, y) \<in> set (instances (upd_instance i f w)) \<and> tev_fd (listener y) = Some fd) \<longleftrightarrow>
    (\<exists>x. (j, x) \<in> set (instances w) \<and> tev_fd (listener x) = Some fd)" for j fd
    by (metis (no_types, lifting) mem_upd f(1))
  then show "listen_fds (upd_instance i f w) = listen_fds w"
    unfolding listen_fds_def by simp
  show l: "listed (upd_instance i f w) = listed w"
    by (intro ext) (metis (no_types, lifting) listed_def mem_upd f(3))
  show "client_in (upd_instance i f w) c cl" if a: "client_in w c cl"
  proof -
    obtain x where x: "map_of (instances w) (instance_of cl) = Some x" "cred_ok x cl"
      using a by (auto simp: client_in_def)
    then have "map_of (instances (upd_instance i f w)) (instance_of cl) = Some (if instance_of cl = i then f x else x)"
      "cred_ok (if instance_of cl = i then f x else x) cl"
      by (simp_all add: map_of_upd cred_ok_def f)
    then show ?thesis using a unfolding client_in_def l by blast
  qed
  show "insts_ok w \<Longrightarrow> insts_ok (upd_instance i f w)"
    unfolding insts_ok_def keys_upd mem_upd by (elim conjE, intro conjI) (assumption, metis f(3,4), metis f(1))
qed

lemma rest_ok_benign:
  assumes "benign f" "rest_ok c F w"
  shows "rest_ok c F (upd_instance i f w)"
proof -
  have "slot_ok w d \<Longrightarrow> slot_ok (upd_instance i f w) d" for d
    using benign_frame [OF assms(1)] by (auto simp: slot_ok_def split: option.splits)
  with assms benign_frame [OF assms(1)] show ?thesis by (simp add: rest_ok_def)
qed

subsection \<open>Closing and dropping\<close>

lemma benign_backoff:
  "benign (\<lambda>x. x\<lparr> accept_backoff := tracked_event_del e (accept_backoff x),
                   listener := tracked_event_add e (listener x) \<rparr>)"
  by (simp add: benign_def inst_ok_def tracked_event_add_def tracked_event_del_def)

text \<open>Closing removes the descriptor and at most restarts a listener that was backing off.\<close>

lemma close_cases:
  assumes "fd \<in> set (open_fds w)"
  obtains i f where "benign f" "redsocks_close e fd w = upd_instance i f (w\<lparr> open_fds := remove1 fd (open_fds w) \<rparr>)"
proof -
  let ?w = "w\<lparr> open_fds := remove1 fd (open_fds w) \<rparr>"
  have "upd_instance 0 (\<lambda>x. x) ?w = ?w" by (simp add: upd_instance_def)
  with assms benign_backoff that show thesis
    by (cases "close_ok e fd"; cases "first_backoff e (instances ?w)")
       (simp add: redsocks_close_def redsocks_accept_backoff_def; metis benign_id)+
qed

lemma rest_ok_open:
  "rest_ok c F (w\<lparr> open_fds := fds \<rparr>) \<longleftrightarrow>
   no_fault w \<and> insts_ok w \<and> distinct fds
    \<and> set fds = F \<union> (\<Union>d \<in> - {c}. fds_of w d) \<union> listen_fds w
    \<and> F \<inter> listen_fds w = {} \<and> (\<forall>d. d \<noteq> c \<longrightarrow> fds_of w d \<inter> listen_fds w = {})
    \<and> (\<forall>d. d \<noteq> c \<longrightarrow> F \<inter> fds_of w d = {})
    \<and> (\<forall>d d'. d \<noteq> c \<longrightarrow> d' \<noteq> c \<longrightarrow> d \<noteq> d' \<longrightarrow> fds_of w d \<inter> fds_of w d' = {})
    \<and> (\<forall>d. d \<noteq> c \<longrightarrow> slot_ok w d)"
proof -
  have "slot_ok (w\<lparr> open_fds := fds \<rparr>) d = slot_ok w d" for d
    by (simp add: slot_ok_def listed_def client_in_def split: option.split)
  then show ?thesis
    by (simp add: rest_ok_def no_fault_def insts_ok_def fds_of_def listen_fds_def)
qed

lemma rest_ok_close:
  assumes "rest_ok c F w" "fd \<in> F"
  shows "rest_ok c (F - {fd}) (redsocks_close e fd w)"
proof -
  have "fd \<in> set (open_fds w)" using assms by (auto simp: rest_ok_def)
  then obtain i f where f: "benign f"
    "redsocks_close e fd w = upd_instance i f (w\<lparr> open_fds := remove1 fd (open_fds w) \<rparr>)"
    by (rule close_cases)
  have "rest_ok c (F - {fd}) (w\<lparr> open_fds := remove1 fd (open_fds w) \<rparr>)"
    using assms unfolding rest_ok_open by (auto simp: rest_ok_def)
  with f show ?thesis by (simp add: rest_ok_benign)
qed

lemma close_frame:
  assumes "fd \<in> set (open_fds w)"
  shows "clients (redsocks_close e fd w) = clients w" "listed (redsocks_close e fd w) = listed w"
    "map fst (instances (redsocks_close e fd w)) = map fst (instances w)"
    "client_in w c cl \<Longrightarrow> client_in (redsocks_close e fd w) c cl"
    "set (open_fds (redsocks_close e fd w)) \<subseteq> set (open_fds w)"
proof -
  obtain i f where f: "benign f"
    "redsocks_close e fd w = upd_instance i f (w\<lparr> open_fds := remove1 fd (open_fds w) \<rparr>)"
    by (rule close_cases [OF assms])
  let ?w = "w\<lparr> open_fds := remove1 fd (open_fds w) \<rparr>"
  have "listed ?w = listed w" "client_in ?w c cl = client_in w c cl"
    by (simp_all add: listed_def [abs_def] client_in_def)
  with benign_frame [OF f(1), where i = i and w = ?w] f(2) show
    "clients (redsocks_close e fd w) = clients w" "listed (redsocks_close e fd w) = listed w"
    "map fst (instances (redsocks_close e fd w)) = map fst (instances w)"
    "client_in w c cl \<Longrightarrow> client_in (redsocks_close e fd w) c cl"
    "set (open_fds (redsocks_close e fd w)) \<subseteq> set (open_fds w)"
    by (simp_all add: keys_upd set_remove1_subset)
qed

text \<open>Putting the client on a list of clients or taking it off\<close>

definition relists :: "nat \<Rightarrow> (redsocks_instance \<Rightarrow> redsocks_instance) \<Rightarrow> world \<Rightarrow> bool" where
  "relists c f w \<longleftrightarrow> (\<forall>i x. (i, x) \<in> set (instances w) \<longrightarrow>
     tev_fd (listener (f x)) = tev_fd (listener x) \<and> config (f x) = config x
     \<and> (inst_ok x \<longrightarrow> inst_ok (f x)) \<and> (distinct (inst_clients x) \<longrightarrow> distinct (inst_clients (f x)))
     \<and> set (inst_clients (f x)) - {c} = set (inst_clients x) - {c})"

lemma relists_frame:
  assumes "relists c f w"
  shows "listen_fds (upd_instance i f w) = listen_fds w" "d \<noteq> c \<Longrightarrow> listed (upd_instance i f w) d j = listed w d j"
    "d \<noteq> c \<Longrightarrow> slot_ok w d \<Longrightarrow> slot_ok (upd_instance i f w) d"
    "insts_ok w \<Longrightarrow> insts_ok (upd_instance i f w)"
proof -
  have f: "tev_fd (listener (f x)) = tev_fd (listener x)" "config (f x) = config x" "inst_ok x \<Longrightarrow> inst_ok (f x)"
    "distinct (inst_clients x) \<Longrightarrow> distinct (inst_clients (f x))"
    "d \<noteq> c \<Longrightarrow> d \<in> set (inst_clients (f x)) \<longleftrightarrow> d \<in> set (inst_clients x)"
    if m: "(k, x) \<in> set (instances w)" for k x d
  proof -
    note r = assms [unfolded relists_def, rule_format, OF m]
    show "tev_fd (listener (f x)) = tev_fd (listener x)" "config (f x) = config x" "inst_ok x \<Longrightarrow> inst_ok (f x)"
      "distinct (inst_clients x) \<Longrightarrow> distinct (inst_clients (f x))" using r by simp_all
    have "set (inst_clients (f x)) - {c} = set (inst_clients x) - {c}" using r by simp
    then show "d \<noteq> c \<Longrightarrow> d \<in> set (inst_clients (f x)) \<longleftrightarrow> d \<in> set (inst_clients x)"
      by (metis Diff_iff singletonD)
  qed
  have "(\<exists>y. (j, y) \<in> set (instances (upd_instance i f w)) \<and> tev_fd (listener y) = Some fd) \<longleftrightarrow>
    (\<exists>x. (j, x) \<in> set (instances w) \<and> tev_fd (listener x) = Some fd)" for j fd
    by (metis (no_types, lifting) mem_upd f(1))
  then show "listen_fds (upd_instance i f w) = listen_fds w"
    unfolding listen_fds_def by simp
  show l: "listed (upd_instance i f w) d j = listed w d j" if n: "d \<noteq> c" for d j
  proof
    assume "listed (upd_instance i f w) d j"
    then obtain x where x: "(j, x) \<in> set (instances w)" "d \<in> set (inst_clients (if j = i then f x else x))"
      unfolding listed_def mem_upd by blast
    with f(5) [OF x(1) n] show "listed w d j" unfolding listed_def by (auto split: if_splits)
  next
    assume "listed w d j"
    then obtain x where x: "(j, x) \<in> set (instances w)" "d \<in> set (inst_clients x)"
      unfolding listed_def by blast
    with f(5) [OF x(1) n] have "d \<in> set (inst_clients (if j = i then f x else x))" by simp
    with x(1) show "listed (upd_instance i f w) d j" unfolding listed_def mem_upd by blast
  qed
  show "slot_ok (upd_instance i f w) d" if a: "d \<noteq> c" "slot_ok w d"
  proof (cases "clients w d")
    case None
    with a l show ?thesis by (simp add: slot_ok_def)
  next
    case (Some cl)
    with a obtain x where x: "map_of (instances w) (instance_of cl) = Some x" "cred_ok x cl"
      by (auto simp: client_in_def slot_ok_def)
    then have "map_of (instances (upd_instance i f w)) (instance_of cl) = Some (if instance_of cl = i then f x else x)"
      "cred_ok (if instance_of cl = i then f x else x) cl"
      using f(2) [OF map_of_SomeD [OF x(1)]] by (simp_all add: map_of_upd cred_ok_def)
    with a l Some show ?thesis unfolding slot_ok_def client_in_def by simp
  qed
  show "insts_ok w \<Longrightarrow> insts_ok (upd_instance i f w)"
    unfolding insts_ok_def keys_upd mem_upd by (elim conjE, intro conjI) (assumption, metis f(3,4), metis f(1))
qed

lemma rest_ok_relists:
  assumes "relists c f w" "rest_ok c F w"
  shows "rest_ok c F (upd_instance i f w)"
  using assms relists_frame [OF assms(1)] by (simp add: rest_ok_def)

lemma set_remove1_other: "set (remove1 c xs) - {c} = set xs - {c}"
  by (induction xs) auto

lemma relists_remove: "relists c (\<lambda>x. x\<lparr> inst_clients := remove1 c (inst_clients x) \<rparr>) w"
  by (simp add: relists_def inst_ok_def set_remove1_other)

lemma rest_ok_del: "rest_ok c F (w\<lparr> clients := (clients w)(c := None) \<rparr>) \<longleftrightarrow> rest_ok c F w"
proof -
  let ?w = "w\<lparr> clients := (clients w)(c := None) \<rparr>"
  have "(\<Union>d \<in> - {c}. fds_of ?w d) = (\<Union>d \<in> - {c}. fds_of w d)"
    by (rule SUP_cong) (simp_all add: fds_of_def)
  moreover have "d \<noteq> c \<Longrightarrow> fds_of ?w d = fds_of w d" "d \<noteq> c \<Longrightarrow> slot_ok ?w d = slot_ok w d" for d
    by (simp_all add: fds_of_def slot_ok_def listed_def client_in_def split: option.split)
  ultimately show ?thesis by (simp add: rest_ok_def no_fault_def insts_ok_def listen_fds_def)
qed

lemma close_bev_ok:
  assumes "rest_ok c F w" "bev_fds b \<subseteq> F"
  shows "rest_ok c (F - bev_fds b) (close_bev e b w)" "clients (close_bev e b w) = clients w"
    "listed (close_bev e b w) = listed w" "map fst (instances (close_bev e b w)) = map fst (instances w)"
proof -
  have "bev_fds b \<subseteq> set (open_fds w)" using assms by (auto simp: rest_ok_def)
  then show "rest_ok c (F - bev_fds b) (close_bev e b w)" "clients (close_bev e b w) = clients w"
    "listed (close_bev e b w) = listed w" "map fst (instances (close_bev e b w)) = map fst (instances w)"
    using assms close_frame rest_ok_close by (cases b; simp add: close_bev_def bev_fds_def)+
qed

lemma drop_ok:
  assumes r: "rest_ok c (cfds cl) w" and i: "map_of (instances w) (instance_of cl) \<noteq> None"
    and l: "\<And>i. listed w c i \<Longrightarrow> i = instance_of cl"
    and d: "bev_fds (c_client cl) \<inter> bev_fds (c_relay cl) = {}"
  shows "world_ok (redsocks_drop_client e c (put_client c cl w))"
    and "clients (redsocks_drop_client e c (put_client c cl w)) = (clients w)(c := None)"
proof -
  let ?w = "put_client c cl w" and ?f = "\<lambda>x. x\<lparr> inst_clients := remove1 c (inst_clients x) \<rparr>"
  define w1 where "w1 = close_bev e (c_client cl) ?w"
  define w2 where "w2 = close_bev e (c_relay cl) w1"
  define w3 where "w3 = upd_instance (instance_of cl) ?f w2"
  have e: "redsocks_drop_client e c ?w = w3\<lparr> clients := (clients w3)(c := None) \<rparr>"
    using i by (auto simp: redsocks_drop_client_def world_simps Let_def w1_def w2_def w3_def)
  have c1: "rest_ok c (cfds cl - bev_fds (c_client cl)) w1" "clients w1 = clients ?w" "listed w1 = listed w"
    using close_bev_ok [of c "cfds cl" ?w "c_client cl" e] r by (auto simp: w1_def cfds_def)
  have "cfds cl - bev_fds (c_client cl) = bev_fds (c_relay cl)" using d by (auto simp: cfds_def)
  with c1 close_bev_ok [of c "bev_fds (c_relay cl)" w1 "c_relay cl" e]
  have c2: "rest_ok c {} w2" "clients w2 = clients ?w" "listed w2 = listed w" by (auto simp: w2_def)
  have c3: "rest_ok c {} w3" "clients w3 = clients ?w"
    using rest_ok_relists [OF relists_remove c2(1)] c2(2) by (simp_all add: w3_def)
  have "\<not> listed w3 c j" for j
  proof
    assume "listed w3 c j"
    then obtain x where x: "(j, x) \<in> set (instances w2)" "c \<in> set (inst_clients (if j = instance_of cl then ?f x else x))"
      unfolding listed_def w3_def mem_upd by blast
    moreover have "set (inst_clients (if j = instance_of cl then ?f x else x)) \<subseteq> set (inst_clients x)"
      by (simp add: set_remove1_subset)
    ultimately have "listed w2 c j" unfolding listed_def by blast
    then have "j = instance_of cl" using l c2(3) by simp
    moreover have "distinct (inst_clients x)" using c2(1) x(1) by (auto simp: rest_ok_def insts_ok_def)
    ultimately show False using x by simp
  qed
  moreover have "listed (w3\<lparr> clients := (clients w3)(c := None) \<rparr>) = listed w3" by (simp add: listed_def [abs_def])
  ultimately show "world_ok (redsocks_drop_client e c ?w)"
    unfolding e by (subst world_ok_none [of _ c]) (simp_all add: rest_ok_del c3(1))
  show "clients (redsocks_drop_client e c ?w) = (clients w)(c := None)"
    unfolding e using c3(2) by (simp add: put_client_def)
qed

subsection \<open>Rules for the operations\<close>

text \<open>
  \<open>valid c cl w\<close>: the client \<open>c\<close>, once its state is \<open>cl\<close>, owns its descriptors and everything
  else in \<open>w\<close> is in order. An operation ends by storing a good state or by dropping the client.
\<close>

definition valid :: "nat \<Rightarrow> redsocks_client \<Rightarrow> world \<Rightarrow> bool" where
  "valid c cl w \<longleftrightarrow>
    rest_ok c (cfds cl) w \<and> client_in w c cl \<and> bev_fds (c_client cl) \<inter> bev_fds (c_relay cl) = {}"

definition similar :: "redsocks_client \<Rightarrow> redsocks_client \<Rightarrow> bool" where
  "similar cl cl' \<longleftrightarrow>
    bev_fds (c_client cl') = bev_fds (c_client cl) \<and> bev_fds (c_relay cl') = bev_fds (c_relay cl)
    \<and> instance_of cl' = instance_of cl \<and> do_password (socks5 cl') = do_password (socks5 cl)"

lemma valid_similar: "valid c cl w \<Longrightarrow> similar cl cl' \<Longrightarrow> valid c cl' w"
  by (simp add: valid_def similar_def cfds_def client_in_def cred_ok_def)

lemma similar_trans: "similar a b \<Longrightarrow> similar b d \<Longrightarrow> similar a d"
  by (simp add: similar_def)

lemma valid_drop: "valid c cl w \<Longrightarrow> world_ok (redsocks_drop_client e c (put_client c cl w))"
  by (rule drop_ok) (auto simp: valid_def client_in_def)

lemma valid_done: "valid c cl w \<Longrightarrow> client_ok cl \<Longrightarrow> world_ok (put_client c cl w)"
  by (simp add: valid_def world_ok_put)

lemma valid_benign: "valid c cl w \<Longrightarrow> benign f \<Longrightarrow> valid c cl (upd_instance i f w)"
  by (simp add: valid_def rest_ok_benign benign_frame)

lemma client_ok_bevs:
  assumes "phase_ok cl"
  obtains b r where "c_client cl = Some b" "c_relay cl = Some r" "bev_fd b \<noteq> bev_fd r"
  using assms by (auto simp: phase_ok_def split: option.splits)

lemma world_valid:
  assumes "world_ok w" "clients w c = Some cl"
  shows "valid c cl w" "client_ok cl" "put_client c cl w = w"
proof -
  from world_ok_client [OF assms] have r: "rest_ok c (cfds cl) w" "client_ok cl" "client_in w c cl" by auto
  then obtain b r where "c_client cl = Some b" "c_relay cl = Some r" "bev_fd b \<noteq> bev_fd r"
    using client_ok_bevs by (auto simp: client_ok_def)
  with r show "valid c cl w" by (simp add: valid_def bev_fds_def)
qed (use assms world_ok_client put_client_self in auto)

lemma similar_set_bev: "bev_of s cl = Some b \<Longrightarrow> bev_fd b' = bev_fd b \<Longrightarrow> similar cl (set_bev s (Some b') cl)"
  by (cases s) (simp_all add: similar_def bev_fds_def)

lemma similar_simps [simp]:
  "similar cl cl" "similar cl (cl'\<lparr> last_event := t \<rparr>) = similar cl cl'"
  "similar cl (cl'\<lparr> c_state := st \<rparr>) = similar cl cl'"
  by (simp_all add: similar_def)

lemma similar_evshut [simp]: "similar cl (set_evshut s v cl') = similar cl cl'"
  by (cases s) (simp_all add: similar_def)

lemma phase_ok_bev:
  "phase_ok cl \<Longrightarrow> bev_of s cl = Some b \<Longrightarrow> bev_fd b' = bev_fd b \<Longrightarrow> readcb b' = readcb b \<Longrightarrow>
   writecb b' = writecb b \<Longrightarrow> phase_ok (set_bev s (Some b') cl)"
  by (cases s) (auto simp: phase_ok_def connecting_def talking_def relaying_def split: option.splits)

lemma phase_ok_touch [simp]: "phase_ok (cl\<lparr> last_event := t \<rparr>) = phase_ok cl"
  by (simp add: phase_ok_def connecting_def split: option.split)

lemma phase_ok_evshut [simp]: "phase_ok (set_evshut s v cl) = phase_ok cl"
  by (cases s) (simp_all add: phase_ok_def connecting_def split: option.split)

lemma evshut_ok_simps [simp]:
  "evshut_ok (cl\<lparr> last_event := t \<rparr>) = evshut_ok cl" "evshut_ok (cl\<lparr> c_state := st \<rparr>) = evshut_ok cl"
  by (simp_all add: evshut_ok_def)

lemma evshut_ok_bev [simp]: "evshut_ok (set_bev s b cl) = evshut_ok cl"
  by (cases s) (simp_all add: evshut_ok_def)

lemma side_simps [simp]:
  "evshut s (set_evshut s v cl) = v" "evshut s (set_bev t b cl) = evshut s cl"
  "evshut s (set_evshut (other s) v cl) = evshut s cl" "evshut (other s) (set_evshut s v cl) = evshut (other s) cl"
  "bev_of s (cl\<lparr> last_event := t' \<rparr>) = bev_of s cl" "evshut s (cl\<lparr> last_event := t' \<rparr>) = evshut s cl"
  "other (other s) = s"
  by (cases s; cases t; simp)+

text \<open>The flags of the two sides\<close>

definition shut_ok :: "u16 \<Rightarrow> u16 \<Rightarrow> bool" where
  "shut_ok a b \<longleftrightarrow> a \<in> {0, 2, 4, 6} \<and> b \<in> {0, 2, 4, 6} \<and> (a AND 4 \<noteq> 0 \<longrightarrow> b AND 2 \<noteq> 0)
     \<and> (b AND 4 \<noteq> 0 \<longrightarrow> a AND 2 \<noteq> 0) \<and> \<not> (a = 6 \<and> b = 6)"

lemma evshut_ok_side: "evshut_ok cl \<longleftrightarrow> shut_ok (evshut s cl) (evshut (other s) cl)"
  by (cases s) (auto simp: evshut_ok_def shut_ok_def evshut_vals_def EV_READ_def EV_WRITE_def)

lemma shut_ok_read: "shut_ok a b \<Longrightarrow> shut_ok (a OR 2) b \<and> (a OR 2) AND 2 \<noteq> 0"
  by (auto simp: shut_ok_def)

lemma shut_ok_write: "shut_ok a b \<Longrightarrow> a AND 2 \<noteq> 0 \<Longrightarrow> shut_ok a (b OR 4) \<or> a = 6 \<and> b OR 4 = 6"
  by (auto simp: shut_ok_def)

definition shut_client :: "env \<Rightarrow> side \<Rightarrow> shut_how \<Rightarrow> bev \<Rightarrow> redsocks_client \<Rightarrow> redsocks_client" where
  "shut_client e s how b cl =
    set_evshut s (evshut s cl OR evhow how) (set_bev s (Some (snd (bufferevent_disable e (evhow how) b))) cl)"

lemma valid_open: "valid c cl w \<Longrightarrow> bev_of s cl = Some b \<Longrightarrow> bev_fd b \<in> set (open_fds w)"
  by (cases s) (auto simp: valid_def rest_ok_def cfds_def bev_fds_def)

lemma both_sides: "relay_evshut cl = x \<and> client_evshut cl = x \<longleftrightarrow> evshut s cl = x \<and> evshut (other s) cl = x"
  by (cases s) auto

lemma shutdown_put:
  assumes "valid c cl w" "bev_of s cl = Some b"
  shows "redsocks_shutdown e c s how (put_client c cl w) =
    (let cl' = shut_client e s how b cl
     in if evshut s cl' = 6 \<and> evshut (other s) cl' = 6
        then redsocks_drop_client e c (put_client c cl' w) else put_client c cl' w)"
  using valid_open [OF assms] assms(2)
  by (simp add: redsocks_shutdown_def world_simps both_sides [of _ _ s] shut_client_def Let_def
      EV_READ_def EV_WRITE_def)

lemma shut_client_frame:
  assumes "bev_of s cl = Some b"
  shows "similar cl (shut_client e s how b cl)" "phase_ok cl \<Longrightarrow> phase_ok (shut_client e s how b cl)"
    "evshut s (shut_client e s how b cl) = evshut s cl OR evhow how"
    "evshut (other s) (shut_client e s how b cl) = evshut (other s) cl"
    "bev_of (other s) (shut_client e s how b cl) = bev_of (other s) cl"
    "evshut_ok (shut_client e s how b cl) = shut_ok (evshut s cl OR evhow how) (evshut (other s) cl)"
  using assms similar_set_bev [OF assms] phase_ok_bev [OF _ assms]
  by (simp_all add: shut_client_def evshut_ok_side [of _ s])

text \<open>Shutting a side for reading keeps the client; shutting the other for writing may end it.\<close>

lemma shutdown_write_ok:
  assumes v: "valid c cl w" and o: "client_ok cl" and b: "bev_of s cl = Some b"
    and rd: "evshut (other s) cl AND EV_READ \<noteq> 0"
  shows "world_ok (redsocks_shutdown e c s SHUT_WR (put_client c cl w))"
proof -
  note f = shut_client_frame [OF b, of e SHUT_WR]
  let ?cl = "shut_client e s SHUT_WR b cl"
  have v': "valid c ?cl w" using valid_similar [OF v f(1)] .
  have "shut_ok (evshut (other s) cl) (evshut s cl)"
    using o evshut_ok_side [of cl "other s"] by (simp add: client_ok_def)
  from shut_ok_write [OF this] rd
  have "shut_ok (evshut s cl OR 4) (evshut (other s) cl) \<or> evshut s ?cl = 6 \<and> evshut (other s) ?cl = 6"
    by (auto simp: f EV_READ_def EV_WRITE_def shut_ok_def)
  then show ?thesis
    unfolding shutdown_put [OF v b] Let_def
    using valid_drop [OF v'] valid_done [OF v'] f o by (auto simp: client_ok_def EV_WRITE_def)
qed

lemma shutdown_read_ok:
  assumes v: "valid c cl w" and o: "client_ok cl" and b: "bev_of s cl = Some b"
  shows "redsocks_shutdown e c s SHUT_RD (put_client c cl w) = put_client c (shut_client e s SHUT_RD b cl) w"
    "client_ok (shut_client e s SHUT_RD b cl)"
proof -
  note f = shut_client_frame [OF b, of e SHUT_RD]
  have "shut_ok (evshut s cl) (evshut (other s) cl)"
    using o evshut_ok_side [of cl s] by (simp add: client_ok_def)
  from shut_ok_read [OF this] have s: "shut_ok (evshut s cl OR 2) (evshut (other s) cl)" by simp
  then show "client_ok (shut_client e s SHUT_RD b cl)" using f o by (simp add: client_ok_def EV_READ_def)
  from s have "\<not> (evshut s cl OR 2 = 6 \<and> evshut (other s) cl = 6)" by (auto simp: shut_ok_def)
  then show "redsocks_shutdown e c s SHUT_RD (put_client c cl w) = put_client c (shut_client e s SHUT_RD b cl) w"
    unfolding shutdown_put [OF v b] Let_def f by (simp only: evhow.simps EV_READ_def if_False)
qed

lemma bev_of_phase: "phase_ok cl \<Longrightarrow> \<exists>b. bev_of s cl = Some b"
  by (cases s) (auto elim: client_ok_bevs)

lemma touch_ok:
  "valid c cl w \<Longrightarrow> valid c (cl\<lparr> last_event := t \<rparr>) w" "client_ok cl \<Longrightarrow> client_ok (cl\<lparr> last_event := t \<rparr>)"
  by (auto elim: valid_similar simp: client_ok_def)

lemma event_error_ok:
  assumes v0: "valid c cl0 w" and o0: "client_ok cl0"
  shows "world_ok (redsocks_event_error e c s what (put_client c cl0 w))"
proof (cases "what = BEV_EVENT_READING OR BEV_EVENT_EOF")
  case True
  define cl where "cl = cl0\<lparr> last_event := env_time e \<rparr>"
  have v: "valid c cl w" and o: "client_ok cl" using touch_ok v0 o0 by (auto simp: cl_def)
  obtain b a where b: "bev_of s cl = Some b" "bev_of (other s) cl = Some a"
    using o bev_of_phase by (meson client_ok_def)
  let ?cl = "shut_client e s SHUT_RD b cl"
  note f = shut_client_frame [OF b(1), of e SHUT_RD]
  note r = shutdown_read_ok [OF v o b(1), of e]
  have v': "valid c ?cl w" using valid_similar [OF v f(1)] .
  have "redsocks_event_error e c s what (put_client c cl0 w) =
    (if bev_output a = [] then redsocks_shutdown e c (other s) SHUT_WR (put_client c ?cl w) else put_client c ?cl w)"
    using True b by (simp add: redsocks_event_error_def world_simps cl_def [symmetric] r(1) f)
  moreover have "evshut (other (other s)) ?cl AND EV_READ \<noteq> 0"
    using shut_ok_read [of "evshut s cl" "evshut (other s) cl"] o evshut_ok_side [of cl s]
    by (simp add: f EV_READ_def client_ok_def)
  note shutdown_write_ok [OF v' r(2) _ this]
  ultimately show ?thesis using valid_done [OF v' r(2)] b(2) by (simp add: f)
next
  case False
  then show ?thesis
    using valid_drop [OF touch_ok(1) [OF v0]] by (simp add: redsocks_event_error_def world_simps)
qed

subsection \<open>Relaying keeps the invariant\<close>

lemma set_bev_same [simp]: "set_bev s a (set_bev s b cl) = set_bev s a cl"
  by (cases s) simp_all

lemma similar_set_bev2:
  assumes "bev_of (other s) cl = Some t" "bev_of s cl = Some f" "bev_fd t' = bev_fd t" "bev_fd f' = bev_fd f"
  shows "similar cl (set_bev (other s) (Some t') (set_bev s (Some f') cl))"
  using assms by (cases s) (simp_all add: similar_def bev_fds_def)

lemma phase_ok_bev2:
  assumes "phase_ok cl" "bev_of (other s) cl = Some t" "bev_of s cl = Some f"
    "bev_fd t' = bev_fd t" "bev_fd f' = bev_fd f" "readcb t' = readcb t" "readcb f' = readcb f"
    "writecb t' = writecb t" "writecb f' = writecb f"
  shows "phase_ok (set_bev (other s) (Some t') (set_bev s (Some f') cl))"
  using assms by (intro phase_ok_bev) auto

lemma client_ok_bev:
  "client_ok cl \<Longrightarrow> bev_of s cl = Some b \<Longrightarrow> bev_fd b' = bev_fd b \<Longrightarrow> readcb b' = readcb b \<Longrightarrow>
   writecb b' = writecb b \<Longrightarrow> client_ok (set_bev s (Some b') cl)"
  by (simp add: client_ok_def phase_ok_bev)

lemma relay_move_put:
  "relay_move e c from f t (put_client c cl w) =
   put_client c (set_bev (other from) (Some (fst (bufferevent_write_buffer e (bev_input f) t)))
     (set_bev from (Some (f\<lparr> bev_input := [] \<rparr>)) cl)) w"
  by (simp add: relay_move_def world_simps split_beta)

lemma relay_readcb_ok:
  assumes v: "valid c cl w" and o: "client_ok cl"
  shows "world_ok (redsocks_relay_readcb e c from (put_client c cl w))"
proof -
  obtain f t where b: "bev_of from cl = Some f" "bev_of (other from) cl = Some t"
    using o bev_of_phase by (meson client_ok_def)
  note m = similar_set_bev2 [OF b(2,1)] phase_ok_bev2 [OF _ b(2,1)]
  show ?thesis
  proof (cases "length (bev_output t) < wm_write_high t")
    case True
    with b m o show ?thesis
      by (simp add: redsocks_relay_readcb_def world_simps relay_move_put)
         (auto intro!: valid_done [OF valid_similar [OF v]] simp: client_ok_def)
  next
    case False
    with b similar_set_bev [OF b(1)] client_ok_bev [OF o b(1)] show ?thesis
      by (simp add: redsocks_relay_readcb_def world_simps)
         (auto intro!: valid_done [OF valid_similar [OF v]])
  qed
qed

lemma relay_writecb_ok:
  assumes v: "valid c cl w" and o: "client_ok cl"
  shows "world_ok (redsocks_relay_writecb e c from (put_client c cl w))"
proof -
  obtain f t where b: "bev_of from cl = Some f" "bev_of (other from) cl = Some t"
    using o bev_of_phase by (meson client_ok_def)
  note m = similar_set_bev2 [OF b(2,1)] phase_ok_bev2 [OF _ b(2,1)]
  consider "bev_input f = [] \<and> evshut from cl AND EV_READ \<noteq> 0"
    | "\<not> (bev_input f = [] \<and> evshut from cl AND EV_READ \<noteq> 0)" "length (bev_output t) < wm_write_high t"
    | "\<not> (bev_input f = [] \<and> evshut from cl AND EV_READ \<noteq> 0)" "\<not> length (bev_output t) < wm_write_high t"
    by blast
  then show ?thesis
  proof cases
    case 1
    with b shutdown_write_ok [OF v o b(2)] show ?thesis
      by (simp add: redsocks_relay_writecb_def world_simps)
  next
    case 2
    let ?t = "fst (bufferevent_write_buffer e (bev_input f) t)"
      and ?f = "snd (bufferevent_enable e EV_READ (f\<lparr> bev_input := [] \<rparr>))"
    have s: "set_bev from x (set_bev (other from) y (set_bev from z cl)) = set_bev (other from) y (set_bev from x cl)" for x y z
      by (cases "from") simp_all
    have "redsocks_relay_writecb e c from (put_client c cl w) =
      put_client c (set_bev (other from) (Some ?t) (set_bev from (Some ?f) cl)) w"
      using 2 b by (auto simp: redsocks_relay_writecb_def world_simps relay_move_put s)
    moreover have "client_ok (set_bev (other from) (Some ?t) (set_bev from (Some ?f) cl))"
      using m(2) [of ?t ?f] o by (simp add: client_ok_def)
    ultimately show ?thesis using valid_done [OF valid_similar [OF v m(1)], of ?t ?f] by simp
  next
    case 3
    with b valid_done [OF v o] show ?thesis
      by (auto simp: redsocks_relay_writecb_def world_simps)
  qed
qed

text \<open>Relaying can be started whatever the callbacks were.\<close>

lemma start_relay_ok:
  assumes v: "valid c cl w" and s: "evshut_ok cl" and b: "c_client cl = Some b" "c_relay cl = Some r"
  shows "world_ok (redsocks_start_relay e c (put_client c cl w))"
proof -
  define b1 where "b1 = relay_bev Relay_clientreadcb Relay_clientwritecb b"
  define r1 where "r1 = relay_bev Relay_relayreadcb Relay_relaywritecb r"
  obtain ok b2 where e1: "bufferevent_enable e (EV_READ OR EV_WRITE) b1 = (ok, b2)" by fastforce
  obtain ok' r2 where e2: "(if ok then bufferevent_enable e (EV_READ OR EV_WRITE) r1 else (False, r1)) = (ok', r2)"
    by fastforce
  have f: "bev_fd b2 = bev_fd b" "readcb b2 = Some Relay_clientreadcb" "writecb b2 = Some Relay_clientwritecb"
    using arg_cong [OF e1, of snd, symmetric] by (simp_all add: b1_def relay_bev_def)
  have g: "bev_fd r2 = bev_fd r" "readcb r2 = Some Relay_relayreadcb" "writecb r2 = Some Relay_relaywritecb"
    using arg_cong [OF e2, of snd, symmetric] by (simp_all add: r1_def relay_bev_def)
  let ?cl = "cl\<lparr> c_client := Some b2, c_relay := Some r2 \<rparr>"
  have "redsocks_start_relay e c (put_client c cl w) =
    (if ok' then put_client c ?cl w else redsocks_drop_client e c (put_client c ?cl w))"
    using b e1 e2
    by (cases ok) (auto simp: redsocks_start_relay_def world_simps b1_def [symmetric] r1_def [symmetric] Let_def)
  moreover have "bev_fd b \<noteq> bev_fd r" using v b by (auto simp: valid_def bev_fds_def)
  then have "client_ok ?cl" using s f g by (simp add: client_ok_def phase_ok_def relaying_def evshut_ok_def)
  moreover have "valid c ?cl w" using v b f g by (auto elim!: valid_similar simp: similar_def bev_fds_def)
  ultimately show ?thesis by (simp add: valid_drop valid_done)
qed

subsection \<open>The helpers of the protocols keep the invariant\<close>

lemma read_expected_put:
  assumes "c_relay cl = Some b"
  shows "redsocks_read_expected e c cmp n k (put_client c cl w) =
    (if cmp (length (bev_input b)) n
     then let w' = put_client c (cl\<lparr> c_relay := Some (b\<lparr> bev_input := drop n (bev_input b) \<rparr>) \<rparr>) w
       in if n \<le> length (bev_input b) then k (take n (bev_input b)) w' else set_fault Assertion w'
     else redsocks_drop_client e c (put_client c cl w))"
  using assms by (auto simp: redsocks_read_expected_def world_simps Let_def)

text \<open>A message maker keeps the client and changes the instances at most benignly.\<close>

definition mk_ok :: "nat \<Rightarrow> redsocks_client \<Rightarrow> world \<Rightarrow> (world \<Rightarrow> world \<times> bytes option) \<Rightarrow> bool" where
  "mk_ok c cl w mk \<longleftrightarrow>
    (\<exists>w' m. mk (put_client c cl w) = (put_client c cl w', m) \<and> valid c cl w')"

definition sent_client :: "env \<Rightarrow> bytes \<Rightarrow> nat \<Rightarrow> nat \<Rightarrow> nat \<Rightarrow> bev \<Rightarrow> redsocks_client \<Rightarrow> redsocks_client" where
  "sent_client e m st low high b cl =
    cl\<lparr> c_state := st,
        c_relay := Some (snd (bufferevent_enable e EV_READ
          ((fst (bufferevent_write_buffer e m b))\<lparr> wm_read_low := low, wm_read_high := high \<rparr>))) \<rparr>"

lemma write_helper_put:
  assumes "c_relay cl = Some b"
    and "(case mk of None \<Rightarrow> (put_client c cl w, Some []) | Some f \<Rightarrow> f (put_client c cl w)) = (put_client c cl w', m)"
  shows "redsocks_write_helper_ex e c mk st low high (put_client c cl w) =
    (case m of None \<Rightarrow> redsocks_drop_client e c (put_client c cl w')
     | Some buff \<Rightarrow> put_client c (sent_client e buff st low high b cl) w')"
  using assms
  by (auto simp: redsocks_write_helper_ex_def world_simps sent_client_def Let_def split: option.split)

lemma write_helper_ok:
  assumes v: "valid c cl w" and s: "evshut_ok cl" and b: "c_client cl = Some b" "c_relay cl = Some r" "talking b r"
    and m: "\<And>f. mk = Some f \<Longrightarrow> mk_ok c cl w f" and st: "1 \<le> st"
  shows "world_ok (redsocks_write_helper_ex e c mk st low high (put_client c cl w))"
proof -
  obtain w' m where w': "(case mk of None \<Rightarrow> (put_client c cl w, Some []) | Some f \<Rightarrow> f (put_client c cl w)) = (put_client c cl w', m)"
    "valid c cl w'"
    using m v by (cases mk) (auto simp: mk_ok_def)
  have "world_ok (put_client c (sent_client e buff st low high r cl) w')" for buff
  proof (rule valid_done)
    show "valid c (sent_client e buff st low high r cl) w'"
      by (rule valid_similar [OF w'(2)]) (use b in \<open>simp add: similar_def sent_client_def bev_fds_def\<close>)
    have "bev_fd b \<noteq> bev_fd r" using v b by (auto simp: valid_def bev_fds_def)
    then show "client_ok (sent_client e buff st low high r cl)"
      using b s st by (simp add: client_ok_def phase_ok_def talking_def sent_client_def evshut_ok_def)
  qed
  with valid_drop [OF w'(2)] show ?thesis
    by (simp add: write_helper_put [OF b(2) w'(1)] split: option.split)
qed

text \<open>A client that talks to the proxy, as a callback of its protocol finds it\<close>

definition talk :: "nat \<Rightarrow> redsocks_client \<Rightarrow> world \<Rightarrow> bool" where
  "talk c cl w \<longleftrightarrow>
    valid c cl w \<and> evshut_ok cl \<and> (\<exists>b r. c_client cl = Some b \<and> c_relay cl = Some r \<and> talking b r)"

lemma talk_valid: "talk c cl w \<Longrightarrow> valid c cl w"
  by (simp add: talk_def)

lemma talk_touch: "talk c cl w \<Longrightarrow> talk c (cl\<lparr> last_event := t \<rparr>) w"
  by (simp add: talk_def touch_ok)

lemma talk_state: "talk c cl w \<Longrightarrow> talk c (cl\<lparr> c_state := st \<rparr>) w"
  by (auto simp: talk_def elim: valid_similar)

lemma talk_relay:
  "talk c cl w \<Longrightarrow> c_relay cl = Some r \<Longrightarrow> bev_fd r' = bev_fd r \<Longrightarrow> readcb r' = readcb r \<Longrightarrow> writecb r' = writecb r \<Longrightarrow>
   talk c (cl\<lparr> c_relay := Some r' \<rparr>) w"
  using valid_similar [OF _ similar_set_bev [of SRelay cl r r']] evshut_ok_bev [of SRelay "Some r'" cl]
  by (auto simp: talk_def talking_def)

lemma talk_done:
  assumes "talk c cl w" "1 \<le> c_state cl"
  shows "world_ok (put_client c cl w)"
proof -
  obtain b r where b: "c_client cl = Some b" "c_relay cl = Some r" "talking b r"
    using assms by (auto simp: talk_def)
  then have "bev_fd b \<noteq> bev_fd r" using assms by (auto simp: talk_def valid_def bev_fds_def)
  then show ?thesis using assms b by (intro valid_done) (simp_all add: talk_def client_ok_def phase_ok_def)
qed

lemma talk_drop: "talk c cl w \<Longrightarrow> world_ok (redsocks_drop_client e c (put_client c cl w))"
  by (rule valid_drop [OF talk_valid])

lemma talk_start_relay: "talk c cl w \<Longrightarrow> world_ok (redsocks_start_relay e c (put_client c cl w))"
  by (auto simp: talk_def intro: start_relay_ok)

lemma talk_write:
  assumes "talk c cl w" "\<And>f. mk = Some f \<Longrightarrow> mk_ok c cl w f" "1 \<le> st"
  shows "world_ok (redsocks_write_helper_ex e c mk st low high (put_client c cl w))"
  using assms by (auto simp: talk_def intro: write_helper_ok)

lemma talk_read:
  assumes t: "talk c cl w" and n: "cmp (length (bev_input r)) n \<Longrightarrow> n \<le> length (bev_input r)" and r: "c_relay cl = Some r"
    and k: "\<And>data r'. talk c (cl\<lparr> c_relay := Some r' \<rparr>) w \<Longrightarrow> world_ok (k data (put_client c (cl\<lparr> c_relay := Some r' \<rparr>) w))"
  shows "world_ok (redsocks_read_expected e c cmp n k (put_client c cl w))"
proof -
  have "talk c (cl\<lparr> c_relay := Some (r\<lparr> bev_input := drop n (bev_input r) \<rparr>) \<rparr>) w"
    by (rule talk_relay [OF t r]) simp_all
  from k [OF this] n talk_drop [OF t] show ?thesis by (simp add: read_expected_put [OF r] Let_def)
qed

lemma talk_disable:
  assumes "talk c cl w" "1 \<le> c_state cl"
  shows "world_ok (with_bev c SRelay (\<lambda>b. put_bev c SRelay (Some (snd (bufferevent_disable e ev b)))) (put_client c cl w))"
proof -
  obtain r where r: "c_relay cl = Some r" using assms by (auto simp: talk_def)
  with talk_done [OF talk_relay [OF assms(1) r, of "snd (bufferevent_disable e ev r)"]] assms(2)
  show ?thesis by (simp add: world_simps)
qed

subsection \<open>Connecting keeps the invariant\<close>

definition fresh_fds :: "env \<Rightarrow> bool" where
  "fresh_fds e \<longleftrightarrow> (\<forall>fds fd. socket_fd e fds = Some fd \<longrightarrow> fd \<notin> set fds)"

lemma rest_ok_new_fd:
  assumes "rest_ok c F w" "fd \<notin> set (open_fds w)"
  shows "rest_ok c (insert fd F) (w\<lparr> open_fds := fd # open_fds w \<rparr>)"
  using assms unfolding rest_ok_open by (auto simp: rest_ok_def)

lemma set_fault_put: "set_fault f (put_client c cl w) = put_client c cl (set_fault f w)"
  by (simp add: set_fault_def put_client_def)

lemma open_put: "(put_client c cl w)\<lparr> open_fds := fds \<rparr> = put_client c cl (w\<lparr> open_fds := fds \<rparr>)"
  by (simp add: put_client_def)

lemma close_put [world_simps]: "redsocks_close e fd (put_client c cl w) = put_client c cl (redsocks_close e fd w)"
  by (simp add: redsocks_close_def set_fault_put open_put Let_def redsocks_accept_backoff_def upd_instance_put
      split: option.split)

lemma client_in_open [simp]: "client_in (w\<lparr> open_fds := fds \<rparr>) c cl = client_in w c cl"
  by (simp add: client_in_def listed_def)

lemma valid_close_new:
  assumes "valid c cl w" "fd \<notin> set (open_fds w)"
  shows "valid c cl (redsocks_close e fd (w\<lparr> open_fds := fd # open_fds w \<rparr>))"
proof -
  let ?w = "w\<lparr> open_fds := fd # open_fds w \<rparr>"
  have "rest_ok c (insert fd (cfds cl)) ?w" using assms rest_ok_new_fd by (simp add: valid_def)
  moreover have "insert fd (cfds cl) - {fd} = cfds cl" using assms by (auto simp: valid_def rest_ok_def)
  ultimately have "rest_ok c (cfds cl) (redsocks_close e fd ?w)" using rest_ok_close by fastforce
  with assms close_frame(4) [of fd ?w] show ?thesis by (simp add: valid_def)
qed

lemma connect_relay_ok:
  assumes v: "valid c cl w" and e: "fresh_fds e" and o: "evshut_ok cl"
    and b: "c_client cl = Some b" "readcb b = None" "writecb b = None" "c_relay cl = None" "c_state cl = 0"
  shows "world_ok (redsocks_connect_relay e c (put_client c cl w))"
proof -
  have i: "map_of (instances w) (instance_of cl) \<noteq> None" using v by (auto simp: valid_def client_in_def)
  have same: "cl\<lparr> c_relay := None \<rparr> = cl" using b by simp
  have fail: "red_connect_relay e (put_client c cl w) = (None, put_client c cl w') \<Longrightarrow> valid c cl w' \<Longrightarrow> ?thesis" for w'
    using i same by (auto simp: redsocks_connect_relay_def world_simps valid_drop split: option.splits)
  show ?thesis
  proof (cases "socket_fd e (open_fds w)")
    case None
    then show ?thesis by (intro fail [OF _ v]) (simp add: red_connect_relay_def)
  next
    case (Some fd)
    then have n: "fd \<notin> set (open_fds w)" using e by (auto simp: fresh_fds_def)
    let ?w = "w\<lparr> open_fds := fd # open_fds w \<rparr>"
    obtain ok r where r: "bufferevent_enable e EV_WRITE (bufferevent_new fd None (Some Relay_connected)) = (ok, r)"
      by fastforce
    show ?thesis
    proof (cases "fcntl_ok e fd \<and> setsockopt_ok e fd \<and> connect_ok e fd \<and> bev_new_ok e fd \<and> ok")
      case False
      then show ?thesis
        using Some r by (intro fail [OF _ valid_close_new [OF v n, of e]])
          (auto simp: red_connect_relay_def world_simps open_put Let_def)
    next
      case True
      have f: "bev_fd r = fd" "readcb r = None" "writecb r = Some Relay_connected"
        using arg_cong [OF r, of snd, symmetric] by (simp_all add: bufferevent_new_unfold)
      let ?cl = "cl\<lparr> c_relay := Some r \<rparr>"
      have n': "bev_fd b \<noteq> fd" using valid_open [OF v, of SClient b] b n by auto
      have "rest_ok c (cfds ?cl) ?w"
        using v rest_ok_new_fd [OF _ n] b f by (simp add: valid_def cfds_def bev_fds_def insert_commute)
      then have "valid c ?cl ?w"
        using v b f n' by (simp add: valid_def bev_fds_def client_in_def listed_def cred_ok_def)
      moreover have "client_ok ?cl"
        using o b f n' by (simp add: client_ok_def phase_ok_def connecting_def evshut_ok_def)
      moreover have "redsocks_connect_relay e c (put_client c cl w) = put_client c ?cl ?w"
        using Some r True i by (auto simp: redsocks_connect_relay_def world_simps red_connect_relay_def open_put Let_def)
      ultimately show ?thesis by (simp add: valid_done)
    qed
  qed
qed

subsection \<open>Accepting keeps the invariant\<close>

lemma world_ok_benign: "world_ok w \<Longrightarrow> benign f \<Longrightarrow> world_ok (upd_instance i f w)"
  unfolding world_split [of _ 0]
  by (auto simp: rest_ok_benign slot_ok_def benign_frame split: option.splits)

lemma benign_no_fd: "benign (accept_no_fd e)"
  by (auto simp: benign_def accept_no_fd_def inst_ok_def clamp_value_def tracked_event_add_def tracked_event_del_def Let_def)

lemma benign_reset: "benign (\<lambda>x. x\<lparr> accept_backoff_ms := 0 \<rparr>)"
  by (simp add: benign_def inst_ok_def)

lemma close_new_fd:
  assumes "world_ok w" "fd \<notin> set (open_fds w)"
  shows "world_ok (redsocks_close e fd (w\<lparr> open_fds := fd # open_fds w \<rparr>))"
proof -
  let ?w = "w\<lparr> open_fds := fd # open_fds w \<rparr>"
  obtain i f where "benign f" "redsocks_close e fd ?w = upd_instance i f (?w\<lparr> open_fds := remove1 fd (open_fds ?w) \<rparr>)"
    by (rule close_cases [of fd ?w]) simp_all
  with assms(1) show ?thesis by (simp add: world_ok_benign)
qed

lemma upd_instance_idem: "(\<And>k x. (k, x) \<in> set (instances w) \<Longrightarrow> f x = x) \<Longrightarrow> upd_instance i f w = w"
proof -
  assume a: "\<And>k x. (k, x) \<in> set (instances w) \<Longrightarrow> f x = x"
  have "map (\<lambda>(k, x). (k, if k = i then f x else x)) (instances w) = instances w"
    by (rule map_idI) (use a in auto)
  then show ?thesis by (simp add: upd_instance_def)
qed

lemma drop_new:
  assumes "clients w c = None" "\<And>j. \<not> listed w c j" "map_of (instances w) (instance_of cl) \<noteq> None"
    and "c_client cl = None" "c_relay cl = None"
  shows "redsocks_drop_client e c (put_client c cl w) = w"
proof -
  have "upd_instance (instance_of cl) (\<lambda>x. x\<lparr> inst_clients := remove1 c (inst_clients x) \<rparr>) w = w"
    by (rule upd_instance_idem) (use assms(2) in \<open>auto simp: listed_def remove1_idem\<close>)
  moreover have "(put_client c cl w)\<lparr> clients := (clients (put_client c cl w))(c := None) \<rparr> = w"
    using assms(1) by (simp add: put_client_def fun_upd_idem)
  ultimately show ?thesis
    using assms by (auto simp: redsocks_drop_client_def world_simps close_bev_def Let_def)
qed

lemma relists_add:
  "(\<And>j. \<not> listed w c j) \<Longrightarrow> relists c (\<lambda>x. x\<lparr> inst_clients := c # inst_clients x \<rparr>) w"
  by (auto simp: relists_def listed_def inst_ok_def)

lemma listed_add:
  assumes "\<And>j. \<not> listed w c j" "map_of (instances w) i = Some x"
  shows "listed (upd_instance i (\<lambda>x. x\<lparr> inst_clients := c # inst_clients x \<rparr>) w) c j \<longleftrightarrow> j = i"
  using assms map_of_SomeD [OF assms(2)] unfolding listed_def mem_upd by (auto split: if_splits)

text \<open>
  New descriptors and new clients are new: what the kernel and the allocator promise about the
  results of one callback
\<close>

definition env_ok :: "env \<Rightarrow> world \<Rightarrow> bool" where
  "env_ok e w \<longleftrightarrow>
    fresh_fds e
    \<and> (case accept_res e of Accepted fd _ \<Rightarrow> fd \<notin> set (open_fds w) | _ \<Rightarrow> True)
    \<and> (case new_client e of Some c \<Rightarrow> clients w c = None | None \<Rightarrow> True)"

text \<open>What the core asks of a protocol\<close>

definition fresh_client :: "redsocks_client \<Rightarrow> bool" where
  "fresh_client cl \<longleftrightarrow> c_client cl = None \<and> c_relay cl = None \<and> evshut_ok cl"

locale relay_subsys =
  fixes ss_init :: "redsocks_config \<Rightarrow> redsocks_client \<Rightarrow> redsocks_client"
    and ss_read :: "env \<Rightarrow> nat \<Rightarrow> world \<Rightarrow> world"
    and ss_write :: "env \<Rightarrow> nat \<Rightarrow> world \<Rightarrow> world"
  assumes init_law: "fresh_client cl \<Longrightarrow> \<not> do_password (socks5 cl) \<Longrightarrow>
      fresh_client (ss_init cfg cl) \<and> c_state (ss_init cfg cl) = 0 \<and> instance_of (ss_init cfg cl) = instance_of cl
      \<and> (do_password (socks5 (ss_init cfg cl)) \<longrightarrow> cf_login cfg \<noteq> None \<and> cf_password cfg \<noteq> None)"
    and read_law: "talk c cl w \<Longrightarrow> fresh_fds e \<Longrightarrow> 1 \<le> c_state cl \<Longrightarrow> world_ok (ss_read e c (put_client c cl w))"
    and write_law: "talk c cl w \<Longrightarrow> fresh_fds e \<Longrightarrow> world_ok (ss_write e c (put_client c cl w))"
begin

lemma relay_connected_ok:
  assumes v: "valid c cl w" and s: "evshut_ok cl" and e: "fresh_fds e"
    and b: "c_client cl = Some b" "readcb b = None" "writecb b = None" "c_relay cl = Some r"
  shows "world_ok (redsocks_relay_connected ss_write e c (put_client c cl w))"
proof (cases "red_is_socket_connected_ok e r")
  case False
  with b valid_drop [OF touch_ok(1) [OF v]] show ?thesis
    by (simp add: redsocks_relay_connected_def world_simps)
next
  case True
  let ?r = "r\<lparr> readcb := Some Ss_readcb, writecb := Some Ss_writecb \<rparr>"
  let ?cl = "cl\<lparr> last_event := env_time e, c_relay := Some ?r \<rparr>"
  have "similar cl ?cl" using b by (simp add: similar_def bev_fds_def)
  from valid_similar [OF v this] have "talk c ?cl w" using s b by (simp add: talk_def evshut_ok_def talking_def)
  from write_law [OF this e] have "world_ok (ss_write e c (put_client c ?cl w))" .
  with True b show ?thesis by (simp add: redsocks_relay_connected_def world_simps)
qed

lemma accept_start_ok:
  assumes w: "world_ok w" and c: "clients w c = None" and i: "map_of (instances w) i = Some x"
    and fd: "fd \<notin> set (open_fds w)" and e: "fresh_fds e"
    and cl: "fresh_client cl" "instance_of cl = i" "\<not> do_password (socks5 cl)"
  shows "world_ok (accept_start ss_init e i fd c cl (w\<lparr> open_fds := fd # open_fds w \<rparr>))"
proof -
  define w1 where "w1 = w\<lparr> open_fds := fd # open_fds w \<rparr>"
  define cl1 where "cl1 = (ss_init (config x) cl)\<lparr> first_event := env_time e \<rparr>"
  note k = init_law [OF cl(1,3), of "config x"]
  have r: "rest_ok c {} w" and l: "\<not> listed w1 c j" for j
    using w world_ok_none [OF c] by (auto simp: w1_def listed_def)
  have c1: "clients w1 c = None" "map_of (instances w1) i = Some x" using c i by (auto simp: w1_def)
  have n: "fresh_client cl1" "instance_of cl1 = i" "c_state cl1 = 0" "cred_ok x cl1"
    using k cl(2) by (auto simp: cl1_def fresh_client_def evshut_ok_def cred_ok_def)
  have d: "redsocks_drop_client e c (put_client c ((ss_init (config x) cl)\<lparr> first_event := t \<rparr>) w1) = w1"
    "redsocks_drop_client e c (put_client c (cl1\<lparr> last_event := t \<rparr>) w1) = w1" for t
    using n c1 l by (auto intro!: drop_new simp: fresh_client_def cl1_def)
  have cw: "world_ok (redsocks_close e fd w1)" unfolding w1_def by (rule close_new_fd [OF w fd])
  obtain ok and b :: bev where b: "bufferevent_enable e EV_READ (bufferevent_new fd None None) = (ok, b)" by fastforce
  have f: "bev_fd b = fd" "readcb b = None" "writecb b = None"
    using arg_cong [OF b, of snd, symmetric] by (simp_all add: bufferevent_new_unfold)
  define cl2 where "cl2 = cl1\<lparr> last_event := env_time e, c_client := Some b \<rparr>"
  define w2 where "w2 = upd_instance i (\<lambda>x. x\<lparr> inst_clients := c # inst_clients x \<rparr>) w1"
  have "rest_ok c {fd} w1" using rest_ok_new_fd [OF r fd] by (simp add: w1_def)
  then have "rest_ok c {fd} w2" unfolding w2_def by (rule rest_ok_relists [OF relists_add [OF l]])
  moreover have "client_in w2 c cl2"
    using listed_add [OF l c1(2)] n c1 by (simp add: client_in_def w2_def cl2_def map_of_upd cred_ok_def)
  ultimately have v: "valid c cl2 w2"
    using n f by (simp add: valid_def cl2_def cfds_def bev_fds_def fresh_client_def)
  have cn: "world_ok (redsocks_connect_relay e c (put_client c cl2 w2))"
    by (rule connect_relay_ok [OF v e, of b]) (use n f in \<open>auto simp: cl2_def fresh_client_def evshut_ok_def\<close>)
  have "accept_start ss_init e i fd c cl w1 =
    (if env_time e = -1 \<or> \<not> bev_new_ok e fd then redsocks_close e fd w1
     else if ok then redsocks_connect_relay e c (put_client c cl2 w2)
     else redsocks_drop_client e c (put_client c cl2 w2))"
    using c1(2) b d
    by (simp add: accept_start_def with_instance_def Let_def cl1_def [symmetric] world_simps w2_def cl2_def)
  with cw cn valid_drop [OF v] show ?thesis by (simp add: w1_def)
qed

lemma accept_client_ok:
  assumes w: "world_ok w" and i: "map_of (instances w) i = Some x" and e: "env_ok e w"
  shows "world_ok (redsocks_accept_client ss_init e i w)"
proof (cases "accept_res e")
  case (Accepted fd from_addr)
  define w1 where "w1 = upd_instance i (\<lambda>x. x\<lparr> accept_backoff_ms := 0 \<rparr>) w"
  have w1: "world_ok w1" unfolding w1_def by (rule world_ok_benign [OF w benign_reset])
  have fd: "fd \<notin> set (open_fds w1)" and f: "fresh_fds e"
    using e Accepted by (auto simp: env_ok_def w1_def)
  have c: "clients w1 c = None" if "new_client e = Some c" for c
    using e that by (auto simp: env_ok_def w1_def)
  obtain x1 where i1: "map_of (instances w1) i = Some x1" using i by (simp add: w1_def map_of_upd)
  have o: "upd_instance i (\<lambda>x. x\<lparr> accept_backoff_ms := 0 \<rparr>) (w\<lparr> open_fds := fd # open_fds w \<rparr>)
    = w1\<lparr> open_fds := fd # open_fds w1 \<rparr>"
    by (simp add: w1_def upd_instance_def)
  have n: "fresh_client (new_redsocks_client i from_addr a)" "instance_of (new_redsocks_client i from_addr a) = i"
    "\<not> do_password (socks5 (new_redsocks_client i from_addr a))" for a
    by (simp_all add: fresh_client_def new_redsocks_client_def evshut_ok_def evshut_vals_def EV_READ_def EV_WRITE_def)
  show ?thesis
    using close_new_fd [OF w1 fd, of e] accept_start_ok [OF w1 c i1 fd f n]
    unfolding redsocks_accept_client_def Accepted accept_result.case Let_def o
    by (auto split: option.split)
qed (simp_all add: redsocks_accept_client_def w world_ok_benign benign_no_fd)

end

end
