(* ===== verification/HaP_Lifecycle.thy ===== *)
theory HaP_Lifecycle
  imports HaP_Redsocks_Inv
begin

text \<open>
  Starting and stopping: \<open>redsocks_init\<close> opens one listening socket per configured instance, and
  \<open>redsocks_fini\<close> drops every client and closes every descriptor.
\<close>

subsection \<open>Listeners\<close>

definition listeners :: "world \<Rightarrow> (nat \<times> nat option) list" where
  "listeners w = map (\<lambda>(i, x). (i, tev_fd (listener x))) (instances w)"

lemma listeners_upd:
  "(\<And>x. tev_fd (listener (f x)) = tev_fd (listener x)) \<Longrightarrow> listeners (upd_instance i f w) = listeners w"
  by (simp add: listeners_def instances_upd split_beta comp_def cong: if_cong)

lemma listeners_put [simp]: "listeners (put_client c cl w) = listeners w"
  by (simp add: listeners_def)

lemma listeners_close: "listeners (redsocks_close e fd w) = listeners w"
proof (cases "fd \<in> set (open_fds w)")
  case True
  then obtain i f where f: "benign f" "redsocks_close e fd w = upd_instance i f (w\<lparr> open_fds := remove1 fd (open_fds w) \<rparr>)"
    by (rule close_cases)
  then show ?thesis by (subst f(2), subst listeners_upd) (auto simp: benign_def listeners_def)
next
  case False
  then show ?thesis by (simp add: redsocks_close_def set_fault_def listeners_def)
qed

lemma listeners_drop: "listeners (redsocks_drop_client e c (put_client c cl w)) = listeners w"
proof -
  have "listeners (close_bev e b w) = listeners w" for b w
    by (simp add: close_bev_def listeners_close split: option.split)
  moreover have "listeners (w\<lparr> clients := x \<rparr>) = listeners w" for w x by (simp add: listeners_def)
  moreover have "listeners (set_fault f w) = listeners w" for f w by (simp add: listeners_def set_fault_def)
  ultimately show ?thesis
    by (simp add: redsocks_drop_client_def world_simps Let_def listeners_upd split: option.split)
qed

subsection \<open>Dropping all clients of an instance\<close>

lemma drop_world:
  assumes "world_ok w" "clients w c = Some cl"
  shows "world_ok (redsocks_drop_client e c w)" "clients (redsocks_drop_client e c w) = (clients w)(c := None)"
    "listeners (redsocks_drop_client e c w) = listeners w"
proof -
  note v = world_valid [OF assms]
  show "world_ok (redsocks_drop_client e c w)" using valid_drop [OF v(1)] v(3) by simp
  have "rest_ok c (cfds cl) w" "map_of (instances w) (instance_of cl) \<noteq> None"
    "listed w c i \<Longrightarrow> i = instance_of cl" "bev_fds (c_client cl) \<inter> bev_fds (c_relay cl) = {}" for i
    using v(1) by (auto simp: valid_def client_in_def)
  from drop_ok(2) [OF this] v(3) show "clients (redsocks_drop_client e c w) = (clients w)(c := None)" by simp
  show "listeners (redsocks_drop_client e c w) = listeners w" using listeners_drop [of e c cl w] v(3) by simp
qed

lemma drop_all:
  "world_ok w \<Longrightarrow> distinct cs \<Longrightarrow> \<forall>c \<in> set cs. clients w c \<noteq> None \<Longrightarrow>
   world_ok (fold (redsocks_drop_client e) cs w)
   \<and> clients (fold (redsocks_drop_client e) cs w) = (\<lambda>d. if d \<in> set cs then None else clients w d)
   \<and> listeners (fold (redsocks_drop_client e) cs w) = listeners w"
proof (induction cs arbitrary: w)
  case (Cons c cs)
  then obtain cl where "clients w c = Some cl" by auto
  note d = drop_world [OF Cons(2) this, of e]
  have "\<forall>d \<in> set cs. clients (redsocks_drop_client e c w) d \<noteq> None" using Cons(3,4) d(2) by auto
  from Cons(1) [OF d(1) _ this] Cons(3) d(2,3) show ?case by (auto simp: fun_eq_iff)
qed auto

subsection \<open>Removing an instance\<close>

definition del_instance :: "nat \<Rightarrow> world \<Rightarrow> world" where
  "del_instance i w = w\<lparr> instances := filter (\<lambda>(k, _). k \<noteq> i) (instances w) \<rparr>"

definition free_fd :: "nat option \<Rightarrow> world \<Rightarrow> world" where
  "free_fd fd w = (case fd of None \<Rightarrow> w | Some fd \<Rightarrow> w\<lparr> open_fds := remove1 fd (open_fds w) \<rparr>)"

lemma del_instance_mem: "(j, y) \<in> set (instances (del_instance i w)) \<longleftrightarrow> (j, y) \<in> set (instances w) \<and> j \<noteq> i"
  by (auto simp: del_instance_def)

lemma map_of_del: "j \<noteq> i \<Longrightarrow> map_of (instances (del_instance i w)) j = map_of (instances w) j"
proof -
  have "j \<noteq> i \<Longrightarrow> map_of (filter (\<lambda>(k, _). k \<noteq> i) xs) j = map_of xs j" for xs :: "(nat \<times> redsocks_instance) list"
    by (induction xs) auto
  then show "j \<noteq> i \<Longrightarrow> map_of (instances (del_instance i w)) j = map_of (instances w) j"
    by (simp add: del_instance_def)
qed

lemma del_instance_simps [simp]:
  "clients (del_instance i w) = clients w" "open_fds (del_instance i w) = open_fds w"
  "world_fault (del_instance i w) = world_fault w" "fds_of (del_instance i w) = fds_of w"
  "no_fault (del_instance i w) = no_fault w"
  by (simp_all add: del_instance_def fds_of_def [abs_def] no_fault_def)

lemma free_fd_simps [simp]:
  "clients (free_fd fd w) = clients w" "instances (free_fd fd w) = instances w"
  "fds_of (free_fd fd w) = fds_of w" "no_fault (free_fd fd w) = no_fault w"
  "insts_ok (free_fd fd w) = insts_ok w" "slot_ok (free_fd fd w) d = slot_ok w d"
  "listen_fds (free_fd fd w) = listen_fds w"
  by (simp_all add: free_fd_def fds_of_def [abs_def] no_fault_def insts_ok_def slot_ok_def listed_def client_in_def
      listen_fds_def split: option.split)

lemma del_instance_ok:
  assumes w: "world_ok w" and x: "map_of (instances w) i = Some x"
    and none: "\<And>c cl. clients w c = Some cl \<Longrightarrow> instance_of cl \<noteq> i"
  shows "world_ok (free_fd (tev_fd (listener x)) (del_instance i w))"
proof -
  let ?w = "del_instance i w" and ?fd = "tev_fd (listener x)"
  have u: "(i, y) \<in> set (instances w) \<Longrightarrow> y = x" for y
    using w x by (auto simp: world_ok_def insts_ok_def)
  have io: "insts_ok ?w"
  proof -
    have "map fst (filter (\<lambda>(k, _). k \<noteq> i) xs) = filter (\<lambda>k. k \<noteq> i) (map fst xs)" for xs :: "(nat \<times> redsocks_instance) list"
      by (induction xs) auto
    then have "distinct (map fst (instances ?w))"
      using w by (simp add: world_ok_def insts_ok_def del_instance_def)
    moreover have "insts_ok w" using w by (simp add: world_ok_def)
    ultimately show ?thesis
      unfolding insts_ok_def del_instance_mem by (elim conjE, intro conjI) (assumption, metis, metis)
  qed
  have lf: "listen_fds ?w = listen_fds w - (case ?fd of None \<Rightarrow> {} | Some fd \<Rightarrow> {fd})"
  proof -
    have "\<And>j y fd. (j, y) \<in> set (instances w) \<Longrightarrow> tev_fd (listener y) = Some fd \<Longrightarrow> ?fd = Some fd \<Longrightarrow> j = i"
      using w map_of_SomeD [OF x] unfolding world_ok_def insts_ok_def by metis
    then show ?thesis
      unfolding listen_fds_def del_instance_mem using u by (auto split: option.splits) (metis option.distinct(1), metis option.inject)
  qed
  have l: "listed ?w d j \<longleftrightarrow> listed w d j \<and> j \<noteq> i" for d j
    by (auto simp: listed_def del_instance_mem)
  have sl: "slot_ok ?w d" for d
  proof (cases "clients w d")
    case None
    then show ?thesis using w l by (auto simp: world_ok_def slot_ok_def dest: spec [of _ d])
  next
    case (Some cl)
    then have "client_ok cl" "client_in w d cl" using world_ok_client [OF w] by auto
    with none [OF Some] Some l map_of_del [of "instance_of cl" i w] show ?thesis
      by (auto simp: slot_ok_def client_in_def)
  qed
  have fi: "?fd = Some fd \<Longrightarrow> fd \<in> listen_fds w" for fd
    using map_of_SomeD [OF x] by (auto simp: listen_fds_def)
  have so: "set (open_fds (free_fd ?fd ?w)) = set (open_fds w) - (case ?fd of None \<Rightarrow> {} | Some fd \<Rightarrow> {fd})"
    "distinct (open_fds (free_fd ?fd ?w))"
    using w by (auto simp: free_fd_def world_ok_def split: option.split)
  have w': "no_fault w" "set (open_fds w) = (\<Union>d. fds_of w d) \<union> listen_fds w" "\<And>d. fds_of w d \<inter> listen_fds w = {}"
    "\<And>d d'. d \<noteq> d' \<Longrightarrow> fds_of w d \<inter> fds_of w d' = {}" using w by (simp_all add: world_ok_def)
  have "set (open_fds (free_fd ?fd ?w)) = (\<Union>d. fds_of w d) \<union> listen_fds ?w"
  proof (cases ?fd)
    case None
    then show ?thesis using so(1) lf w'(2) by simp
  next
    case (Some fd)
    then have "fd \<notin> (\<Union>d. fds_of w d)" using fi w'(3) by blast
    with Some show ?thesis using so(1) lf w'(2) by auto
  qed
  moreover have "fds_of w d \<inter> listen_fds ?w = {}" for d using w'(3) [of d] lf by auto
  ultimately show ?thesis
    unfolding world_ok_def free_fd_simps del_instance_simps using w'(1,4) io sl so(2) by blast
qed

subsection \<open>Stopping\<close>

lemma del_instance_open: "del_instance i (w\<lparr> open_fds := fds \<rparr>) = (del_instance i w)\<lparr> open_fds := fds \<rparr>"
  by (cases w) (simp add: del_instance_def)

lemma del_instance_upd: "del_instance i (upd_instance j f w) = upd_instance j f (del_instance i w)"
proof -
  have "filter (\<lambda>(k, _). k \<noteq> i) (map (\<lambda>(k, x). (k, if k = j then f x else x)) xs)
    = map (\<lambda>(k, x). (k, if k = j then f x else x)) (filter (\<lambda>(k, _). k \<noteq> i) xs)" for xs
    by (induction xs) auto
  then show ?thesis by (simp add: del_instance_def upd_instance_def)
qed

lemma fini_instance_ok:
  assumes w: "world_ok w" and x: "map_of (instances w) i = Some x"
  shows "world_ok (redsocks_fini_instance e i w)"
    "map fst (instances (redsocks_fini_instance e i w)) = filter (\<lambda>k. k \<noteq> i) (map fst (instances w))"
proof -
  define w1 where "w1 = fold (redsocks_drop_client e) (inst_clients x) w"
  have m: "(i, x) \<in> set (instances w)" using x by (rule map_of_SomeD)
  have "distinct (inst_clients x)" using w m by (auto simp: world_ok_def insts_ok_def)
  moreover have live: "c \<in> set (inst_clients x) \<longleftrightarrow> (\<exists>cl. clients w c = Some cl \<and> instance_of cl = i)" for c
  proof -
    have "c \<in> set (inst_clients x) \<longleftrightarrow> listed w c i"
      using m w by (auto simp: listed_def world_ok_def insts_ok_def dest: eq_key_imp_eq_value)
    moreover have "slot_ok w c" using w by (simp add: world_ok_def)
    ultimately show ?thesis by (auto simp: slot_ok_def client_in_def split: option.splits)
  qed
  ultimately have d: "world_ok w1" "clients w1 = (\<lambda>d. if d \<in> set (inst_clients x) then None else clients w d)"
    "listeners w1 = listeners w"
    using drop_all [OF w, of "inst_clients x" e] by (auto simp: w1_def)
  define f where "f = (\<lambda>x :: redsocks_instance. if relay_ss x = Http_connect then x\<lparr> auth := (auth x)\<lparr> last_auth_query := None \<rparr> \<rparr> else x)"
  define g where "g = (\<lambda>x :: redsocks_instance. if inserted (listener x) \<noteq> 0 then x\<lparr> listener := tracked_event_del e (listener x) \<rparr> else x)"
  have bf: "benign f" "benign g" by (auto simp: benign_def inst_ok_def f_def g_def tracked_event_del_def)
  define w2 where "w2 = upd_instance i f w1"
  define fd where "fd = tev_fd (listener x)"
  define w3 where "w3 = (if fd = None then w2 else upd_instance i g w2)"
  have w3: "world_ok w3" "clients w3 = clients w1"
    using world_ok_benign [OF world_ok_benign [OF d(1) bf(1)] bf(2)] world_ok_benign [OF d(1) bf(1)]
    by (simp_all add: w3_def w2_def)
  have l3: "listeners w3 = listeners w"
    using bf d(3) by (simp add: w3_def w2_def listeners_upd benign_def)
  have none: "instance_of cl \<noteq> i" if "clients w3 c = Some cl" for c cl
    using that live w3(2) d(2) by (auto split: if_splits)
  have "map_of (listeners w3) i = Some fd" using l3 x by (simp add: listeners_def map_of_map fd_def)
  then obtain x3 where x3: "map_of (instances w3) i = Some x3" "tev_fd (listener x3) = fd"
    by (auto simp: listeners_def map_of_map)
  note ok = del_instance_ok [OF w3(1) x3(1) none]
  have e: "redsocks_fini_instance e i w = del_instance i (case fd of None \<Rightarrow> w3 | Some fd \<Rightarrow> redsocks_close e fd w3)"
    using x by (simp add: redsocks_fini_instance_def with_instance_def Let_def del_instance_def fd_def w3_def w2_def
        w1_def f_def g_def split: option.split)
  have k: "map fst (instances w3) = map fst (instances w)"
    using arg_cong [OF l3, of "map fst"] by (simp add: listeners_def split_beta comp_def)
  have fk: "map fst (filter (\<lambda>(k, _). k \<noteq> i) xs) = filter (\<lambda>k. k \<noteq> i) (map fst xs)" for xs :: "(nat \<times> redsocks_instance) list"
    by (induction xs) auto
  show "map fst (instances (redsocks_fini_instance e i w)) = filter (\<lambda>k. k \<noteq> i) (map fst (instances w))"
  proof -
    have "map fst (instances (redsocks_close e fd w3)) = map fst (instances w3)" for fd
      using arg_cong [OF listeners_close [of e fd w3], of "map fst"] by (simp add: listeners_def split_beta comp_def)
    then show ?thesis unfolding e by (simp add: del_instance_def fk k split: option.split)
  qed
  show "world_ok (redsocks_fini_instance e i w)"
  proof (cases fd)
    case None
    then show ?thesis using ok x3 by (simp add: e free_fd_def)
  next
    case (Some n)
    have "n \<in> set (open_fds w3)"
      using w3(1) x3 map_of_SomeD [OF x3(1)] Some by (auto simp: world_ok_def listen_fds_def)
    then obtain j h where h: "benign h" "redsocks_close e n w3 = upd_instance j h (w3\<lparr> open_fds := remove1 n (open_fds w3) \<rparr>)"
      by (rule close_cases)
    then have "redsocks_fini_instance e i w = upd_instance j h (free_fd (Some n) (del_instance i w3))"
      using Some by (simp add: e del_instance_upd del_instance_open free_fd_def)
    then show ?thesis using ok x3(2) Some h(1) by (simp add: world_ok_benign)
  qed
qed

lemma fini_instances_ok:
  "world_ok w \<Longrightarrow> set is \<subseteq> set (map fst (instances w)) \<Longrightarrow> distinct is \<Longrightarrow>
   world_ok (fold (redsocks_fini_instance e) is w)
   \<and> set (map fst (instances (fold (redsocks_fini_instance e) is w))) = set (map fst (instances w)) - set is"
proof (induction "is" arbitrary: w)
  case (Cons i js)
  then obtain x where "map_of (instances w) i = Some x"
    by (metis list.set_intros(1) map_of_eq_None_iff not_None_eq set_map subsetD)
  note f = fini_instance_ok [OF Cons(2) this, of e]
  have k: "set (map fst (instances (redsocks_fini_instance e i w))) = set (map fst (instances w)) - {i}"
    unfolding f(2) by auto
  have "set js \<subseteq> set (map fst (instances (redsocks_fini_instance e i w)))"
    using Cons(3,4) unfolding k by auto
  from Cons(1) [OF f(1) this] Cons(4) k show ?case by auto
qed simp

lemma no_instances:
  assumes "world_ok w" "instances w = []"
  shows "clients w = (\<lambda>_. None)" "open_fds w = []"
proof -
  have "clients w c = None" for c
  proof -
    have "slot_ok w c" using assms by (simp add: world_ok_def)
    then show ?thesis using assms(2) by (cases "clients w c") (auto simp: slot_ok_def client_in_def)
  qed
  then show c: "clients w = (\<lambda>_. None)" by (simp add: fun_eq_iff)
  show "open_fds w = []"
    using assms by (simp add: world_ok_def fds_of_def c listen_fds_def)
qed

lemma fini_closes_all:
  assumes w: "world_ok w"
  shows "world_ok (redsocks_fini e w) \<and> instances (redsocks_fini e w) = []
    \<and> clients (redsocks_fini e w) = (\<lambda>_. None) \<and> open_fds (redsocks_fini e w) = []"
proof -
  have "distinct (map fst (instances w))" using w by (simp add: world_ok_def insts_ok_def)
  from fini_instances_ok [OF w subset_refl this, of e]
  have o: "world_ok (redsocks_fini e w)" "instances (redsocks_fini e w) = []" by (auto simp: redsocks_fini_def)
  with no_instances [OF o] show ?thesis by simp
qed

subsection \<open>Starting\<close>

text \<open>The instances as the configuration file leaves them\<close>

definition configured :: "world \<Rightarrow> bool" where
  "configured w \<longleftrightarrow>
    world_fault w = None \<and> clients w = (\<lambda>_. None) \<and> open_fds w = [] \<and> distinct (map fst (instances w))
    \<and> (\<forall>i x. (i, x) \<in> set (instances w) \<longrightarrow> inst_ok x \<and> inst_clients x = [] \<and> tev_fd (listener x) = None)"

lemma configured_ok: "configured w \<Longrightarrow> world_ok w"
  by (force simp: configured_def world_ok_def no_fault_def insts_ok_def fds_of_def listen_fds_def slot_ok_def listed_def)

lemma open_fds_frame [simp]:
  "no_fault (w\<lparr> open_fds := fds \<rparr>) = no_fault w" "insts_ok (w\<lparr> open_fds := fds \<rparr>) = insts_ok w"
  "listen_fds (w\<lparr> open_fds := fds \<rparr>) = listen_fds w" "fds_of (w\<lparr> open_fds := fds \<rparr>) = fds_of w"
  "slot_ok (w\<lparr> open_fds := fds \<rparr>) = slot_ok w"
  by (simp_all add: no_fault_def insts_ok_def listen_fds_def fds_of_def [abs_def] slot_ok_def fun_eq_iff listed_def
      client_in_def split: option.split)

lemma listed_upd:
  assumes "\<And>x. inst_clients (f x) = inst_clients x"
  shows "listed (upd_instance i f w) = listed w"
  by (intro ext) (metis (no_types, lifting) listed_def mem_upd assms)

lemma listen_ok:
  assumes w: "world_ok w" and x: "map_of (instances w) i = Some x" "tev_fd (listener x) = None"
    and fd: "fd \<notin> set (open_fds w)"
    and f: "\<And>x. config (f x) = config x \<and> inst_clients (f x) = inst_clients x \<and> tev_fd (listener (f x)) = Some fd
      \<and> (inst_ok x \<longrightarrow> inst_ok (f x))"
  shows "world_ok (upd_instance i f (w\<lparr> open_fds := fd # open_fds w \<rparr>))"
proof -
  let ?w = "upd_instance i f w"
  have io: "insts_ok w" using w by (simp add: world_ok_def)
  have u: "(i, y) \<in> set (instances w) \<Longrightarrow> y = x" for y
    using io x by (auto simp: insts_ok_def)
  have nl: "fd \<notin> listen_fds w" using w fd by (auto simp: world_ok_def)
  have lf: "listen_fds ?w = insert fd (listen_fds w)"
  proof (intro set_eqI iffI)
    fix n assume "n \<in> listen_fds ?w"
    then obtain j z where "(j, z) \<in> set (instances w)" "tev_fd (listener (if j = i then f z else z)) = Some n"
      unfolding listen_fds_def mem_upd by blast
    with f show "n \<in> insert fd (listen_fds w)" by (cases "j = i") (auto simp: listen_fds_def)
  next
    fix n assume "n \<in> insert fd (listen_fds w)"
    then consider "n = fd" | j z where "(j, z) \<in> set (instances w)" "tev_fd (listener z) = Some n"
      by (auto simp: listen_fds_def)
    then show "n \<in> listen_fds ?w"
    proof cases
      case 1
      have "(i, f x) \<in> set (instances ?w)" using map_of_SomeD [OF x(1)] unfolding mem_upd by auto
      with 1 f show ?thesis unfolding listen_fds_def by blast
    next
      case 2
      with u x(2) have "j \<noteq> i" by auto
      with 2 have "(j, z) \<in> set (instances ?w)" unfolding mem_upd by auto
      with 2 show ?thesis unfolding listen_fds_def by blast
    qed
  qed
  have l: "listed ?w = listed w"
    by (rule listed_upd) (simp add: f)
  have "insts_ok ?w"
    unfolding insts_ok_def keys_upd mem_upd
  proof (intro conjI allI impI)
    show "distinct (map fst (instances w))" using io by (simp add: insts_ok_def)
    fix j y assume "\<exists>z. (j, z) \<in> set (instances w) \<and> y = (if j = i then f z else z)"
    then obtain z where z: "(j, z) \<in> set (instances w)" "y = (if j = i then f z else z)" by blast
    then have "inst_ok z" "distinct (inst_clients z)" using io by (auto simp: insts_ok_def)
    then show "inst_ok y" "distinct (inst_clients y)" using z f [of z] by auto
    fix k v n assume "\<exists>z. (k, z) \<in> set (instances w) \<and> v = (if k = i then f z else z)"
      and n: "tev_fd (listener y) = Some n" "tev_fd (listener v) = Some n"
    then obtain z' where z': "(k, z') \<in> set (instances w)" "v = (if k = i then f z' else z')" by blast
    have "n \<noteq> fd" if "k \<noteq> i \<or> j \<noteq> i" using that z z' n nl by (auto simp: listen_fds_def)
    then show "j = k" using z z' n f io unfolding insts_ok_def by (cases "j = i"; cases "k = i") auto
  qed
  moreover have "\<forall>d. slot_ok ?w d"
  proof
    fix d show "slot_ok ?w d"
    proof (cases "clients w d")
      case None
      moreover have "slot_ok w d" using w by (simp add: world_ok_def)
      ultimately show ?thesis by (simp add: slot_ok_def l)
    next
      case (Some cl)
      note k = world_ok_client [OF w Some]
      then obtain y where "map_of (instances w) (instance_of cl) = Some y" "cred_ok y cl"
        by (auto simp: client_in_def)
      then have "map_of (instances ?w) (instance_of cl) = Some (if instance_of cl = i then f y else y)"
        "cred_ok (if instance_of cl = i then f y else y) cl" using f by (simp_all add: map_of_upd cred_ok_def)
      with k Some show ?thesis by (simp add: slot_ok_def client_in_def l)
    qed
  qed
  moreover have "fd \<notin> fds_of w d" for d using w fd by (auto simp: world_ok_def)
  moreover have "upd_instance i f (w\<lparr> open_fds := fd # open_fds w \<rparr>) = ?w\<lparr> open_fds := fd # open_fds w \<rparr>"
    by (simp add: upd_instance_def)
  ultimately show ?thesis
    using w fd unfolding world_ok_def by (simp add: lf)
qed

text \<open>A call for one instance that has not been started\<close>

lemma upd_instance_open: "upd_instance i f (w\<lparr> open_fds := fds \<rparr>) = (upd_instance i f w)\<lparr> open_fds := fds \<rparr>"
  by (cases w) (simp add: upd_instance_def)

lemma fini_unstarted:
  assumes "map_of (instances w) i = Some x" "tev_fd (listener x) = None" "inst_clients x = []"
  shows "redsocks_fini_instance e i w = del_instance i (upd_instance i
    (\<lambda>x. if relay_ss x = Http_connect then x\<lparr> auth := (auth x)\<lparr> last_auth_query := None \<rparr> \<rparr> else x) w)"
  using assms by (simp add: redsocks_fini_instance_def with_instance_def del_instance_def Let_def)

lemma init_instance_ok:
  assumes w: "world_ok w" and e: "fresh_fds e"
    and x: "map_of (instances w) i = Some x" "tev_fd (listener x) = None" "inst_clients x = []"
    and r: "redsocks_init_instance e i w = (ok, w')"
  shows "world_ok w'"
    "ok \<Longrightarrow> map fst (instances w') = map fst (instances w) \<and> (\<forall>j. j \<noteq> i \<longrightarrow> map_of (instances w') j = map_of (instances w) j)"
proof -
  have "world_ok w' \<and> (ok \<longrightarrow> map fst (instances w') = map fst (instances w)
    \<and> (\<forall>j. j \<noteq> i \<longrightarrow> map_of (instances w') j = map_of (instances w) j))"
  proof (cases "socket_fd e (open_fds w)")
    case None
    with r fini_instance_ok(1) [OF w x(1), of e] show ?thesis by (auto simp: redsocks_init_instance_def)
  next
    case (Some fd)
    then have fd: "fd \<notin> set (open_fds w)" using e by (auto simp: fresh_fds_def)
    let ?w = "w\<lparr> open_fds := fd # open_fds w \<rparr>"
    let ?f = "\<lambda>x :: redsocks_instance. x\<lparr> listener := \<lparr> tev_fd = Some fd, inserted = 0 \<rparr>,
        accept_backoff := \<lparr> tev_fd = None, inserted = 0 \<rparr> \<rparr>"
    let ?g = "\<lambda>x :: redsocks_instance. x\<lparr> listener := tracked_event_add e (listener x) \<rparr>"
    have ok: "world_ok (upd_instance i ?f ?w)"
      by (rule listen_ok [OF w x(1,2) fd]) (simp add: inst_ok_def)
    have g: "benign ?g" by (simp add: benign_def inst_ok_def tracked_event_add_def)
    have fo: "open_fds (redsocks_fini_instance e i w) = open_fds w"
      using fini_unstarted [OF x, of e] by simp
    have fini: "redsocks_fini_instance e i ?w = (redsocks_fini_instance e i w)\<lparr> open_fds := fd # open_fds (redsocks_fini_instance e i w) \<rparr>"
      using fini_unstarted [of ?w i x e] fini_unstarted [of w i x e] x fo
      by (simp add: upd_instance_open del_instance_open)
    have bad: "world_ok (redsocks_close e fd (redsocks_fini_instance e i ?w))"
      unfolding fini by (rule close_new_fd [OF fini_instance_ok(1) [OF w x(1)]]) (simp add: fo fd)
    obtain y where "map_of (instances (upd_instance i ?f ?w)) i = Some y" using x by (simp add: map_of_upd)
    note fl = fini_instance_ok(1) [OF ok this, of e]
    have m: "map_of (instances (upd_instance i ?g (upd_instance i ?f ?w))) j = map_of (instances w) j" if "j \<noteq> i" for j
      using that by (simp add: map_of_upd option.map_ident)
    show ?thesis
      using r Some bad fl world_ok_benign [OF ok g] m
      by (auto simp: redsocks_init_instance_def Let_def keys_upd split: if_splits)
  qed
  then show "world_ok w'"
    "ok \<Longrightarrow> map fst (instances w') = map fst (instances w) \<and> (\<forall>j. j \<noteq> i \<longrightarrow> map_of (instances w') j = map_of (instances w) j)"
    by simp_all
qed

lemma init_instances_ok:
  "world_ok w \<Longrightarrow> fresh_fds e \<Longrightarrow> distinct is \<Longrightarrow>
   \<forall>i \<in> set is. \<exists>x. map_of (instances w) i = Some x \<and> tev_fd (listener x) = None \<and> inst_clients x = [] \<Longrightarrow>
   redsocks_init_instances e is w = (ok, w') \<Longrightarrow> world_ok w'"
proof (induction e "is" w rule: redsocks_init_instances.induct)
  case (2 e i js w)
  then obtain x where x: "map_of (instances w) i = Some x" "tev_fd (listener x) = None" "inst_clients x = []" by auto
  obtain ok1 w1 where r: "redsocks_init_instance e i w = (ok1, w1)" by fastforce
  note o = init_instance_ok [OF 2(2,3) x r]
  show ?case
  proof (cases ok1)
    case True
    have "\<forall>j \<in> set js. \<exists>x. map_of (instances w1) j = Some x \<and> tev_fd (listener x) = None \<and> inst_clients x = []"
      using o(2) [OF True] 2(4,5) by auto
    with 2(1) [OF r [symmetric] _ o(1) 2(3)] 2(4,6) r True show ?thesis by simp
  next
    case False
    with 2(6) r o(1) show ?thesis by simp
  qed
qed simp

lemma init_ok:
  assumes "configured w" "fresh_fds e" "redsocks_init e w = (ok, w')"
  shows "world_ok w'" "\<not> ok \<Longrightarrow> open_fds w' = []"
proof -
  have w: "world_ok w" using assms(1) by (rule configured_ok)
  have "\<forall>i \<in> set (map fst (instances w)). \<exists>x. map_of (instances w) i = Some x \<and> tev_fd (listener x) = None \<and> inst_clients x = []"
    using assms(1) by (auto simp: configured_def)
  from init_instances_ok [OF w assms(2) _ this] assms(1)
  have "world_ok (snd (redsocks_init_instances e (map fst (instances w)) w))"
    by (metis configured_def prod.collapse)
  with w fini_closes_all assms show "world_ok w'" "\<not> ok \<Longrightarrow> open_fds w' = []"
    by (auto simp: redsocks_init_def configured_def split: if_splits bool.splits prod.splits)
qed

end
