(* ===== verification/HaP_Socks4.thy ===== *)
theory HaP_Socks4
  imports HaP_Redsocks_Inv
begin

text \<open>
  The SOCKS4 protocol of the redirector, \<open>src/jni/redsocks/socks4.c\<close>: one request, one reply.
\<close>

definition socks4_new :: nat where "socks4_new = 0"
definition socks4_request_sent :: nat where "socks4_request_sent = 1"
definition socks4_reply_came :: nat where "socks4_reply_came = 2"

definition socks4_client_init :: "redsocks_config \<Rightarrow> redsocks_client \<Rightarrow> redsocks_client" where
  "socks4_client_init cfg cl = cl\<lparr> c_state := socks4_new \<rparr>"

definition socks4_set_state :: "nat \<Rightarrow> nat \<Rightarrow> world \<Rightarrow> world" where
  "socks4_set_state c st w = with_client c (\<lambda>cl. put_client c (cl\<lparr> c_state := st \<rparr>)) w"

definition socks4_read_cb :: "env \<Rightarrow> nat \<Rightarrow> world \<Rightarrow> world" where
  "socks4_read_cb e c w =
    with_client c (\<lambda>cl w.
      if \<not> c_state cl \<ge> socks4_request_sent then set_fault Assertion w
      else
        let w = redsocks_touch_client e c w
        in if c_state cl = socks4_request_sent
           then redsocks_read_expected e c sizes_greater_equal 8 (\<lambda>reply w.
             let w = socks4_set_state c socks4_reply_came w
             in if reply ! 0 \<noteq> 0 then redsocks_drop_client e c w
                else if reply ! 1 = 90 then redsocks_start_relay e c w
                else redsocks_drop_client e c w) w
           else w) w"

definition socks4_request :: "redsocks_config \<Rightarrow> sockaddr_in \<Rightarrow> bytes" where
  "socks4_request cfg dest =
    (let username = (case cf_login cfg of None \<Rightarrow> [] | Some l \<Rightarrow> l)
     in [4, 1] @ be16 (sin_port dest) @ be32 (sin_addr dest) @ bytes_of_string username @ [0])"

definition socks4_mkconnect :: "env \<Rightarrow> nat \<Rightarrow> world \<Rightarrow> world \<times> bytes option" where
  "socks4_mkconnect e c w =
    (case clients w c of
       None \<Rightarrow> (set_fault Use_after_free w, None)
     | Some cl \<Rightarrow>
         (case map_of (instances w) (instance_of cl) of
            None \<Rightarrow> (set_fault Use_after_free w, None)
          | Some x \<Rightarrow> (w, mkevbuffer e (socks4_request (config x) (destaddr cl)))))"

definition socks4_write_cb :: "env \<Rightarrow> nat \<Rightarrow> world \<Rightarrow> world" where
  "socks4_write_cb e c w =
    (let w = redsocks_touch_client e c w
     in with_client c (\<lambda>cl w.
          if c_state cl = socks4_new
          then redsocks_write_helper e c (Some (socks4_mkconnect e c)) socks4_request_sent 8 w
          else if c_state cl \<ge> socks4_request_sent
          then with_bev c SRelay (\<lambda>b. put_bev c SRelay (Some (snd (bufferevent_disable e EV_WRITE b)))) w
          else w) w)"

subsection \<open>The protocol keeps the invariant of the core\<close>

lemma socks4_mk_ok: "valid c cl w \<Longrightarrow> mk_ok c cl w (socks4_mkconnect e c)"
  by (auto simp: mk_ok_def socks4_mkconnect_def valid_def client_in_def)

interpretation s4: relay_subsys socks4_client_init socks4_read_cb socks4_write_cb
proof (unfold_locales, goal_cases)
  case (1 cl cfg)
  then show ?case by (simp add: socks4_client_init_def fresh_client_def socks4_new_def)
next
  case (2 c cl w e)
  let ?cl = "cl\<lparr> last_event := env_time e \<rparr>"
  have t: "talk c ?cl w" using 2(1) by (rule talk_touch)
  obtain r where r: "c_relay ?cl = Some r" using t by (auto simp: talk_def)
  have "world_ok (redsocks_read_expected e c sizes_greater_equal 8 (\<lambda>reply w.
      let w = socks4_set_state c socks4_reply_came w
      in if reply ! 0 \<noteq> 0 then redsocks_drop_client e c w
         else if reply ! 1 = 90 then redsocks_start_relay e c w
         else redsocks_drop_client e c w) (put_client c ?cl w))"
    by (rule talk_read [OF t _ r])
       (use talk_state in \<open>auto simp: sizes_greater_equal_def socks4_set_state_def world_simps Let_def
          intro: talk_drop talk_start_relay\<close>)
  with talk_done [OF t] 2(3) show ?case
    by (simp add: socks4_read_cb_def world_simps socks4_request_sent_def Let_def)
next
  case (3 c cl w e)
  let ?cl = "cl\<lparr> last_event := env_time e \<rparr>"
  have t: "talk c ?cl w" using 3(1) by (rule talk_touch)
  have h: "world_ok (redsocks_write_helper e c (Some (socks4_mkconnect e c)) socks4_request_sent 8 (put_client c ?cl w))"
    unfolding redsocks_write_helper_def
    by (rule talk_write [OF t]) (use socks4_mk_ok [OF talk_valid [OF t]] in \<open>auto simp: socks4_request_sent_def\<close>)
  with talk_disable [OF t] show ?case
    by (auto simp: socks4_write_cb_def world_simps Let_def socks4_request_sent_def socks4_new_def)
qed

end
