(* ===== verification/HaP_Socks5.thy ===== *)
theory HaP_Socks5
  imports HaP_Redsocks_Inv
begin

text \<open>
  The SOCKS5 protocol of the redirector, \<open>src/jni/redsocks/socks5.c\<close>: the choice of an
  authentication method, the optional user name and password (RFC 1929), the request, and the
  reply whose bound address is skipped (RFC 1928).
\<close>

subsection \<open>Messages\<close>

definition socks5_is_valid_cred :: "string option \<Rightarrow> string option \<Rightarrow> bool" where
  "socks5_is_valid_cred login password =
    (case (login, password) of
       (Some l, Some p) \<Rightarrow> if length l > 255 then False else if length p > 255 then False else True
     | _ \<Rightarrow> False)"

definition socks5_mkmethods_plain :: "bool \<Rightarrow> bytes" where
  "socks5_mkmethods_plain pw = (if pw then [5, 2, 0, 2] else [5, 1, 0])"

definition socks5_mkpassword_plain :: "string \<Rightarrow> string \<Rightarrow> bytes" where
  "socks5_mkpassword_plain login password =
    [1, of_nat (length login)] @ bytes_of_string login
    @ [of_nat (length password)] @ bytes_of_string password"

definition socks5_mkcommand_plain :: "byte \<Rightarrow> sockaddr_in \<Rightarrow> bytes" where
  "socks5_mkcommand_plain cmd dest = [5, cmd, 0, 1] @ be32 (sin_addr dest) @ be16 (sin_port dest)"

subsection \<open>The client\<close>

definition socks5_new :: nat where "socks5_new = 0"
definition socks5_method_sent :: nat where "socks5_method_sent = 1"
definition socks5_auth_sent :: nat where "socks5_auth_sent = 2"
definition socks5_request_sent :: nat where "socks5_request_sent = 3"
definition socks5_skip_domain :: nat where "socks5_skip_domain = 4"
definition socks5_skip_address :: nat where "socks5_skip_address = 5"

definition socks5_client_init :: "redsocks_config \<Rightarrow> redsocks_client \<Rightarrow> redsocks_client" where
  "socks5_client_init cfg cl =
    cl\<lparr> c_state := socks5_new,
        socks5 := (socks5 cl)\<lparr> do_password := socks5_is_valid_cred (cf_login cfg) (cf_password cfg) \<rparr> \<rparr>"

definition socks5_mkmethods :: "env \<Rightarrow> nat \<Rightarrow> world \<Rightarrow> world \<times> bytes option" where
  "socks5_mkmethods e c w =
    (case clients w c of
       None \<Rightarrow> (set_fault Use_after_free w, None)
     | Some cl \<Rightarrow> (w, mkevbuffer e (socks5_mkmethods_plain (do_password (socks5 cl)))))"

definition socks5_mkpassword :: "env \<Rightarrow> nat \<Rightarrow> world \<Rightarrow> world \<times> bytes option" where
  "socks5_mkpassword e c w =
    (case clients w c of
       None \<Rightarrow> (set_fault Use_after_free w, None)
     | Some cl \<Rightarrow>
         (case map_of (instances w) (instance_of cl) of
            None \<Rightarrow> (set_fault Use_after_free w, None)
          | Some x \<Rightarrow>
              (case (cf_login (config x), cf_password (config x)) of
                 (Some l, Some p) \<Rightarrow> (w, mkevbuffer e (socks5_mkpassword_plain l p))
               | _ \<Rightarrow> (set_fault Null_pointer w, None))))"

definition socks5_mkconnect :: "env \<Rightarrow> nat \<Rightarrow> world \<Rightarrow> world \<times> bytes option" where
  "socks5_mkconnect e c w =
    (case clients w c of
       None \<Rightarrow> (set_fault Use_after_free w, None)
     | Some cl \<Rightarrow> (w, mkevbuffer e (socks5_mkcommand_plain 1 (destaddr cl))))"

definition socks5_write_cb :: "env \<Rightarrow> nat \<Rightarrow> world \<Rightarrow> world" where
  "socks5_write_cb e c w =
    (let w = redsocks_touch_client e c w
     in with_client c (\<lambda>cl w.
          if c_state cl = socks5_new
          then redsocks_write_helper e c (Some (socks5_mkmethods e c)) socks5_method_sent 2 w
          else w) w)"

text \<open>whether \<open>socks5_is_known_auth_method\<close> returns no error\<close>

definition socks5_is_known_auth_method :: "bytes \<Rightarrow> bool \<Rightarrow> bool" where
  "socks5_is_known_auth_method reply pw =
    (if reply ! 0 \<noteq> 5 then False
     else if reply ! 1 = 0xFF then False
     else if reply ! 1 \<noteq> 0 \<and> \<not> (reply ! 1 = 2 \<and> pw) then False
     else True)"

definition socks5_read_auth_methods :: "env \<Rightarrow> nat \<Rightarrow> bool \<Rightarrow> world \<Rightarrow> world" where
  "socks5_read_auth_methods e c pw w =
    redsocks_read_expected e c sizes_equal 2 (\<lambda>reply w.
      if \<not> socks5_is_known_auth_method reply pw then redsocks_drop_client e c w
      else if reply ! 1 = 0
      then redsocks_write_helper e c (Some (socks5_mkconnect e c)) socks5_request_sent 4 w
      else if reply ! 1 = 2
      then redsocks_write_helper e c (Some (socks5_mkpassword e c)) socks5_auth_sent 2 w
      else w) w"

definition socks5_read_auth_reply :: "env \<Rightarrow> nat \<Rightarrow> world \<Rightarrow> world" where
  "socks5_read_auth_reply e c w =
    redsocks_read_expected e c sizes_equal 2 (\<lambda>reply w.
      if reply ! 0 \<noteq> 1 then redsocks_drop_client e c w
      else if reply ! 1 = 0
      then redsocks_write_helper e c (Some (socks5_mkconnect e c)) socks5_request_sent 4 w
      else redsocks_drop_client e c w) w"

definition socks5_set_skip :: "nat \<Rightarrow> nat \<Rightarrow> world \<Rightarrow> world" where
  "socks5_set_skip c n w =
    with_client c (\<lambda>cl. put_client c (cl\<lparr> socks5 := (socks5 cl)\<lparr> to_skip := n \<rparr> \<rparr>)) w"

definition socks5_read_reply :: "env \<Rightarrow> nat \<Rightarrow> world \<Rightarrow> world" where
  "socks5_read_reply e c w =
    redsocks_read_expected e c sizes_greater_equal 4 (\<lambda>reply w.
      if reply ! 0 \<noteq> 5 then redsocks_drop_client e c w
      else if reply ! 1 = 0
      then if reply ! 3 = 1
           then redsocks_write_helper e c None socks5_skip_address 6 (socks5_set_skip c 6 w)
           else if reply ! 3 = 4
           then redsocks_write_helper e c None socks5_skip_address 18 (socks5_set_skip c 18 w)
           else if reply ! 3 = 3
           then redsocks_write_helper e c None socks5_skip_domain 1 w
           else redsocks_drop_client e c w
      else redsocks_drop_client e c w) w"

definition socks5_read_cb :: "env \<Rightarrow> nat \<Rightarrow> world \<Rightarrow> world" where
  "socks5_read_cb e c w =
    (let w = redsocks_touch_client e c w
     in with_client c (\<lambda>cl w.
          if c_state cl = socks5_method_sent then socks5_read_auth_methods e c (do_password (socks5 cl)) w
          else if c_state cl = socks5_auth_sent then socks5_read_auth_reply e c w
          else if c_state cl = socks5_request_sent then socks5_read_reply e c w
          else if c_state cl = socks5_skip_domain
          then redsocks_read_expected e c sizes_greater_equal 1 (\<lambda>data w.
            let n = unat (data ! 0) + 2
            in redsocks_write_helper e c None socks5_skip_address n (socks5_set_skip c n w)) w
          else if c_state cl = socks5_skip_address
          then redsocks_read_expected e c sizes_greater_equal (to_skip (socks5 cl)) (\<lambda>_. redsocks_start_relay e c) w
          else redsocks_drop_client e c w) w)"

subsection \<open>The protocol keeps the invariant of the core\<close>

lemma socks5_mk_ok:
  assumes "valid c cl w"
  shows "mk_ok c cl w (socks5_mkmethods e c)" "mk_ok c cl w (socks5_mkconnect e c)"
    "do_password (socks5 cl) \<Longrightarrow> mk_ok c cl w (socks5_mkpassword e c)"
  using assms
  by (auto simp: mk_ok_def socks5_mkmethods_def socks5_mkconnect_def socks5_mkpassword_def valid_def client_in_def cred_ok_def)

lemma socks5_set_skip_put [world_simps]:
  "socks5_set_skip c n (put_client c cl w) = put_client c (cl\<lparr> socks5 := (socks5 cl)\<lparr> to_skip := n \<rparr> \<rparr>) w"
  by (simp add: socks5_set_skip_def with_client_put)

lemma talk_skip: "talk c cl w \<Longrightarrow> do_password s = do_password (socks5 cl) \<Longrightarrow> talk c (cl\<lparr> socks5 := s \<rparr>) w"
  by (auto simp: talk_def evshut_ok_def similar_def elim!: valid_similar)

lemmas socks5_states = socks5_new_def socks5_method_sent_def socks5_auth_sent_def socks5_request_sent_def
  socks5_skip_domain_def socks5_skip_address_def

lemma socks5_write_ok:
  assumes "talk c cl w"
  shows "world_ok (redsocks_write_helper e c (Some (socks5_mkmethods e c)) socks5_method_sent n (put_client c cl w))"
    "world_ok (redsocks_write_helper e c (Some (socks5_mkconnect e c)) socks5_request_sent n (put_client c cl w))"
    "do_password (socks5 cl) \<Longrightarrow>
      world_ok (redsocks_write_helper e c (Some (socks5_mkpassword e c)) socks5_auth_sent n (put_client c cl w))"
    "world_ok (redsocks_write_helper e c None socks5_skip_address n (put_client c cl w))"
    "world_ok (redsocks_write_helper e c None socks5_skip_domain n (put_client c cl w))"
  unfolding redsocks_write_helper_def
  by (rule talk_write [OF assms]; use socks5_mk_ok [OF talk_valid [OF assms]] in \<open>auto simp: socks5_states\<close>)+

lemma socks5_reads_ok:
  assumes t: "talk c cl w"
  shows "world_ok (socks5_read_auth_methods e c (do_password (socks5 cl)) (put_client c cl w))"
    "world_ok (socks5_read_auth_reply e c (put_client c cl w))"
    "world_ok (socks5_read_reply e c (put_client c cl w))"
proof -
  obtain r where r: "c_relay cl = Some r" using t by (auto simp: talk_def)
  show "world_ok (socks5_read_auth_methods e c (do_password (socks5 cl)) (put_client c cl w))"
    unfolding socks5_read_auth_methods_def
    by (rule talk_read [OF t _ r])
       (auto simp: sizes_equal_def socks5_is_known_auth_method_def split: if_splits
         intro!: talk_drop socks5_write_ok elim: talk_done)
  show "world_ok (socks5_read_auth_reply e c (put_client c cl w))"
    unfolding socks5_read_auth_reply_def
    by (rule talk_read [OF t _ r]) (auto simp: sizes_equal_def intro!: talk_drop socks5_write_ok)
  show "world_ok (socks5_read_reply e c (put_client c cl w))"
    unfolding socks5_read_reply_def
    by (rule talk_read [OF t _ r])
       (auto simp: sizes_greater_equal_def world_simps intro!: talk_drop socks5_write_ok talk_skip)
qed

interpretation s5: relay_subsys socks5_client_init socks5_read_cb socks5_write_cb
proof (unfold_locales, goal_cases)
  case (1 cl cfg)
  then show ?case
    by (auto simp: socks5_client_init_def fresh_client_def socks5_new_def evshut_ok_def socks5_is_valid_cred_def
        split: option.splits)
next
  case (2 c cl w e)
  let ?cl = "cl\<lparr> last_event := env_time e \<rparr>"
  have t: "talk c ?cl w" using 2(1) by (rule talk_touch)
  obtain r where r: "c_relay ?cl = Some r" using t by (auto simp: talk_def)
  have "world_ok (redsocks_read_expected e c sizes_greater_equal 1 (\<lambda>data w.
      let n = unat (data ! 0) + 2
      in redsocks_write_helper e c None socks5_skip_address n (socks5_set_skip c n w)) (put_client c ?cl w))"
    by (rule talk_read [OF t _ r])
       (auto simp: sizes_greater_equal_def world_simps Let_def intro!: socks5_write_ok talk_skip)
  moreover have "world_ok (redsocks_read_expected e c sizes_greater_equal (to_skip (socks5 cl))
      (\<lambda>_. redsocks_start_relay e c) (put_client c ?cl w))"
    by (rule talk_read [OF t _ r]) (auto simp: sizes_greater_equal_def intro!: talk_start_relay)
  ultimately show ?case
    using socks5_reads_ok [OF t] talk_drop [OF t] by (simp add: socks5_read_cb_def world_simps)
next
  case (3 c cl w e)
  let ?cl = "cl\<lparr> last_event := env_time e \<rparr>"
  have t: "talk c ?cl w" using 3(1) by (rule talk_touch)
  from socks5_write_ok(1) [OF t] talk_done [OF t] show ?case
    by (cases "c_state cl") (simp_all add: socks5_write_cb_def world_simps Let_def socks5_new_def)
qed

end
