(* ===== verification/HaP_Base64.thy ===== *)
theory HaP_Base64
  imports HaP_Prelude
begin

text \<open>
  Base64 of \<open>src/jni/redsocks/base64.c\<close>: the decoder and the encoder that
  \<open>basic_authentication_encode\<close> uses for the \<open>Proxy-Authorization\<close> header.
  The accumulators keep their C width: \<open>i_bits\<close> is \<open>unsigned\<close> (32 bits, shifted left for
  ever, so it wraps) and \<open>v\<close> is an \<open>int\<close> that is also shifted left without being masked.
\<close>

definition map2 :: "byte list" where
  "map2 =
    [0x3e, 0xff, 0xff, 0xff, 0x3f, 0x34, 0x35, 0x36,
     0x37, 0x38, 0x39, 0x3a, 0x3b, 0x3c, 0x3d, 0xff,
     0xff, 0xff, 0xff, 0xff, 0xff, 0xff, 0x00, 0x01,
     0x02, 0x03, 0x04, 0x05, 0x06, 0x07, 0x08, 0x09,
     0x0a, 0x0b, 0x0c, 0x0d, 0x0e, 0x0f, 0x10, 0x11,
     0x12, 0x13, 0x14, 0x15, 0x16, 0x17, 0x18, 0x19,
     0xff, 0xff, 0xff, 0xff, 0xff, 0xff, 0x1a, 0x1b,
     0x1c, 0x1d, 0x1e, 0x1f, 0x20, 0x21, 0x22, 0x23,
     0x24, 0x25, 0x26, 0x27, 0x28, 0x29, 0x2a, 0x2b,
     0x2c, 0x2d, 0x2e, 0x2f, 0x30, 0x31, 0x32, 0x33]"

text \<open>
  The decoding loop. \<open>i\<close> is the position in the input, \<open>v\<close> the accumulator, \<open>out\<close> what has
  been written so far. \<open>in[i]-43\<close> is computed in \<open>int\<close> and stored in an \<open>unsigned\<close>, so a
  character below 43 gives an index past the table. The result \<^const>\<open>None\<close> is the return
  value \<open>-1\<close>; bytes past \<open>out_size\<close> are silently not stored.
\<close>

fun base64_decode_loop :: "nat \<Rightarrow> u32 \<Rightarrow> nat \<Rightarrow> bytes \<Rightarrow> string \<Rightarrow> bytes option" where
  "base64_decode_loop i v out_size out [] = Some out"
| "base64_decode_loop i v out_size out (c # cs) =
    (if c = CHR ''='' then Some out
     else if ord c < 43 \<or> length map2 \<le> ord c - 43 \<or> map2 ! (ord c - 43) = 0xff then None
     else let v' = push_bit 6 v + ucast (map2 ! (ord c - 43)) in
       base64_decode_loop (i + 1) v' out_size
         (if i mod 4 \<noteq> 0 \<and> length out < out_size
          then out @ [ucast (signed_drop_bit (6 - 2 * (i mod 4)) v')] else out)
         cs)"

definition base64_decode :: "string \<Rightarrow> nat \<Rightarrow> bytes option" where
  "base64_decode inp out_size = base64_decode_loop 0 0 out_size [] inp"

definition b64 :: string where
  "b64 = ''ABCDEFGHIJKLMNOPQRSTUVWXYZabcdefghijklmnopqrstuvwxyz0123456789+/''"

definition BASE64_SIZE :: "nat \<Rightarrow> nat" where
  "BASE64_SIZE x = (x + 2) div 3 * 4 + 1"

text \<open>
  The inner \<open>do \<dots> while\<close>: it emits one character, takes 6 from the shift and goes on
  while more than 6 bits are pending, or while any are and the input has ended.
\<close>

function base64_emit :: "u32 \<Rightarrow> int \<Rightarrow> nat \<Rightarrow> string \<Rightarrow> int \<times> string" where
  "base64_emit i_bits i_shift bytes_remaining dst =
    (let dst' = dst @ [b64 ! unat (drop_bit (nat i_shift) (push_bit 6 i_bits) AND 0x3f)];
         i_shift' = i_shift - 6
     in if i_shift' > 6 \<or> bytes_remaining = 0 \<and> i_shift' > 0
        then base64_emit i_bits i_shift' bytes_remaining dst'
        else (i_shift', dst'))"
  by pat_completeness auto
termination
  by (relation "measure (\<lambda>(_, s, _, _). nat s)") auto

declare base64_emit.simps [simp del]

fun base64_encode_loop :: "u32 \<Rightarrow> int \<Rightarrow> string \<Rightarrow> bytes \<Rightarrow> string" where
  "base64_encode_loop i_bits i_shift dst [] = dst"
| "base64_encode_loop i_bits i_shift dst (b # bs) =
    (let i_bits' = push_bit 8 i_bits + ucast b;
         (i_shift', dst') = base64_emit i_bits' (i_shift + 8) (length bs) dst
     in base64_encode_loop i_bits' i_shift' dst' bs)"

text \<open>\<open>while ((dst - ret) & 3) *dst++ = '=';\<close> runs at most three times.\<close>

definition base64_pad :: "string \<Rightarrow> string" where
  "base64_pad dst = dst @ replicate ((4 - length dst mod 4) mod 4) (CHR ''='')"

text \<open>
  The result is the string left in \<open>out\<close>; \<^const>\<open>None\<close> is the NULL that an input of
  \<open>UINT_MAX / 4\<close> bytes or more, or a small output buffer, gives.
\<close>

definition base64_encode :: "nat \<Rightarrow> bytes \<Rightarrow> string option" where
  "base64_encode out_size inp =
    (if int (length inp) \<ge> (2 ^ 32 - 1) div 4 \<or> out_size < BASE64_SIZE (length inp) then None
     else Some (base64_pad (base64_encode_loop 0 0 [] inp)))"

text \<open>
  The reference encoding, RFC 4648 section 4: groups of three bytes become four sextets;
  a last group of one or two bytes is filled up with zero bits and \<open>=\<close>.
\<close>

fun base64_rfc :: "bytes \<Rightarrow> string" where
  "base64_rfc [] = []"
| "base64_rfc [a] =
    [b64 ! unat (drop_bit 2 a), b64 ! unat (push_bit 4 (take_bit 2 a)), CHR ''='', CHR ''='']"
| "base64_rfc [a, b] =
    [b64 ! unat (drop_bit 2 a), b64 ! unat (push_bit 4 (take_bit 2 a) OR drop_bit 4 b),
     b64 ! unat (push_bit 2 (take_bit 4 b)), CHR ''='']"
| "base64_rfc (a # b # c # bs) =
    [b64 ! unat (drop_bit 2 a), b64 ! unat (push_bit 4 (take_bit 2 a) OR drop_bit 4 b),
     b64 ! unat (push_bit 2 (take_bit 4 b) OR drop_bit 6 c), b64 ! unat (take_bit 6 c)]
    @ base64_rfc bs"

subsection \<open>The encoder computes the reference encoding\<close>

lemma add_byte: "push_bit 8 (i::u32) + ucast (b::byte) = push_bit 8 i OR ucast b"
  by (rule disjunctive_add) (auto simp: bit_simps dest: bit_byte)

lemma and_3f: "(x::u32) AND 0x3f = take_bit 6 x"
  by (simp add: take_bit_eq_mask mask_eq_exp_minus_1)

text \<open>What each shift of the inner loop selects, whatever older bits \<open>i_bits\<close> still holds.\<close>

lemma emit_sextets:
  fixes a b :: byte and i :: u32
  shows "drop_bit 14 (push_bit 6 (push_bit 8 i + ucast b)) AND 0x3f = i AND 0x3f"
    and "drop_bit 8 (push_bit 6 (push_bit 8 i + ucast a)) AND 0x3f = ucast (drop_bit 2 a)"
    and "drop_bit 2 (push_bit 6 (push_bit 8 i + ucast a)) AND 0x3f
         = ucast (push_bit 4 (take_bit 2 a))"
    and "drop_bit 10 (push_bit 6 (push_bit 8 (push_bit 8 i + ucast a) + ucast b)) AND 0x3f
         = ucast (push_bit 4 (take_bit 2 a) OR drop_bit 4 b)"
    and "drop_bit 4 (push_bit 6 (push_bit 8 i + ucast b)) AND 0x3f
         = ucast (push_bit 2 (take_bit 4 b))"
    and "drop_bit 12 (push_bit 6 (push_bit 8 (push_bit 8 i + ucast a) + ucast b)) AND 0x3f
         = ucast (push_bit 2 (take_bit 4 a) OR drop_bit 6 b)"
    and "drop_bit 6 (push_bit 6 (push_bit 8 i + ucast b)) AND 0x3f = ucast (take_bit 6 b)"
    and "(push_bit 8 i + ucast b) AND 0x3f = ucast (take_bit 6 b)"
  unfolding add_byte and_3f
  by (rule bit_word_eqI, auto simp: bit_simps dest: bit_byte)+

lemmas emit_unroll =
  base64_emit.simps [where i_shift = 14] base64_emit.simps [where i_shift = 12]
  base64_emit.simps [where i_shift = 10] base64_emit.simps [where i_shift = 8]
  base64_emit.simps [where i_shift = 6] base64_emit.simps [where i_shift = 4]
  base64_emit.simps [where i_shift = 2] Let_def emit_sextets unat_ucast_byte

text \<open>After three bytes one sextet is pending; the next byte flushes it.\<close>

lemma encode_pending:
  "bs \<noteq> [] \<Longrightarrow>
   base64_encode_loop i 6 d bs = base64_encode_loop i 0 (d @ [b64 ! unat (i AND 0x3f)]) bs"
  by (cases bs) (simp_all add: emit_unroll)

lemma base64_pad_append: "4 dvd length d \<Longrightarrow> base64_pad (d @ s) = d @ base64_pad s"
  by (auto simp: base64_pad_def dvd_def)

lemma encode_loop_rfc:
  "4 dvd length d \<Longrightarrow> base64_pad (base64_encode_loop i 0 d bs) = d @ base64_rfc bs"
proof (induction bs arbitrary: i d rule: base64_rfc.induct)
  case (4 a b c bs)
  have step: "4 dvd length (d @ [w, x, y, z])" for w x y z
    using 4(2) by simp presburger
  show ?case
  proof (cases "bs = []")
    case True
    with 4(2) show ?thesis
      by (simp add: emit_unroll base64_pad_append) (simp add: base64_pad_def)
  next
    case False
    with 4(1) [OF step] show ?thesis by (simp add: emit_unroll encode_pending)
  qed
qed (simp_all add: emit_unroll base64_pad_append, simp_all add: base64_pad_def numeral_2_eq_2)

lemma base64_encode_rfc:
  assumes "int (length bs) < (2 ^ 32 - 1) div 4" and "BASE64_SIZE (length bs) \<le> out_size"
  shows "base64_encode out_size bs = Some (base64_rfc bs)"
  using assms encode_loop_rfc [of "[]" 0 bs] by (simp add: base64_encode_def)

lemma length_base64_rfc: "length (base64_rfc bs) + 1 = BASE64_SIZE (length bs)"
proof (induction bs rule: base64_rfc.induct)
  case (4 a b c bs)
  have "(length (a # b # c # bs) + 2) div 3 = (length bs + 2) div 3 + 1"
    by (simp add: div_add_self1 [of 3 "length bs + 2", simplified] add.commute)
  with 4 show ?case by (simp add: BASE64_SIZE_def)
qed (simp_all add: BASE64_SIZE_def)

subsection \<open>The decoder inverts the reference encoding\<close>

lemma map2_b64: "map (\<lambda>c. map2 ! (ord c - 43)) b64 = map of_nat [0..<64]"
proof -
  have *: "[0..<64] = 0 # 1 # [2..<64]" by (simp add: upt_rec)
  show ?thesis
    unfolding * by (simp add: b64_def map2_def ord_def upt_rec_numeral)
qed

lemma b64_range:
  "list_all (\<lambda>c. 43 \<le> ord c \<and> ord c - 43 < length map2 \<and> c \<noteq> CHR ''='') b64"
  by (simp add: b64_def map2_def ord_def)

lemma length_b64 [simp]: "length b64 = 64"
  by (simp add: b64_def)

lemma map2_b64_nth: "n < 64 \<Longrightarrow> map2 ! (ord (b64 ! n) - 43) = of_nat n"
  using arg_cong [OF map2_b64, of "\<lambda>xs. xs ! n"] by simp

lemma decode_sextet:
  fixes x :: byte
  assumes "unat x < 64"
  shows "base64_decode_loop i v m out ((b64 ! unat x) # cs) =
    base64_decode_loop (i + 1) (push_bit 6 v + ucast x) m
     (if i mod 4 \<noteq> 0 \<and> length out < m
      then out @ [ucast (signed_drop_bit (6 - 2 * (i mod 4)) (push_bit 6 v + (ucast x :: u32)))]
      else out) cs"
proof -
  have "b64 ! unat x \<in> set b64" using assms by simp
  then have "43 \<le> ord (b64 ! unat x) \<and> ord (b64 ! unat x) - 43 < length map2
      \<and> b64 ! unat x \<noteq> CHR ''=''"
    using b64_range by (simp add: list_all_iff)
  moreover have "map2 ! (ord (b64 ! unat x) - 43) = x"
    using map2_b64_nth [OF assms] by simp
  moreover have "x \<noteq> 0xff" using assms by auto
  ultimately show ?thesis by (auto simp: Let_def)
qed

lemma decode_stop: "base64_decode_loop i v m out (CHR ''='' # cs) = Some out"
  by simp

lemma sextet_small: "take_bit 6 x = x \<Longrightarrow> unat (x::byte) < 64"
proof -
  assume "take_bit 6 x = x"
  then have "unat x = take_bit 6 (unat x)" by (metis unsigned_take_bit_eq)
  also have "\<dots> < 2 ^ 6" by (rule take_bit_nat_less_exp)
  finally show ?thesis by simp
qed

lemma sextet_add:
  "take_bit 6 x = x \<Longrightarrow> push_bit 6 (i::u32) + ucast (x::byte) = push_bit 6 i OR ucast x"
proof (rule disjunctive_add)
  fix n assume "take_bit 6 x = x"
  then have "bit x n \<Longrightarrow> n < 6" using bit_take_bit_iff [of 6 x n] by simp
  then show "\<not> bit (push_bit 6 i) n \<or> \<not> bit (ucast x :: u32) n" by (auto simp: bit_simps)
qed

lemma sextet_shapes:
  fixes a b :: byte
  shows "take_bit 6 (drop_bit 2 a) = drop_bit 2 a"
    and "take_bit 6 (push_bit 4 (take_bit 2 a) OR drop_bit 4 b)
         = push_bit 4 (take_bit 2 a) OR drop_bit 4 b"
    and "take_bit 6 (push_bit 2 (take_bit 4 a) OR drop_bit 6 b)
         = push_bit 2 (take_bit 4 a) OR drop_bit 6 b"
    and "take_bit 6 (take_bit 6 a) = take_bit 6 a"
    and "take_bit 6 (push_bit 4 (take_bit 2 a)) = push_bit 4 (take_bit 2 a)"
    and "take_bit 6 (push_bit 2 (take_bit 4 a)) = push_bit 2 (take_bit 4 a)"
  by (rule bit_word_eqI, auto simp: bit_simps dest: bit_byte)+

lemmas sextets_small = sextet_shapes [THEN sextet_small]
lemmas sextets_add = sextet_shapes [THEN sextet_add]

lemma bit_Suc_Suc_minus: "2 \<le> n \<Longrightarrow> bit x (Suc (Suc (n - 2))) = bit x n"
  by (rule arg_cong [of _ _ "bit x"]) simp

lemma bit_above_2: "bit x n \<Longrightarrow> \<not> bit x (Suc (Suc (n - 2))) \<Longrightarrow> n < 2"
  by (metis bit_Suc_Suc_minus not_less)

lemma decode_octets:
  fixes a b c :: byte and v :: u32
  shows "ucast (signed_drop_bit 4 (push_bit 6 (push_bit 6 v + ucast (drop_bit 2 a))
           + ucast (push_bit 4 (take_bit 2 a) OR drop_bit 4 b))) = a"
    and "ucast (signed_drop_bit 4 (push_bit 6 (push_bit 6 v + ucast (drop_bit 2 a))
           + ucast (push_bit 4 (take_bit 2 a)))) = a"
    and "ucast (signed_drop_bit 2
           (push_bit 6 (push_bit 6 v + ucast (push_bit 4 (take_bit 2 a) OR drop_bit 4 b))
           + ucast (push_bit 2 (take_bit 4 b) OR drop_bit 6 c))) = b"
    and "ucast (signed_drop_bit 2
           (push_bit 6 (push_bit 6 v + ucast (push_bit 4 (take_bit 2 a) OR drop_bit 4 b))
           + ucast (push_bit 2 (take_bit 4 b)))) = b"
    and "ucast (push_bit 6 (push_bit 6 v + ucast (push_bit 2 (take_bit 4 b) OR drop_bit 6 c))
           + ucast (take_bit 6 c)) = c"
  unfolding sextets_add
  by (rule bit_word_eqI, auto simp: bit_simps bit_Suc_Suc_minus not_less
      dest: bit_byte bit_above_2)+

lemma decode_rfc:
  "4 dvd i \<Longrightarrow> length out + length bs \<le> m \<Longrightarrow>
   base64_decode_loop i v m out (base64_rfc bs) = Some (out @ bs)"
proof (induction bs arbitrary: i v out rule: base64_rfc.induct)
  case (4 a b c bs)
  then obtain k where k: "i = 4 * k" by (auto simp: dvd_def)
  have "4 dvd Suc (Suc (Suc (Suc i)))" using 4(2) by presburger
  with k 4(3) 4(1) [of "Suc (Suc (Suc (Suc i)))" "out @ [a, b, c]"] show ?case
    by (simp add: decode_sextet sextets_small decode_octets mod_Suc
        del: base64_decode_loop.simps(2))
qed (auto simp: dvd_def decode_sextet sextets_small decode_octets mod_Suc decode_stop
  simp del: base64_decode_loop.simps(2))

subsection \<open>Properties\<close>

text \<open>
  C1: \<open>base64_encode\<close> returns NULL exactly when the input has \<open>UINT_MAX / 4\<close> bytes or more or
  the output buffer is smaller than \<open>BASE64_SIZE\<close>; otherwise the bit-shifting loop leaves the
  RFC 4648 encoding of the input in the buffer.
\<close>

theorem base64_encode_spec:
  "base64_encode out_size bs =
    (if int (length bs) \<ge> (2 ^ 32 - 1) div 4 \<or> out_size < BASE64_SIZE (length bs) then None
     else Some (base64_rfc bs))"
  using encode_loop_rfc [of "[]" 0 bs] by (simp add: base64_encode_def)

text \<open>
  C2: what \<open>base64_encode\<close> produces, with its terminating NUL, fits the output buffer, and
  \<open>base64_decode\<close> into a buffer with room for the data gives the data back.
\<close>

theorem base64_roundtrip:
  assumes "base64_encode out_size bs = Some s" and "length bs \<le> room"
  shows "length s + 1 \<le> out_size \<and> base64_decode s room = Some bs"
proof -
  have "s = base64_rfc bs" and "BASE64_SIZE (length bs) \<le> out_size"
    using assms(1) encode_loop_rfc [of "[]" 0 bs]
    by (simp_all add: base64_encode_def split: if_splits)
  with assms(2) show ?thesis
    using length_base64_rfc [of bs] decode_rfc [of 0 "[]" bs room 0] by (simp add: base64_decode_def)
qed

theorem base64_roundtrip_witness:
  "base64_encode 9 [0x41, 0x42, 0x43, 0xff] = Some ''QUJD/w==''
   \<and> base64_decode ''QUJD/w=='' 4 = Some [0x41, 0x42, 0x43, 0xff]"
proof -
  have e: "base64_encode 9 [0x41, 0x42, 0x43, 0xff] = Some ''QUJD/w==''"
    by code_simp
  show ?thesis using base64_roundtrip [OF e, of 4] e by simp
qed

end
