(* ===== verification/HaP_Md5.thy ===== *)
theory HaP_Md5
  imports HaP_Prelude
begin

text \<open>
  MD5 of \<open>src/jni/redsocks/md5.c\<close>, which the digest authentication uses: the four unrolled
  rounds of \<open>md5_process\<close> and the streaming interface \<open>md5_init\<close>, \<open>md5_append\<close>,
  \<open>md5_finish\<close>. The reference definition \<open>md5_rfc\<close> is the algorithm of RFC 1321 on a whole
  message; the theorems show that any split of a message into \<open>md5_append\<close> calls computes it.

  \<open>nbytes\<close> is an \<open>int\<close> in the code; a chunk is a byte list here, whose length stands for it.
\<close>

subsection \<open>The compression function\<close>

definition T_MASK :: u32 where
  "T_MASK = NOT 0"

definition md5_T :: "u32 list" where
  "md5_T =
    [T_MASK XOR 0x28955b87, T_MASK XOR 0x173848a9, 0x242070db,
     T_MASK XOR 0x3e423111, T_MASK XOR 0x0a83f050, 0x4787c62a,
     T_MASK XOR 0x57cfb9ec, T_MASK XOR 0x02b96afe, 0x698098d8,
     T_MASK XOR 0x74bb0850, T_MASK XOR 0x0000a44e, T_MASK XOR 0x76a32841,
     0x6b901122, T_MASK XOR 0x02678e6c, T_MASK XOR 0x5986bc71,
     0x49b40821, T_MASK XOR 0x09e1da9d, T_MASK XOR 0x3fbf4cbf,
     0x265e5a51, T_MASK XOR 0x16493855, T_MASK XOR 0x29d0efa2,
     0x02441453, T_MASK XOR 0x275e197e, T_MASK XOR 0x182c0437,
     0x21e1cde6, T_MASK XOR 0x3cc8f829, T_MASK XOR 0x0b2af278,
     0x455a14ed, T_MASK XOR 0x561c16fa, T_MASK XOR 0x03105c07,
     0x676f02d9, T_MASK XOR 0x72d5b375, T_MASK XOR 0x0005c6bd,
     T_MASK XOR 0x788e097e, 0x6d9d6122, T_MASK XOR 0x021ac7f3,
     T_MASK XOR 0x5b4115bb, 0x4bdecfa9, T_MASK XOR 0x0944b49f,
     T_MASK XOR 0x4140438f, 0x289b7ec6, T_MASK XOR 0x155ed805,
     T_MASK XOR 0x2b10cf7a, 0x04881d05, T_MASK XOR 0x262b2fc6,
     T_MASK XOR 0x1924661a, 0x1fa27cf8, T_MASK XOR 0x3b53a99a,
     T_MASK XOR 0x0bd6ddbb, 0x432aff97, T_MASK XOR 0x546bdc58,
     T_MASK XOR 0x036c5fc6, 0x655b59c3, T_MASK XOR 0x70f3336d,
     T_MASK XOR 0x00100b82, T_MASK XOR 0x7a7ba22e, 0x6fa87e4f,
     T_MASK XOR 0x01d3191f, T_MASK XOR 0x5cfebceb, 0x4e0811a1,
     T_MASK XOR 0x08ac817d, T_MASK XOR 0x42c50dca, 0x2ad7d2bb,
     T_MASK XOR 0x14792c6e]"

definition T :: "nat \<Rightarrow> u32" where
  "T i = md5_T ! (i - 1)"

type_synonym md5_abcd = "u32 \<times> u32 \<times> u32 \<times> u32"

definition ROTATE_LEFT :: "u32 \<Rightarrow> nat \<Rightarrow> u32" where
  "ROTATE_LEFT x n = push_bit n x OR drop_bit (32 - n) x"

definition md5_F :: "u32 \<Rightarrow> u32 \<Rightarrow> u32 \<Rightarrow> u32" where
  "md5_F x y z = (x AND y) OR (NOT x AND z)"

definition md5_G :: "u32 \<Rightarrow> u32 \<Rightarrow> u32 \<Rightarrow> u32" where
  "md5_G x y z = (x AND z) OR (y AND NOT z)"

definition md5_H :: "u32 \<Rightarrow> u32 \<Rightarrow> u32 \<Rightarrow> u32" where
  "md5_H x y z = x XOR y XOR z"

definition md5_I :: "u32 \<Rightarrow> u32 \<Rightarrow> u32 \<Rightarrow> u32" where
  "md5_I x y z = y XOR (x OR NOT z)"

text \<open>
  The macro \<open>SET(a, b, c, d, k, s, Ti)\<close> assigns its first argument. It is called with the
  four registers rotated; there is one state transformer for each of the four argument orders.
\<close>

definition SET :: "(u32 \<Rightarrow> u32 \<Rightarrow> u32 \<Rightarrow> u32) \<Rightarrow> u32 \<Rightarrow> u32 \<Rightarrow> u32 \<Rightarrow> u32 \<Rightarrow> u32 \<Rightarrow> nat \<Rightarrow> u32 \<Rightarrow> u32" where
  "SET f a b c d x s t = ROTATE_LEFT (a + f b c d + x + t) s + b"

fun SET_abcd :: "(u32 \<Rightarrow> u32 \<Rightarrow> u32 \<Rightarrow> u32) \<Rightarrow> u32 list \<Rightarrow> nat \<Rightarrow> nat \<Rightarrow> u32 \<Rightarrow> md5_abcd \<Rightarrow> md5_abcd" where
  "SET_abcd f X k s t (a, b, c, d) = (SET f a b c d (X ! k) s t, b, c, d)"

fun SET_dabc :: "(u32 \<Rightarrow> u32 \<Rightarrow> u32 \<Rightarrow> u32) \<Rightarrow> u32 list \<Rightarrow> nat \<Rightarrow> nat \<Rightarrow> u32 \<Rightarrow> md5_abcd \<Rightarrow> md5_abcd" where
  "SET_dabc f X k s t (a, b, c, d) = (a, b, c, SET f d a b c (X ! k) s t)"

fun SET_cdab :: "(u32 \<Rightarrow> u32 \<Rightarrow> u32 \<Rightarrow> u32) \<Rightarrow> u32 list \<Rightarrow> nat \<Rightarrow> nat \<Rightarrow> u32 \<Rightarrow> md5_abcd \<Rightarrow> md5_abcd" where
  "SET_cdab f X k s t (a, b, c, d) = (a, b, SET f c d a b (X ! k) s t, d)"

fun SET_bcda :: "(u32 \<Rightarrow> u32 \<Rightarrow> u32 \<Rightarrow> u32) \<Rightarrow> u32 list \<Rightarrow> nat \<Rightarrow> nat \<Rightarrow> u32 \<Rightarrow> md5_abcd \<Rightarrow> md5_abcd" where
  "SET_bcda f X k s t (a, b, c, d) = (a, SET f b c d a (X ! k) s t, c, d)"

definition md5_round1 :: "u32 list \<Rightarrow> md5_abcd \<Rightarrow> md5_abcd" where
  "md5_round1 X s = (let
    s = SET_abcd md5_F X 0 7 (T 1) s;
    s = SET_dabc md5_F X 1 12 (T 2) s;
    s = SET_cdab md5_F X 2 17 (T 3) s;
    s = SET_bcda md5_F X 3 22 (T 4) s;
    s = SET_abcd md5_F X 4 7 (T 5) s;
    s = SET_dabc md5_F X 5 12 (T 6) s;
    s = SET_cdab md5_F X 6 17 (T 7) s;
    s = SET_bcda md5_F X 7 22 (T 8) s;
    s = SET_abcd md5_F X 8 7 (T 9) s;
    s = SET_dabc md5_F X 9 12 (T 10) s;
    s = SET_cdab md5_F X 10 17 (T 11) s;
    s = SET_bcda md5_F X 11 22 (T 12) s;
    s = SET_abcd md5_F X 12 7 (T 13) s;
    s = SET_dabc md5_F X 13 12 (T 14) s;
    s = SET_cdab md5_F X 14 17 (T 15) s;
    s = SET_bcda md5_F X 15 22 (T 16) s
    in s)"

definition md5_round2 :: "u32 list \<Rightarrow> md5_abcd \<Rightarrow> md5_abcd" where
  "md5_round2 X s = (let
    s = SET_abcd md5_G X 1 5 (T 17) s;
    s = SET_dabc md5_G X 6 9 (T 18) s;
    s = SET_cdab md5_G X 11 14 (T 19) s;
    s = SET_bcda md5_G X 0 20 (T 20) s;
    s = SET_abcd md5_G X 5 5 (T 21) s;
    s = SET_dabc md5_G X 10 9 (T 22) s;
    s = SET_cdab md5_G X 15 14 (T 23) s;
    s = SET_bcda md5_G X 4 20 (T 24) s;
    s = SET_abcd md5_G X 9 5 (T 25) s;
    s = SET_dabc md5_G X 14 9 (T 26) s;
    s = SET_cdab md5_G X 3 14 (T 27) s;
    s = SET_bcda md5_G X 8 20 (T 28) s;
    s = SET_abcd md5_G X 13 5 (T 29) s;
    s = SET_dabc md5_G X 2 9 (T 30) s;
    s = SET_cdab md5_G X 7 14 (T 31) s;
    s = SET_bcda md5_G X 12 20 (T 32) s
    in s)"

definition md5_round3 :: "u32 list \<Rightarrow> md5_abcd \<Rightarrow> md5_abcd" where
  "md5_round3 X s = (let
    s = SET_abcd md5_H X 5 4 (T 33) s;
    s = SET_dabc md5_H X 8 11 (T 34) s;
    s = SET_cdab md5_H X 11 16 (T 35) s;
    s = SET_bcda md5_H X 14 23 (T 36) s;
    s = SET_abcd md5_H X 1 4 (T 37) s;
    s = SET_dabc md5_H X 4 11 (T 38) s;
    s = SET_cdab md5_H X 7 16 (T 39) s;
    s = SET_bcda md5_H X 10 23 (T 40) s;
    s = SET_abcd md5_H X 13 4 (T 41) s;
    s = SET_dabc md5_H X 0 11 (T 42) s;
    s = SET_cdab md5_H X 3 16 (T 43) s;
    s = SET_bcda md5_H X 6 23 (T 44) s;
    s = SET_abcd md5_H X 9 4 (T 45) s;
    s = SET_dabc md5_H X 12 11 (T 46) s;
    s = SET_cdab md5_H X 15 16 (T 47) s;
    s = SET_bcda md5_H X 2 23 (T 48) s
    in s)"

definition md5_round4 :: "u32 list \<Rightarrow> md5_abcd \<Rightarrow> md5_abcd" where
  "md5_round4 X s = (let
    s = SET_abcd md5_I X 0 6 (T 49) s;
    s = SET_dabc md5_I X 7 10 (T 50) s;
    s = SET_cdab md5_I X 14 15 (T 51) s;
    s = SET_bcda md5_I X 5 21 (T 52) s;
    s = SET_abcd md5_I X 12 6 (T 53) s;
    s = SET_dabc md5_I X 3 10 (T 54) s;
    s = SET_cdab md5_I X 10 15 (T 55) s;
    s = SET_bcda md5_I X 1 21 (T 56) s;
    s = SET_abcd md5_I X 8 6 (T 57) s;
    s = SET_dabc md5_I X 15 10 (T 58) s;
    s = SET_cdab md5_I X 6 15 (T 59) s;
    s = SET_bcda md5_I X 13 21 (T 60) s;
    s = SET_abcd md5_I X 4 6 (T 61) s;
    s = SET_dabc md5_I X 11 10 (T 62) s;
    s = SET_cdab md5_I X 2 15 (T 63) s;
    s = SET_bcda md5_I X 9 21 (T 64) s
    in s)"

text \<open>
  The sixteen words of a block, least significant byte first (line 191; on a little-endian
  machine the code reads the same words straight from memory).
\<close>

definition md5_X :: "bytes \<Rightarrow> u32 list" where
  "md5_X data = map (\<lambda>i. ucast (data ! (4 * i)) + push_bit 8 (ucast (data ! (4 * i + 1)))
      + push_bit 16 (ucast (data ! (4 * i + 2))) + push_bit 24 (ucast (data ! (4 * i + 3))))
    [0..<16]"

definition md5_process :: "md5_abcd \<Rightarrow> bytes \<Rightarrow> md5_abcd" where
  "md5_process abcd data =
    (let X = md5_X data;
         (a0, b0, c0, d0) = abcd;
         (a, b, c, d) = md5_round4 X (md5_round3 X (md5_round2 X (md5_round1 X abcd)))
     in (a0 + a, b0 + b, c0 + c, d0 + d))"

subsection \<open>The streaming interface\<close>

record md5_state_t =
  count0 :: u32
  count1 :: u32
  abcd :: md5_abcd
  buf :: bytes

definition md5_init :: "md5_state_t \<Rightarrow> md5_state_t" where
  "md5_init pms = pms\<lparr> count0 := 0, count1 := 0,
     abcd := (0x67452301, T_MASK XOR 0x10325476, T_MASK XOR 0x67452301, 0x10325476) \<rparr>"

text \<open>The loop over the full blocks; what is left over is returned.\<close>

function md5_full :: "md5_abcd \<Rightarrow> bytes \<Rightarrow> md5_abcd \<times> bytes" where
  "md5_full h p =
    (if 64 \<le> length p then md5_full (md5_process h (take 64 p)) (drop 64 p) else (h, p))"
  by pat_completeness auto
termination
  by (relation "measure (\<lambda>(_, p). length p)") auto

declare md5_full.simps [simp del]

text \<open>\<open>memcpy(buf + off, p, n)\<close>\<close>

definition memcpy :: "bytes \<Rightarrow> nat \<Rightarrow> bytes \<Rightarrow> bytes" where
  "memcpy b off p = take off b @ p @ drop (off + length p) b"

definition md5_append :: "md5_state_t \<Rightarrow> bytes \<Rightarrow> md5_state_t" where
  "md5_append pms data =
    (let nbytes = length data;
         offset = unat (drop_bit 3 (count0 pms) AND 63);
         nbits = push_bit 3 (of_nat nbytes) :: u32
     in if nbytes = 0 then pms
        else
          let c1 = count1 pms + of_nat (nbytes div 2 ^ 29);
              c0 = count0 pms + nbits;
              c1 = (if c0 < nbits then c1 + 1 else c1);
              pms = pms\<lparr> count0 := c0, count1 := c1 \<rparr>;
              copy = (if offset + nbytes > 64 then 64 - offset else nbytes)
          in if offset \<noteq> 0 \<and> offset + copy < 64
             then pms\<lparr> buf := memcpy (buf pms) offset (take copy data) \<rparr>
             else
               let (pms, p) =
                     (if offset \<noteq> 0
                      then let b = memcpy (buf pms) offset (take copy data)
                           in (pms\<lparr> buf := b, abcd := md5_process (abcd pms) b \<rparr>, drop copy data)
                      else (pms, data));
                   (h, left) = md5_full (abcd pms) p
               in pms\<lparr> abcd := h, buf := (if left \<noteq> [] then memcpy (buf pms) 0 left else buf pms) \<rparr>)"

definition md5_pad :: bytes where
  "md5_pad = 0x80 # replicate 63 0"

fun md5_digest_byte :: "md5_abcd \<Rightarrow> nat \<Rightarrow> byte" where
  "md5_digest_byte (a, b, c, d) i = ucast (drop_bit ((i mod 4) * 8) ([a, b, c, d] ! (i div 4)))"

text \<open>The state \<open>md5_finish\<close> leaves, and the digest it stores.\<close>

definition md5_finish :: "md5_state_t \<Rightarrow> md5_state_t \<times> bytes" where
  "md5_finish pms =
    (let data = map (\<lambda>i. ucast (drop_bit ((i mod 4) * 8)
                  (if i div 4 = 0 then count0 pms else count1 pms))) [0..<8];
         pms = md5_append pms (take (unat (((55 - drop_bit 3 (count0 pms)) AND 63) + 1)) md5_pad);
         pms = md5_append pms data
     in (pms, map (md5_digest_byte (abcd pms)) [0..<16]))"

subsection \<open>The reference: RFC 1321 on a whole message\<close>

definition md5_K :: "u32 list" where
  "md5_K =
    [0xd76aa478, 0xe8c7b756, 0x242070db, 0xc1bdceee, 0xf57c0faf, 0x4787c62a,
     0xa8304613, 0xfd469501, 0x698098d8, 0x8b44f7af, 0xffff5bb1, 0x895cd7be,
     0x6b901122, 0xfd987193, 0xa679438e, 0x49b40821, 0xf61e2562, 0xc040b340,
     0x265e5a51, 0xe9b6c7aa, 0xd62f105d, 0x02441453, 0xd8a1e681, 0xe7d3fbc8,
     0x21e1cde6, 0xc33707d6, 0xf4d50d87, 0x455a14ed, 0xa9e3e905, 0xfcefa3f8,
     0x676f02d9, 0x8d2a4c8a, 0xfffa3942, 0x8771f681, 0x6d9d6122, 0xfde5380c,
     0xa4beea44, 0x4bdecfa9, 0xf6bb4b60, 0xbebfbc70, 0x289b7ec6, 0xeaa127fa,
     0xd4ef3085, 0x04881d05, 0xd9d4d039, 0xe6db99e5, 0x1fa27cf8, 0xc4ac5665,
     0xf4292244, 0x432aff97, 0xab9423a7, 0xfc93a039, 0x655b59c3, 0x8f0ccc92,
     0xffeff47d, 0x85845dd1, 0x6fa87e4f, 0xfe2ce6e0, 0xa3014314, 0x4e0811a1,
     0xf7537e82, 0xbd3af235, 0x2ad7d2bb, 0xeb86d391]"

definition md5_shift :: "nat \<Rightarrow> nat" where
  "md5_shift i = [[7, 12, 17, 22], [5, 9, 14, 20], [4, 11, 16, 23], [6, 10, 15, 21]]
     ! (i div 16) ! (i mod 4)"

definition md5_index :: "nat \<Rightarrow> nat" where
  "md5_index i = (if i < 16 then i else if i < 32 then (5 * i + 1) mod 16
     else if i < 48 then (3 * i + 5) mod 16 else (7 * i) mod 16)"

definition md5_fun :: "nat \<Rightarrow> u32 \<Rightarrow> u32 \<Rightarrow> u32 \<Rightarrow> u32" where
  "md5_fun i = (if i < 16 then (\<lambda>b c d. (b AND c) OR (NOT b AND d))
     else if i < 32 then (\<lambda>b c d. (b AND d) OR (c AND NOT d))
     else if i < 48 then (\<lambda>b c d. b XOR c XOR d) else (\<lambda>b c d. c XOR (b OR NOT d)))"

fun md5_step :: "u32 list \<Rightarrow> nat \<Rightarrow> md5_abcd \<Rightarrow> md5_abcd" where
  "md5_step X i (a, b, c, d) =
    (d, b + word_rotl (md5_shift i) (a + md5_fun i b c d + X ! md5_index i + md5_K ! i), b, c)"

fun md5_word :: "bytes \<Rightarrow> u32" where
  "md5_word [] = 0"
| "md5_word (b # bs) = ucast b OR push_bit 8 (md5_word bs)"

definition md5_words :: "bytes \<Rightarrow> u32 list" where
  "md5_words data = map (\<lambda>i. md5_word (take 4 (drop (4 * i) data))) [0..<16]"

definition md5_compress :: "md5_abcd \<Rightarrow> bytes \<Rightarrow> md5_abcd" where
  "md5_compress h data =
    (case (h, fold (md5_step (md5_words data)) [0..<64] h) of
       ((a0, b0, c0, d0), (a, b, c, d)) \<Rightarrow> (a0 + a, b0 + b, c0 + c, d0 + d))"

definition md5_padded :: "bytes \<Rightarrow> bytes" where
  "md5_padded msg = msg @ 0x80 # replicate ((119 - length msg mod 64) mod 64) 0
     @ map (\<lambda>i. ucast (drop_bit (8 * i) (of_nat (8 * length msg) :: u64))) [0..<8]"

definition md5_rfc :: "bytes \<Rightarrow> bytes" where
  "md5_rfc msg =
    (let p = md5_padded msg;
         h = foldl (\<lambda>h i. md5_compress h (take 64 (drop (64 * i) p)))
               (0x67452301, 0xefcdab89, 0x98badcfe, 0x10325476) [0..<length p div 64]
     in map (md5_digest_byte h) [0..<16])"

subsection \<open>The unrolled rounds are the reference loop\<close>


lemma md5_T_K: "md5_T = md5_K"
  by (simp add: md5_T_def md5_K_def T_MASK_def)

lemma ROTATE_LEFT_rotl:
  assumes "0 < n" "n < 32"
  shows "ROTATE_LEFT x n = word_rotl n x"
proof (rule bit_word_eqI)
  fix m :: nat assume m: "m < LENGTH(32)"
  have "bit x (m + 32 - n) \<Longrightarrow> m < n" using bit_imp_le_length [of x "m + 32 - n"] by simp
  with assms m show "bit (ROTATE_LEFT x n) m = bit (word_rotl n x) m"
    by (auto simp: ROTATE_LEFT_def bit_simps mod_if add.commute [of 32 m])
qed

definition md5_same :: "(u32 \<Rightarrow> u32 \<Rightarrow> u32 \<Rightarrow> u32) \<Rightarrow> nat \<Rightarrow> bool" where
  "md5_same f j \<longleftrightarrow> f = md5_fun j \<and> 0 < md5_shift j \<and> md5_shift j < 32"

lemma md5_quad:
  assumes "md5_same f i" "md5_same f (i + 1)" "md5_same f (i + 2)" "md5_same f (i + 3)"
  shows "md5_step X (i + 3) (md5_step X (i + 2) (md5_step X (i + 1) (md5_step X i s)))
    = SET_bcda f X (md5_index (i + 3)) (md5_shift (i + 3)) (md5_K ! (i + 3))
       (SET_cdab f X (md5_index (i + 2)) (md5_shift (i + 2)) (md5_K ! (i + 2))
        (SET_dabc f X (md5_index (i + 1)) (md5_shift (i + 1)) (md5_K ! (i + 1))
         (SET_abcd f X (md5_index i) (md5_shift i) (md5_K ! i) s)))"
  using assms by (cases s) (simp add: md5_same_def SET_def ROTATE_LEFT_rotl add.commute)

lemma md5_same:
  "i < 16 \<Longrightarrow> md5_same md5_F i"
  "16 \<le> i \<Longrightarrow> i < 32 \<Longrightarrow> md5_same md5_G i"
  "32 \<le> i \<Longrightarrow> i < 48 \<Longrightarrow> md5_same md5_H i"
  "48 \<le> i \<Longrightarrow> i < 64 \<Longrightarrow> md5_same md5_I i"
proof -
  have s: "0 < md5_shift i \<and> md5_shift i < 32" if "i < 64"
  proof -
    have "list_all (\<lambda>xs. list_all (\<lambda>x. 0 < x \<and> x < 32) xs \<and> length xs = 4)
      [[7, 12, 17, 22], [5, 9, 14, 20], [4, 11, 16, 23], [6, 10, 15, 21::nat]]" by simp
    moreover have "i div 16 < length [[7, 12, 17, 22], [5, 9, 14, 20], [4, 11, 16, 23], [6, 10, 15, 21::nat]]"
      using that by simp
    moreover have "i mod 4 < 4" by simp
    ultimately show ?thesis unfolding md5_shift_def list_all_length by metis
  qed
  show "i < 16 \<Longrightarrow> md5_same md5_F i"
    using s by (simp add: md5_same_def md5_fun_def fun_eq_iff md5_F_def)
  show "16 \<le> i \<Longrightarrow> i < 32 \<Longrightarrow> md5_same md5_G i"
    using s by (simp add: md5_same_def md5_fun_def fun_eq_iff md5_G_def)
  show "32 \<le> i \<Longrightarrow> i < 48 \<Longrightarrow> md5_same md5_H i"
    using s by (simp add: md5_same_def md5_fun_def fun_eq_iff md5_H_def)
  show "48 \<le> i \<Longrightarrow> i < 64 \<Longrightarrow> md5_same md5_I i"
    using s by (simp add: md5_same_def md5_fun_def fun_eq_iff md5_I_def)
qed

lemmas md5_unroll = upt_rec_numeral T_def md5_T_K Let_def md5_same md5_shift_def md5_index_def

lemma round1: "fold (md5_step X) [0..<16] s = md5_round1 X s"
proof -
  have *: "[0..<16] = 0 # 1 # [2..<16]" by (simp add: upt_rec)
  show ?thesis
  using md5_quad [of md5_F 0 X, unfolded add_0] md5_quad [of md5_F 4 X] md5_quad [of md5_F 8 X] md5_quad [of md5_F 12 X]
  unfolding * by (simp add: md5_round1_def md5_unroll)
qed

lemma round2: "fold (md5_step X) [16..<32] s = md5_round2 X s"
  using md5_quad [of md5_G 16 X] md5_quad [of md5_G 20 X] md5_quad [of md5_G 24 X] md5_quad [of md5_G 28 X]
  by (simp add: md5_round2_def md5_unroll)

lemma round3: "fold (md5_step X) [32..<48] s = md5_round3 X s"
  using md5_quad [of md5_H 32 X] md5_quad [of md5_H 36 X] md5_quad [of md5_H 40 X] md5_quad [of md5_H 44 X]
  by (simp add: md5_round3_def md5_unroll)

lemma round4: "fold (md5_step X) [48..<64] s = md5_round4 X s"
  using md5_quad [of md5_I 48 X] md5_quad [of md5_I 52 X] md5_quad [of md5_I 56 X] md5_quad [of md5_I 60 X]
  by (simp add: md5_round4_def md5_unroll)

lemma md5_X_words: assumes "length data = 64" shows "md5_X data = md5_words data"
proof -
  have "ucast (a::byte) + push_bit 8 (ucast (b::byte)) + push_bit 16 (ucast (c::byte)) + push_bit 24 (ucast (d::byte))
   = (ucast a OR push_bit 8 (ucast b OR push_bit 8 (ucast c OR push_bit 8 (ucast d))) :: u32)" for a b c d
    apply (subst disjunctive_add, force simp: bit_simps dest: bit_byte)+
    by (rule bit_word_eqI, auto simp: bit_simps dest: bit_byte)
  moreover have "take 4 (drop (4 * i) data) = [data ! (4*i), data ! (4 * i + 1), data ! (4 * i + 2), data ! (4 * i + 3)]"
    if "i < 16" for i
    using that assms by (auto intro!: nth_equalityI simp: less_Suc_eq numeral_eq_Suc)
  ultimately show ?thesis by (simp add: md5_X_def md5_words_def)
qed

lemma md5_process_compress:
  assumes "length data = 64" shows "md5_process h data = md5_compress h data"
proof -
  have "[0..<64] = [0..<16] @ [16..<32] @ [32..<48] @ [48..<64]"
    using upt_add_eq_append [of 0 16 48] upt_add_eq_append [of 16 32 32]
      upt_add_eq_append [of 32 48 16] by simp
  then have "fold (md5_step X) [0..<64] h = md5_round4 X (md5_round3 X (md5_round2 X (md5_round1 X h)))"
    for X by (simp only: fold_append o_apply round1 round2 round3 round4)
  then show ?thesis
    using assms by (simp only: md5_process_def md5_compress_def md5_X_words Let_def)
      (simp split: prod.splits)
qed

subsection \<open>Streaming\<close>

lemma md5_full_short [simp]: "length p < 64 \<Longrightarrow> md5_full h p = (h, p)"
  by (subst md5_full.simps) simp

lemma md5_full_block: "length b = 64 \<Longrightarrow> md5_full h (b @ p) = md5_full (md5_process h b) p"
  by (subst md5_full.simps) simp

lemma md5_full_append:
  "md5_full h m = (h', r) \<Longrightarrow> md5_full h (m @ data) = md5_full h' (r @ data)"
proof (induction h m rule: md5_full.induct)
  case (1 h p)
  show ?case
  proof (cases "64 \<le> length p")
    case True
    then have "md5_full (md5_process h (take 64 p)) (drop 64 p) = (h', r)"
      using 1(2) by (simp add: md5_full.simps [of h p])
    with 1(1) True have "md5_full (md5_process h (take 64 p)) (drop 64 p @ data) = md5_full h' (r @ data)"
      by simp
    with True show ?thesis
      using md5_full_block [of "take 64 p" h "drop 64 p @ data"]
      by (simp only: append_assoc [symmetric] append_take_drop_id) simp
  next
    case False
    with 1(2) show ?thesis by simp
  qed
qed

lemma md5_full_rest: "length (snd (md5_full h m)) = length m mod 64"
proof (induction h m rule: md5_full.induct)
  case (1 h p)
  then show ?case
    by (cases "64 \<le> length p") (simp_all add: md5_full.simps [of h p] le_mod_geq)
qed

text \<open>The invariant of a hashing state after the bytes \<open>m\<close> have been appended.\<close>

definition md5_inv :: "md5_state_t \<Rightarrow> bytes \<Rightarrow> bool" where
  "md5_inv pms m \<longleftrightarrow> length (buf pms) = 64
    \<and> unat (count0 pms) + 2 ^ 32 * unat (count1 pms) = 8 * length m mod 2 ^ 64
    \<and> md5_full (0x67452301, 0xefcdab89, 0x98badcfe, 0x10325476) m
       = (abcd pms, take (length m mod 64) (buf pms))"

lemma md5_init_inv: "length (buf pms) = 64 \<Longrightarrow> md5_inv (md5_init pms) []"
  by (simp add: md5_inv_def md5_init_def T_MASK_def)

lemma md5_count_step:
  fixes c0 c1 :: u32
  assumes "unat c0 + 2 ^ 32 * unat c1 = 8 * l mod 2 ^ 64"
    and "c0' = c0 + push_bit 3 (of_nat n)"
    and "c1' = c1 + of_nat (n div 2 ^ 29) + (if c0' < push_bit 3 (of_nat n) then 1 else 0)"
  shows "unat c0' + 2 ^ 32 * unat c1' = 8 * (l + n) mod 2 ^ 64"
proof -
  define k where "k = 8 * n mod 2 ^ 32"
  define q where "q = n div 2 ^ 29"
  have "q = 8 * n div 2 ^ 32" unfolding q_def by simp
  then have nk: "8 * n = 2 ^ 32 * q + k"
    unfolding k_def by (simp only: mult_div_mod_eq)
  have p: "unat (push_bit 3 (of_nat n) :: u32) = k"
  proof -
    have "push_bit 3 (of_nat n) = (of_nat (8 * n) :: u32)" by (simp add: push_bit_eq_mult)
    then show ?thesis by (simp only: unat_of_nat k_def take_bit_eq_mod) simp
  qed
  have c0': "unat c0' = (unat c0 + k) mod 2 ^ 32"
    unfolding assms(2) unat_word_ariths p by simp
  have lt: "unat c0 < 2 ^ 32" "k < 2 ^ 32"
    using unsigned_less [of c0] by (simp_all add: k_def)
  have c: "(c0' < push_bit 3 (of_nat n)) = (2 ^ 32 \<le> unat c0 + k)"
    unfolding word_less_nat_alt p c0' using lt by (auto simp: mod_if)
  have d: "(unat c0 + k) div 2 ^ 32 = (if 2 ^ 32 \<le> unat c0 + k then 1 else 0)"
    using lt by (auto simp: div_if)
  have c1': "unat c1' = (unat c1 + q + (unat c0 + k) div 2 ^ 32) mod 2 ^ 32"
    unfolding assms(3) c d q_def [symmetric]
    by (simp add: unat_word_ariths unat_of_nat take_bit_eq_mod mod_simps)
  have "unat c0' + 2 ^ 32 * unat c1' = (unat c0 + k + 2 ^ 32 * (unat c1 + q)) mod (2 ^ 32 * 2 ^ 32)"
    unfolding mod_mult2_eq c0' c1' mod_mult_self2 by (subst div_mult_self2) (simp_all add: ac_simps)
  also have "\<dots> = (8 * l mod 2 ^ 64 + 8 * n) mod 2 ^ 64"
    unfolding nk assms(1) [symmetric] by (simp add: algebra_simps)
  also have "\<dots> = 8 * (l + n) mod 2 ^ 64"
    by (simp add: mod_simps algebra_simps)
  finally show ?thesis .
qed

lemma md5_offset:
  fixes c0 c1 :: u32
  assumes "unat c0 + 2 ^ 32 * unat c1 = 8 * l mod 2 ^ 64"
  shows "unat (drop_bit 3 c0 AND 63) = l mod 64"
proof -
  have lt: "unat c0 < 2 ^ 32" using unsigned_less [of c0] by simp
  have "(8 * l mod 2 ^ 64) mod 2 ^ 32 = unat c0"
    unfolding assms [symmetric] using lt by simp
  then have c0: "unat c0 = 8 * l mod 2 ^ 32" by (simp add: mod_mod_cancel)
  have "drop_bit 3 c0 AND 63 = take_bit 6 (drop_bit 3 c0)"
    by (simp add: take_bit_eq_mask mask_eq_exp_minus_1)
  also have "unat \<dots> = unat c0 div 8 mod 64"
    by (simp add: take_bit_eq_mod drop_bit_eq_div unat_div unat_mod)
  also have "\<dots> = l mod 64"
    unfolding c0 by (simp add: mult_mod_right [of 8 l "2 ^ 29", simplified, symmetric] mod_mod_cancel)
  finally show ?thesis .
qed

lemma length_memcpy: "off + length p \<le> length b \<Longrightarrow> length (memcpy b off p) = length b"
  by (simp add: memcpy_def)

lemma md5_tail:
  assumes "length left < 64" "length b = 64" "b' = (if left \<noteq> [] then memcpy b 0 left else b)"
  shows "length b' = 64" "take (length left) b' = left"
  using assms by (auto simp: memcpy_def)

lemma md5_append_counts:
  assumes "md5_inv pms m"
  shows "unat (count0 (md5_append pms data)) + 2 ^ 32 * unat (count1 (md5_append pms data))
    = 8 * length (m @ data) mod 2 ^ 64"
proof (cases "data = []")
  case True
  with assms show ?thesis by (simp add: md5_append_def md5_inv_def)
next
  case False
  define n where "n = length data"
  define c0 where "c0 = count0 pms + push_bit 3 (of_nat n)"
  define c1 where "c1 = count1 pms + of_nat (n div 2 ^ 29) + (if c0 < push_bit 3 (of_nat n) then 1 else 0)"
  from False have "n \<noteq> 0" by (simp add: n_def)
  with False have "count0 (md5_append pms data) = c0 \<and> count1 (md5_append pms data) = c1"
    unfolding md5_append_def Let_def n_def [symmetric] c0_def [symmetric]
    by (simp add: c1_def n_def [symmetric] split: prod.splits)
  moreover have "unat c0 + 2 ^ 32 * unat c1 = 8 * (length m + n) mod 2 ^ 64"
    using assms by (intro md5_count_step [OF _ c0_def c1_def]) (simp add: md5_inv_def)
  ultimately show ?thesis by (simp add: n_def)
qed

lemma md5_append_hash:
  assumes "md5_full h0 m = (abcd pms, take off (buf pms))" and "length (buf pms) = 64"
    and "off = length m mod 64" and "unat (drop_bit 3 (count0 pms) AND 63) = off"
  shows "length (buf (md5_append pms data)) = 64 \<and> md5_full h0 (m @ data)
    = (abcd (md5_append pms data), take (length (m @ data) mod 64) (buf (md5_append pms data)))"
proof -
  let ?r = "take off (buf pms)"
  have off: "off < 64" "length ?r = off" using assms(2,3) by simp_all
  have full: "md5_full h0 (m @ data) = md5_full (abcd pms) (?r @ data)"
    by (rule md5_full_append [OF assms(1)])
  have l: "length (snd (md5_full h p)) = length (m @ data) mod 64" if "length p = off + length data \<or> length p + 64 = off + length data" for h p
    using that unfolding md5_full_rest assms(3) by (auto simp: mod_simps dest: arg_cong [of _ _ "\<lambda>x. x mod 64"])
  consider "data = []" | "data \<noteq> []" "off = 0" | "off \<noteq> 0" "data \<noteq> []" "off + length data < 64" | "off \<noteq> 0" "64 \<le> off + length data"
    by linarith
  then show ?thesis
  proof cases
    case 1
    with assms show ?thesis by (simp add: md5_append_def)
  next
    case 2
    obtain h left where f: "md5_full (abcd pms) data = (h, left)" by fastforce
    with l [of data "abcd pms"] 2 have "length left = length (m @ data) mod 64" by simp
    with md5_tail [OF _ assms(2) refl, of left] 2 f full show ?thesis
      by (auto simp: md5_append_def assms(4) Let_def)
  next
    case 3
    have "length (m @ data) mod 64 = off + length data" using 3 off assms(3)
      by simp (metis mod_add_left_eq mod_less)
    with 3 full off assms show ?thesis
      by (simp add: md5_append_def Let_def memcpy_def)
  next
    case 4
    let ?c = "64 - off" and ?b = "?r @ take (64 - off) data"
    have b: "memcpy (buf pms) off (take ?c data) = ?b" "length ?b = 64"
      "?r @ data = ?b @ drop ?c data"
      using 4 assms(2) off by (simp_all add: memcpy_def)
    obtain h left where f: "md5_full (md5_process (abcd pms) ?b) (drop ?c data) = (h, left)" by fastforce
    with l [of "drop ?c data" "md5_process (abcd pms) ?b"] 4 off(1) have left: "length left = length (m @ data) mod 64" by simp
    have full': "md5_full h0 (m @ data) = (h, left)"
      unfolding full b(3) md5_full_block [OF b(2)] f ..
    have c: "(if off + length data > 64 then 64 - off else length data) = ?c" using 4 by auto
    have "data \<noteq> []" using 4 off by auto
    then have "abcd (md5_append pms data) = h"
      "buf (md5_append pms data) = (if left \<noteq> [] then memcpy ?b 0 left else ?b)"
      using 4 off(1) by (simp_all add: md5_append_def Let_def assms(4) c b f)
    with md5_tail [OF _ b(2) refl, of left] left full' show ?thesis by simp
  qed
qed

lemma md5_append_inv: "md5_inv pms m \<Longrightarrow> md5_inv (md5_append pms data) (m @ data)"
  using md5_append_counts [of pms m data] md5_append_hash
      [of "(0x67452301, 0xefcdab89, 0x98badcfe, 0x10325476)" m pms "length m mod 64" data]
    md5_offset [of "count0 pms" "count1 pms" "length m"]
  by (simp add: md5_inv_def)

lemma md5_appends_inv: "md5_inv pms m \<Longrightarrow> md5_inv (foldl md5_append pms ds) (m @ concat ds)"
proof (induction ds arbitrary: pms m)
  case (Cons d ds)
  from Cons.IH [OF md5_append_inv [OF Cons.prems]] show ?case by simp
qed simp

lemma md5_full_foldl:
  assumes "length p = 64 * n"
  shows "md5_full h p
    = (foldl (\<lambda>h i. md5_compress h (take 64 (drop (64 * i) p))) h [0..<n], [])"
  using assms
proof (induction n arbitrary: h p)
  case (Suc n)
  have "foldl (\<lambda>h i. md5_compress h (take 64 (drop (64 * i) p))) h [0..<Suc n] =
     foldl (\<lambda>h i. md5_compress h (take 64 (drop (64 * Suc i) p))) (md5_compress h (take 64 p)) [0..<n]"
    by (simp add: upt_conv_Cons map_Suc_upt [symmetric] foldl_map del: upt_Suc)
  also have "\<dots> = foldl (\<lambda>h i. md5_compress h (take 64 (drop (64 * i) (drop 64 p)))) (md5_compress h (take 64 p)) [0..<n]"
    by (simp add: add.commute)
  finally show ?case
    using Suc md5_full_block [of "take 64 p" h "drop 64 p"] by (simp add: md5_process_compress)
qed simp

lemma md5_count_bytes:
  fixes c0 c1 :: u32
  assumes "unat c0 + 2 ^ 32 * unat c1 = 8 * l mod 2 ^ 64"
  shows "map (\<lambda>i. ucast (drop_bit ((i mod 4) * 8) (if i div 4 = 0 then c0 else c1)) :: byte) [0..<8]
    = map (\<lambda>i. ucast (drop_bit (8 * i) (of_nat (8 * l) :: u64))) [0..<8]"
proof -
  have "(of_nat (8 * l) :: u64) = of_nat (8 * l mod 2 ^ 64)"
    by (simp only: word_of_nat_eq_iff take_bit_eq_mod) simp
  also have "\<dots> = ucast c0 + push_bit 32 (ucast c1)"
    unfolding assms [symmetric] by (simp add: push_bit_eq_mult)
  also have "\<dots> = ucast c0 OR push_bit 32 (ucast c1)"
    by (rule disjunctive_add) (auto simp: bit_simps dest: bit_imp_le_length)
  finally have e: "(of_nat (8 * l) :: u64) = ucast c0 OR push_bit 32 (ucast c1)" .
  have "(ucast (drop_bit ((i mod 4) * 8) (if i div 4 = 0 then c0 else c1)) :: byte)
    = ucast (drop_bit (8 * i) (ucast c0 OR push_bit 32 (ucast c1) :: u64))" if "i < 8" for i
  proof (cases "i < 4")
    case True
    then have "i mod 4 = i" "i div 4 = 0" by simp_all
    then show ?thesis using True by (intro bit_word_eqI) (simp add: bit_simps mult.commute)
  next
    case False
    with that obtain j where "i = 4 + j" "j < 4" using le_Suc_ex [of 4 i] by auto
    then have "i mod 4 = j" "i div 4 = 1" "8 * i = 32 + j * 8" "j < 4" by simp_all
    moreover have "\<not> bit c0 (32 + k)" for k using bit_imp_le_length [of c0 "32 + k"] by auto
    ultimately show ?thesis
      by (intro bit_word_eqI) (simp add: bit_simps add.assoc)
  qed
  then show ?thesis unfolding e by (rule map_cong [OF refl]) (simp only: set_upt atLeastLessThan_iff)
qed

lemma md5_padlen_int: "(55 - u) mod 2 ^ 32 mod 64 = (119 - u mod 64) mod (64::int)"
proof -
  have "(55 - u) mod 2 ^ 32 mod 64 = (55 - u) mod 64" by (simp add: mod_mod_cancel)
  also have "\<dots> = (55 - u + 64) mod 64" by (rule mod_add_self2 [symmetric])
  also have "55 - u + 64 = 119 - u" by simp
  also have "(119 - u) mod 64 = (119 - u mod 64) mod 64" by (rule mod_diff_right_eq [symmetric])
  finally show ?thesis .
qed

lemma uint_and_63: "uint ((x::u32) AND 63) = uint x mod 64"
proof -
  have "x AND 63 = take_bit 6 x" by (simp add: take_bit_eq_mask mask_eq_exp_minus_1)
  then show ?thesis by (simp add: take_bit_eq_mod uint_mod)
qed

lemma unat_suc_small: "unat x = z \<Longrightarrow> z < 64 \<Longrightarrow> unat (x + 1) = z + 1" for x :: u32
  by (simp add: unat_word_ariths)

lemma md5_padlen:
  fixes c :: u32
  assumes "unat (c AND 63) = l mod 64"
  shows "unat (((55 - c) AND 63) + 1) = (119 - l mod 64) mod 64 + 1"
proof (rule unat_suc_small)
  have "int (l mod 64) = uint c mod 64" using assms uint_and_63 [of c] by (metis uint_nat)
  moreover have "uint ((55 - c) AND 63) = (119 - uint c mod 64) mod 64"
    unfolding uint_and_63 uint_word_ariths md5_padlen_int [symmetric] by simp
  moreover have "int (119 - r) = 119 - int r" if "r < 64" for r
    using that by simp
  ultimately have "uint ((55 - c) AND 63) = int ((119 - l mod 64) mod 64)"
    by (metis of_nat_mod of_nat_numeral mod_less_divisor zero_less_numeral)
  then show "unat ((55 - c) AND 63) = (119 - l mod 64) mod 64"
    by (metis nat_int unat_eq_nat_uint)
qed (rule mod_less_divisor, simp)

lemma md5_pad_take: "z < 64 \<Longrightarrow> take (z + 1) md5_pad = 0x80 # replicate z 0"
  by (simp add: md5_pad_def)

lemma md5_padded_length: "\<exists>n. length (md5_padded m) = 64 * n"
proof -
  define q where "q = length m div 64"
  define r where "r = length m mod 64"
  have l: "length m = 64 * q + r" and r: "r < 64" by (simp_all add: q_def r_def)
  have "length (md5_padded m) = length m + (119 - r) mod 64 + 9"
    by (simp add: md5_padded_def r_def)
  also have "\<dots> = 64 * (if r \<le> 55 then q + 1 else q + 2)"
    using r by (auto simp: l mod_if)
  finally show ?thesis ..
qed

lemma md5_finish_rfc:
  assumes "md5_inv pms m" shows "snd (md5_finish pms) = md5_rfc m"
proof -
  let ?init = "(0x67452301, 0xefcdab89, 0x98badcfe, 0x10325476) :: md5_abcd"
  let ?z = "(119 - length m mod 64) mod 64"
  let ?len = "map (\<lambda>i. ucast (drop_bit (8 * i) (of_nat (8 * length m) :: u64))) [0..<8] :: bytes"
  have c: "unat (count0 pms) + 2 ^ 32 * unat (count1 pms) = 8 * length m mod 2 ^ 64"
    using assms by (simp add: md5_inv_def)
  have pad: "take (?z + 1) md5_pad = 0x80 # replicate ?z 0"
    by (intro md5_pad_take mod_less_divisor) simp
  define p1 where "p1 = md5_append pms (take (?z + 1) md5_pad)"
  define p2 where "p2 = md5_append p1 ?len"
  have fin: "snd (md5_finish pms) = map (md5_digest_byte (abcd p2)) [0..<16]"
    unfolding md5_finish_def Let_def md5_count_bytes [OF c] md5_padlen [OF md5_offset [OF c]]
      p1_def [symmetric] p2_def [symmetric] by (rule snd_conv)
  have "md5_inv p2 ((m @ take (?z + 1) md5_pad) @ ?len)"
    unfolding p2_def p1_def by (intro md5_append_inv assms)
  then have inv: "md5_inv p2 (md5_padded m)"
    unfolding md5_padded_def pad by (simp only: append_assoc append_Cons)
  obtain n where n: "length (md5_padded m) = 64 * n" using md5_padded_length ..
  have "abcd p2 = fst (md5_full ?init (md5_padded m))" using inv by (simp only: md5_inv_def fst_conv)
  then show ?thesis
    by (simp only: fin md5_rfc_def md5_full_foldl [OF n] n Let_def fst_conv
        nonzero_mult_div_cancel_left [of 64] zero_neq_numeral [symmetric] not_False_eq_True)
qed

lemma md5_finish_length:
  "md5_inv pms m \<Longrightarrow> length (buf (fst (md5_finish pms))) = 64"
  unfolding md5_finish_def Let_def fst_conv
  using md5_append_inv [OF md5_append_inv] unfolding md5_inv_def by meson

subsection \<open>Properties\<close>

text \<open>
  C3: however a message is split into chunks, \<open>md5_init\<close>, one \<open>md5_append\<close> per chunk and
  \<open>md5_finish\<close> compute the RFC 1321 digest of the whole message, also across the carry of the
  64-bit length and whatever garbage the state's buffer held before.
\<close>

theorem md5_stream_rfc:
  assumes "length (buf pms) = 64"
  shows "snd (md5_finish (foldl md5_append (md5_init pms) chunks)) = md5_rfc (concat chunks)"
  using md5_finish_rfc [OF md5_appends_inv [OF md5_init_inv [OF assms], of chunks]] by simp

theorem md5_stream_rfc_witness:
  "length (buf \<lparr>count0 = 5, count1 = 6, abcd = (1, 2, 3, 4), buf = replicate 64 7\<rparr>) = 64
   \<and> snd (md5_finish (foldl md5_append
        (md5_init \<lparr>count0 = 5, count1 = 6, abcd = (1, 2, 3, 4), buf = replicate 64 7\<rparr>)
        [[0x61], [], [0x62, 0x63]])) = md5_rfc [0x61, 0x62, 0x63]"
  using md5_stream_rfc
    [of "\<lparr>count0 = 5, count1 = 6, abcd = (1, 2, 3, 4), buf = replicate 64 7\<rparr>" "[[0x61], [], [0x62, 0x63]]"]
  by simp

text \<open>
  C4: the 64 unrolled \<open>SET\<close> operations of \<open>md5_process\<close>, with the constants written as
  complements, are the 64-step loop of RFC 1321 with the tabulated sines on every block.
\<close>

theorem md5_process_is_loop:
  assumes "length data = 64"
  shows "md5_process h data = md5_compress h data"
  by (rule md5_process_compress [OF assms])

theorem md5_process_is_loop_witness:
  "md5_process (1, 2, 3, 4) (replicate 64 9) = md5_compress (1, 2, 3, 4) (replicate 64 9)"
  by (rule md5_process_is_loop) simp

end
