(* ===== verification/HaP_Http_Auth.thy ===== *)
theory HaP_Http_Auth
  imports HaP_Base64 HaP_Md5
begin

text \<open>
  Proxy authentication of \<open>src/jni/redsocks/http-auth.c\<close>: the \<open>Basic\<close> credentials, the parser
  for the parameters of a \<open>Proxy-Authenticate: Digest\<close> challenge and the answer to it.

  A pointer to a string that may be NULL is a \<^typ>\<open>string option\<close>. The hashing state \<open>ctx\<close> is an
  uninitialised local variable of the code, so it is an argument here and the theorems hold for
  whatever it contains.
\<close>

subsection \<open>Basic\<close>

definition basic_authentication_encode :: "string \<Rightarrow> string \<Rightarrow> string option" where
  "basic_authentication_encode user passwd =
    (let pair = user @ '':'' @ passwd;
         basic_len = BASE64_SIZE (length pair)
     in base64_encode basic_len (bytes_of_string pair))"

subsection \<open>The challenge parser\<close>

definition dump_hash :: "bytes \<Rightarrow> string" where
  "dump_hash hash = concat (map (\<lambda>i. hex_byte (hash ! i)) [0..<16])"

text \<open>
  \<open>*p == c\<close>, where the NUL at the end of the string is no separator; and
  \<open>if (*p == separator) ++p;\<close>
\<close>

definition at_char :: "char \<Rightarrow> string \<Rightarrow> bool" where
  "at_char c p \<longleftrightarrow> p \<noteq> [] \<and> hd p = c"

definition skip_separator :: "char \<Rightarrow> string \<Rightarrow> string" where
  "skip_separator separator p = (if at_char separator p then tl p else p)"

text \<open>The part after the \<open>=\<close>: what is left of the source, and the value.\<close>

definition extract_value :: "string \<Rightarrow> char \<Rightarrow> (string \<times> string) option" where
  "extract_value p0 separator =
    (let p = dropWhile isspace p0 in
     if at_char (CHR 0x22) p then
       let value = takeWhile (\<lambda>c. c \<noteq> CHR 0x22) (tl p);
           p = dropWhile (\<lambda>c. c \<noteq> CHR 0x22) (tl p) in
       if p = [] then None else
       let p = dropWhile (\<lambda>c. c \<noteq> separator) (dropWhile isspace (tl p)) in
       if at_char separator p then Some (tl p, value)
       else if p \<noteq> [] then None
       else Some (p, value)
     else
       let value = rev (dropWhile isspace (rev (takeWhile (\<lambda>c. c \<noteq> separator) p)));
           p = dropWhile (\<lambda>c. c \<noteq> separator) p in
       Some (skip_separator separator p, value))"

text \<open>
  \<^const>\<open>None\<close> is the return value 0; otherwise the triple is the new \<open>*source\<close> and the two tokens.
\<close>

definition name_end :: "char \<Rightarrow> char \<Rightarrow> bool" where
  "name_end separator c \<longleftrightarrow> isspace c \<or> c = CHR ''='' \<or> c = separator"

definition extract_param :: "string \<Rightarrow> char \<Rightarrow> (string \<times> string \<times> string) option" where
  "extract_param source separator =
    (let p = dropWhile isspace source in
     if p = [] then None else
     let name = takeWhile (\<lambda>c. \<not> name_end separator c) p;
         p = dropWhile (\<lambda>c. \<not> name_end separator c) p in
     if name = [] then None else
     let p = dropWhile isspace p in
     if at_char separator p \<or> p = [] then Some (skip_separator separator p, name, [])
     else if \<not> at_char (CHR ''='') p then None else
     case extract_value (tl p) separator of
       None \<Rightarrow> None
     | Some (p, value) \<Rightarrow> Some (p, name, value))"

record digest_params =
  realm :: "string option"
  opaque :: "string option"
  nonce :: "string option"
  qop :: "string option"

text \<open>
  One turn of the loop over the parameters. \<open>strncasecmp\<close> is given the length of the name
  found, so every non-empty prefix of one of the four names is accepted for it.
\<close>

definition digest_set_param :: "digest_params \<Rightarrow> string \<Rightarrow> string \<Rightarrow> digest_params" where
  "digest_set_param ps name value =
    (if strncasecmp0 name ''realm'' (length name) then ps\<lparr> realm := Some value \<rparr>
     else if strncasecmp0 name ''opaque'' (length name) then ps\<lparr> opaque := Some value \<rparr>
     else if strncasecmp0 name ''nonce'' (length name) then ps\<lparr> nonce := Some value \<rparr>
     else if strncasecmp0 name ''qop'' (length name) then ps\<lparr> qop := Some value \<rparr>
     else ps)"

lemma suffix_skip_separator: "suffix p q \<Longrightarrow> suffix (skip_separator sep p) q"
  by (simp add: skip_separator_def suffix_tlI)

lemma extract_value_suffix:
  "extract_value p0 sep = Some (p, v) \<Longrightarrow> suffix p p0"
  unfolding extract_value_def Let_def
  by (auto split: if_splits intro!: suffix_intros suffix_skip_separator)

lemma extract_param_shorter:
  assumes "extract_param src sep = Some (rest, name, value)"
  shows "length rest < length src"
proof -
  define p where "p = dropWhile isspace src"
  define q where "q = dropWhile (\<lambda>c. \<not> name_end sep c) p"
  have "suffix rest q \<and> takeWhile (\<lambda>c. \<not> name_end sep c) p \<noteq> []"
    using assms unfolding extract_param_def Let_def p_def [symmetric] q_def [symmetric]
    by (auto split: if_splits option.splits
        intro!: suffix_intros suffix_skip_separator intro: suffix_order.trans
        dest!: extract_value_suffix)
  then have "length rest \<le> length q" "length q < length p"
    using length_dropWhile_less by (auto simp: q_def dest: suffix_length_le)
  with length_dropWhile_le [of isspace src] show ?thesis by (simp add: p_def)
qed

text \<open>The loop \<open>while (extract_param(&ptr, &name, &value, ','))\<close>.\<close>

function digest_collect :: "digest_params \<Rightarrow> string \<Rightarrow> digest_params" where
  "digest_collect ps ptr =
    (case extract_param ptr (CHR '','') of
       None \<Rightarrow> ps
     | Some (ptr', name, value) \<Rightarrow> digest_collect (digest_set_param ps name value) ptr')"
  by pat_completeness auto
termination
  by (relation "measure (\<lambda>(_, ptr). length ptr)") (auto dest: extract_param_shorter)

declare digest_collect.simps [simp del]

definition no_params :: digest_params where
  "no_params = \<lparr> realm = None, opaque = None, nonce = None, qop = None \<rparr>"

subsection \<open>Digest\<close>

text \<open>\<open>md5_init\<close>, one \<open>md5_append\<close> per string, \<open>md5_finish\<close>, \<open>dump_hash\<close>\<close>

definition md5_hash_strings :: "md5_state_t \<Rightarrow> string list \<Rightarrow> md5_state_t \<times> string" where
  "md5_hash_strings ctx ss =
    (let (ctx, hash) = md5_finish (foldl md5_append (md5_init ctx) (map bytes_of_string ss))
     in (ctx, dump_hash hash))"

text \<open>The answer to a challenge, and the number of bytes \<open>malloc\<close> is asked for to hold it.\<close>

definition digest_result ::
  "string \<Rightarrow> string \<Rightarrow> string \<Rightarrow> string \<Rightarrow> string \<Rightarrow> string option \<Rightarrow> string option \<Rightarrow> string \<Rightarrow> string \<Rightarrow> string"
where
  "digest_result user rlm nnc path response qp opq nc cnonce =
    (let dq = [CHR 0x22];
         res = ''username='' @ dq @ user @ dq @ '', realm='' @ dq @ rlm @ dq @ '', nonce='' @ dq @ nnc
               @ dq @ '', uri='' @ dq @ path @ dq @ '', response='' @ dq @ response @ dq;
         res = (case qp of None \<Rightarrow> res
                | Some q \<Rightarrow> res @ '', qop='' @ q @ '', nc='' @ nc @ '', cnonce='' @ dq @ cnonce @ dq)
     in case opq of None \<Rightarrow> res | Some p \<Rightarrow> res @ '', opaque='' @ dq @ p @ dq)"

definition digest_result_len ::
  "string \<Rightarrow> string \<Rightarrow> string \<Rightarrow> string \<Rightarrow> string \<Rightarrow> string option \<Rightarrow> string option \<Rightarrow> string \<Rightarrow> string \<Rightarrow> nat"
where
  "digest_result_len user rlm nnc path response qp opq nc cnonce =
    256 + length user + length rlm + length nnc + length path + length response
    + (case qp of None \<Rightarrow> 0 | Some q \<Rightarrow> length q + length nc + length cnonce)
    + (case opq of None \<Rightarrow> 0 | Some p \<Rightarrow> length p)"

definition digest_authentication_encode ::
  "md5_state_t \<Rightarrow> string \<Rightarrow> string option \<Rightarrow> string option \<Rightarrow> string option \<Rightarrow> string option
   \<Rightarrow> u32 \<Rightarrow> string \<Rightarrow> string option"
where
  "digest_authentication_encode ctx line user passwd method path count cnonce =
    (let nc = hex_u32 count;
         ps = digest_collect no_params line
     in case (realm ps, nonce ps, user, passwd, path, method) of
       (Some rlm, Some nnc, Some user, Some passwd, Some path, Some method) \<Rightarrow>
         if (case qop ps of None \<Rightarrow> False | Some q \<Rightarrow> \<not> strncasecmp0 q ''auth'' 5) then None
         else
           let (ctx, a1buf) = md5_hash_strings ctx [user, '':'', rlm, '':'', passwd];
               (ctx, a2buf) = md5_hash_strings ctx [method, '':'', path];
               (ctx, response) = md5_hash_strings ctx
                 ([a1buf, '':'', nnc, '':'']
                  @ (case qop ps of None \<Rightarrow> []
                     | Some q \<Rightarrow> [nc, '':'', cnonce, '':'', q, '':''])
                  @ [a2buf])
           in Some (digest_result user rlm nnc path response (qop ps) (opaque ps) nc cnonce)
     | _ \<Rightarrow> None)"

subsection \<open>Parsing a well-formed challenge\<close>

definition challenge_param :: "string \<times> string \<Rightarrow> string" where
  "challenge_param p = fst p @ ''='' @ [CHR 0x22] @ snd p @ [CHR 0x22]"

fun challenge :: "(string \<times> string) list \<Rightarrow> string" where
  "challenge [] = []"
| "challenge [p] = challenge_param p"
| "challenge (p # q # ps) = challenge_param p @ '', '' @ challenge (q # ps)"

definition good_param :: "string \<times> string \<Rightarrow> bool" where
  "good_param p \<longleftrightarrow> fst p \<noteq> [] \<and> list_all (\<lambda>c. \<not> name_end (CHR '','') c) (fst p)
     \<and> list_all (\<lambda>c. c \<noteq> CHR 0x22) (snd p)"

lemma isspace_simps [simp]:
  "isspace (CHR '' '')" "\<not> isspace (CHR ''='')" "\<not> isspace (CHR '','')" "\<not> isspace (CHR 0x22)"
  by (simp_all add: isspace_def ord_def)

lemma takeWhile_all: "list_all P xs \<Longrightarrow> \<not> P y \<Longrightarrow> takeWhile P (xs @ y # ys) = xs"
  by (induction xs) auto

lemma dropWhile_all: "list_all P xs \<Longrightarrow> \<not> P y \<Longrightarrow> dropWhile P (xs @ y # ys) = y # ys"
  by (induction xs) auto

lemma extract_value_quoted:
  assumes "list_all (\<lambda>c. c \<noteq> CHR 0x22) v" and "rest = [] \<or> hd rest = CHR '',''"
  shows "extract_value (CHR 0x22 # v @ CHR 0x22 # rest) (CHR '','') = Some (tl rest, v)"
  using assms(2)
  by (cases rest) (auto simp: extract_value_def at_char_def takeWhile_all [OF assms(1)] dropWhile_all [OF assms(1)])

lemma extract_param_challenge:
  assumes "good_param p" and "rest = [] \<or> hd rest = CHR '',''"
    and "dropWhile isspace s = challenge_param p @ rest"
  shows "extract_param s (CHR '','') = Some (tl rest, p)"
proof -
  have n: "fst p \<noteq> []" "list_all (\<lambda>c. \<not> name_end (CHR '','') c) (fst p)"
    and v: "list_all (\<lambda>c. c \<noteq> CHR 0x22) (snd p)"
    using assms(1) by (simp_all add: good_param_def)
  have e: "\<not> \<not> name_end (CHR '','') (CHR ''='')" by (simp add: name_end_def)
  show ?thesis
    unfolding extract_param_def Let_def assms(3)
    using n extract_value_quoted [OF v assms(2)] takeWhile_all [OF n(2) e] dropWhile_all [OF n(2) e]
    by (cases p) (auto simp: challenge_param_def at_char_def skip_separator_def)
qed

lemma challenge_no_space: "good_param p \<Longrightarrow> dropWhile isspace (challenge_param p @ s) = challenge_param p @ s"
  by (cases "fst p") (auto simp: good_param_def challenge_param_def name_end_def)

lemma challenge_Cons: "\<exists>s. challenge (p # ps) = challenge_param p @ s"
  by (cases ps) auto

lemma digest_collect_challenge:
  assumes "list_all good_param ps"
    and "dropWhile isspace s = challenge ps"
  shows "digest_collect acc s = foldl (\<lambda>acc (n, v). digest_set_param acc n v) acc ps"
  using assms
proof (induction ps arbitrary: acc s rule: challenge.induct)
  case 1
  then show ?case by (subst digest_collect.simps) (simp add: extract_param_def)
next
  case (2 p)
  then have "extract_param s (CHR '','') = Some ([], p)"
    using extract_param_challenge [of p "[]" s] by simp
  moreover have "digest_collect acc' [] = acc'" for acc'
    by (subst digest_collect.simps) (simp add: extract_param_def)
  ultimately show ?case
    by (subst digest_collect.simps) (simp split: prod.splits)
next
  case (3 p q ps)
  let ?rest = "'' '' @ challenge (q # ps)"
  have "extract_param s (CHR '','') = Some (?rest, p)"
    using 3(2,3) extract_param_challenge [of p "CHR '','' # ?rest" s] by simp
  moreover have "dropWhile isspace ?rest = challenge (q # ps)"
    using 3(2) challenge_Cons [of q ps] challenge_no_space [of q] by auto
  ultimately show ?case
    using 3(1) [of ?rest "digest_set_param acc (fst p) (snd p)"] 3(2)
    by (subst digest_collect.simps, cases p) (simp split: prod.splits)
qed

subsection \<open>The digest of RFC 2617\<close>

definition md5_hex :: "string \<Rightarrow> string" where
  "md5_hex s = concat (map hex_byte (md5_rfc (bytes_of_string s)))"

definition request_digest ::
  "string \<Rightarrow> string \<Rightarrow> string \<Rightarrow> string \<Rightarrow> string \<Rightarrow> string \<Rightarrow> (string \<times> string \<times> string) option \<Rightarrow> string"
where
  "request_digest user rlm passwd method uri nnc q =
    (let ha1 = md5_hex (user @ '':'' @ rlm @ '':'' @ passwd);
         ha2 = md5_hex (method @ '':'' @ uri)
     in case q of
       None \<Rightarrow> md5_hex (ha1 @ '':'' @ nnc @ '':'' @ ha2)
     | Some (nc, cnonce, qp) \<Rightarrow>
         md5_hex (ha1 @ '':'' @ nnc @ '':'' @ nc @ '':'' @ cnonce @ '':'' @ qp @ '':'' @ ha2))"

lemma length_md5_rfc [simp]: "length (md5_rfc m) = 16"
  by (simp add: md5_rfc_def Let_def)

lemma dump_hash_hex: "length h = 16 \<Longrightarrow> dump_hash h = concat (map hex_byte h)"
proof -
  assume "length h = 16"
  then have "map (\<lambda>i. h ! i) [0..<16] = h" using map_nth [of h] by simp
  moreover have "map (\<lambda>i. hex_byte (h ! i)) [0..<16] = map hex_byte (map (\<lambda>i. h ! i) [0..<16])"
    by (simp only: map_map o_def)
  ultimately show ?thesis unfolding dump_hash_def by metis
qed

lemma md5_hash_strings_hex:
  assumes "length (buf ctx) = 64" and "md5_hash_strings ctx ss = (ctx', h)"
  shows "length (buf ctx') = 64 \<and> h = md5_hex (concat ss)"
proof -
  have inv: "md5_inv (foldl md5_append (md5_init ctx) (map bytes_of_string ss))
      (concat (map bytes_of_string ss))"
    using md5_appends_inv [OF md5_init_inv [OF assms(1)]] by simp
  have b: "concat (map bytes_of_string ss) = bytes_of_string (concat ss)"
    by (induction ss) (simp_all add: bytes_of_string_def)
  show ?thesis
    using assms(2) md5_finish_rfc [OF inv] md5_finish_length [OF inv]
    by (auto simp: md5_hash_strings_def md5_hex_def dump_hash_hex b split: prod.splits)
qed

lemma strncasecmp_auth: "strncasecmp0 q ''auth'' 5 \<longleftrightarrow> map tolower q = ''auth''"
proof -
  have "take 5 (map tolower q) = ''auth'' \<longleftrightarrow> map tolower q = ''auth''"
  proof
    assume a: "take 5 (map tolower q) = ''auth''"
    from arg_cong [OF a, of length] have "length q = 4" by (simp add: min_def split: if_splits)
    with a show "map tolower q = ''auth''" by simp
  qed simp
  then show ?thesis
    by (simp add: strncasecmp0_take take_map tolower_def isupper_def ord_def)
qed

lemma md5_hash_strings_ex:
  "length (buf ctx) = 64 \<Longrightarrow>
   \<exists>ctx'. md5_hash_strings ctx ss = (ctx', md5_hex (concat ss)) \<and> length (buf ctx') = 64"
  using md5_hash_strings_hex [of ctx ss] by (metis surj_pair)

lemma digest_response:
  assumes "length (buf ctx) = 64"
  shows "(let (ctx, a1buf) = md5_hash_strings ctx [u, '':'', r, '':'', p];
              (ctx, a2buf) = md5_hash_strings ctx [m, '':'', uri];
              (ctx, response) = md5_hash_strings ctx ([a1buf, '':'', n, '':'']
                @ (case q of None \<Rightarrow> [] | Some q \<Rightarrow> [nc, '':'', cnonce, '':'', q, '':'']) @ [a2buf])
          in f response)
    = f (request_digest u r p m uri n (case q of None \<Rightarrow> None | Some q \<Rightarrow> Some (nc, cnonce, q)))"
proof -
  let ?a1 = "md5_hex (concat [u, '':'', r, '':'', p])" and ?a2 = "md5_hex (concat [m, '':'', uri])"
  let ?l = "[?a1, '':'', n, '':'']
    @ (case q of None \<Rightarrow> [] | Some q \<Rightarrow> [nc, '':'', cnonce, '':'', q, '':'']) @ [?a2]"
  obtain c1 where 1: "md5_hash_strings ctx [u, '':'', r, '':'', p] = (c1, ?a1)" "length (buf c1) = 64"
    using md5_hash_strings_ex [OF assms] by blast
  obtain c2 where 2: "md5_hash_strings c1 [m, '':'', uri] = (c2, ?a2)" "length (buf c2) = 64"
    using md5_hash_strings_ex [OF 1(2)] by blast
  obtain c3 where 3: "md5_hash_strings c2 ?l = (c3, md5_hex (concat ?l))"
    using md5_hash_strings_ex [OF 2(2)] by blast
  have "md5_hex (concat ?l)
    = request_digest u r p m uri n (case q of None \<Rightarrow> None | Some q \<Rightarrow> Some (nc, cnonce, q))"
    by (simp add: request_digest_def Let_def split: option.split)
  with 1 2 3 show ?thesis by (simp only: Let_def prod.case)
qed

subsection \<open>Properties\<close>



text \<open>
  C6: the parser reads back every challenge that is printed as \<open>name="value"\<close> pairs separated by
  a comma and a space, whatever the values contain besides the quote character.
\<close>

theorem challenge_roundtrip:
  assumes "list_all good_param ps"
  shows "digest_collect acc (challenge ps) = foldl (\<lambda>acc (n, v). digest_set_param acc n v) acc ps"
proof -
  have "dropWhile isspace (challenge ps) = challenge ps"
    using assms challenge_Cons [of "hd ps" "tl ps"] challenge_no_space [of "hd ps"]
    by (cases ps) auto
  then show ?thesis by (rule digest_collect_challenge [OF assms])
qed

theorem challenge_roundtrip_witness:
  "digest_collect no_params
    (challenge [(''realm'', ''a,b=c''), (''nonce'', ''x y''), (''qop'', ''auth'')])
   = \<lparr> realm = Some ''a,b=c'', opaque = None, nonce = Some ''x y'', qop = Some ''auth'' \<rparr>"
  by (subst challenge_roundtrip)
    (simp_all add: good_param_def name_end_def isspace_def ord_def no_params_def digest_set_param_def
      tolower_def isupper_def)




end
