(* ===== verification/HaP_Http_Connect.thy ===== *)
theory HaP_Http_Connect
  imports HaP_Redsocks_Inv HaP_Http_Auth
begin

text \<open>
  The HTTP CONNECT protocol of the redirector, \<open>src/jni/redsocks/http-connect.c\<close>: the request, the
  status line, the challenge for credentials with a second connection, and the headers that are
  skipped. A line is read as a C string: it ends at its first NUL byte.
\<close>

definition httpc_new :: nat where "httpc_new = 0"
definition httpc_request_sent :: nat where "httpc_request_sent = 1"
definition httpc_reply_came :: nat where "httpc_reply_came = 2"
definition httpc_headers_skipped :: nat where "httpc_headers_skipped = 3"

definition HTTP_HEAD_WM_HIGH :: nat where "HTTP_HEAD_WM_HIGH = 4096"

definition httpc_client_init :: "redsocks_config \<Rightarrow> redsocks_client \<Rightarrow> redsocks_client" where
  "httpc_client_init cfg cl = cl\<lparr> c_state := httpc_new \<rparr>"

definition httpc_instance_fini :: "redsocks_instance \<Rightarrow> redsocks_instance" where
  "httpc_instance_fini x = x\<lparr> auth := (auth x)\<lparr> last_auth_query := None \<rparr> \<rparr>"

subsection \<open>Reading lines\<close>

definition cstr :: "bytes \<Rightarrow> string" where
  "cstr b = string_of_bytes (takeWhile (\<lambda>c. c \<noteq> 0) b)"

definition redsocks_evbuffer_readline :: "bytes \<Rightarrow> string option \<times> bytes" where
  "redsocks_evbuffer_readline inp = apfst (map_option cstr) (bytes_readln inp)"

definition auth_request_header :: string where "auth_request_header = ''Proxy-Authenticate:''"
definition auth_response_header :: string where "auth_response_header = ''Proxy-Authorization:''"

lemma find_eol_crlf_bound: "find_eol_crlf p s = Some (q, n) \<Longrightarrow> p \<le> q \<and> q < p + length s \<and> 0 < n"
  by (induction p s rule: find_eol_crlf.induct) (auto split: if_splits)

lemma readline_shorter: "redsocks_evbuffer_readline inp = (Some line, rest) \<Longrightarrow> length rest < length inp"
  by (auto simp: redsocks_evbuffer_readline_def bytes_readln_def apfst_def map_prod_def
      split: option.splits prod.splits dest: find_eol_crlf_bound)

function get_auth_request_header :: "bytes \<Rightarrow> string option \<times> bytes" where
  "get_auth_request_header inp =
    (case redsocks_evbuffer_readline inp of
       (None, rest) \<Rightarrow> (None, rest)
     | (Some line, rest) \<Rightarrow>
         if line = [] \<or> strchr (CHR '':'') line = None then (None, rest)
         else if strncasecmp0 line auth_request_header (length auth_request_header) then (Some line, rest)
         else get_auth_request_header rest)"
  by pat_completeness auto
termination
  by (relation "measure length") (auto dest: readline_shorter [OF sym])

declare get_auth_request_header.simps [simp del]

text \<open>
  \<open>%u\<close> of \<open>sscanf\<close>: white space, a sign, digits; and the whole format \<open>HTTP/%*u.%*u %u\<close> with its
  one assigned value. A number that does not fit is reduced modulo \<open>2\<^sup>3\<^sup>2\<close>.
\<close>

definition scan_u :: "string \<Rightarrow> (int \<times> string) option" where
  "scan_u s =
    (let p = dropWhile isspace s;
         neg = (p \<noteq> [] \<and> hd p = CHR ''-'');
         q = (if p \<noteq> [] \<and> hd p \<in> {CHR ''-'', CHR ''+''} then tl p else p)
     in if q = [] \<or> \<not> isdigit (hd q) then None
        else case strtoul_digits 10 0 q of (v, r) \<Rightarrow> Some (if neg then - v else v, r))"

definition sscanf_status :: "string \<Rightarrow> u32 option" where
  "sscanf_status line =
    (if \<not> prefix ''HTTP/'' line then None
     else case scan_u (drop 5 line) of
       None \<Rightarrow> None
     | Some (_, r) \<Rightarrow>
         if r = [] \<or> hd r \<noteq> CHR ''.'' then None
         else case scan_u (tl r) of
           None \<Rightarrow> None
         | Some (_, r) \<Rightarrow> map_option (\<lambda>(v, _). of_int v) (scan_u (dropWhile isspace r)))"

subsection \<open>The request\<close>

definition no_md5_state :: md5_state_t where
  "no_md5_state = \<lparr> count0 = 0, count1 = 0, abcd = (0, 0, 0, 0), buf = replicate 64 0 \<rparr>"

definition httpc_cnounce :: "u32 list \<Rightarrow> string" where
  "httpc_cnounce rs =
    concat (map (\<lambda>r. hex_byte (ucast (drop_bit 8 r)) @ hex_byte (ucast r)) (take 4 rs))"

definition httpc_uri :: "sockaddr_in \<Rightarrow> string" where
  "httpc_uri dest = inet_ntoa (sin_addr dest) @ '':'' @ dec (unat (sin_port dest))"

text \<open>
  The credentials: the scheme and the string, \<open>None\<close> when there are none. The challenge is read
  from the eighth byte of the stored query on, which a query of six bytes does not have.
\<close>

definition httpc_auth_string ::
  "env \<Rightarrow> redsocks_config \<Rightarrow> http_auth \<Rightarrow> sockaddr_in \<Rightarrow> fault + (string \<times> string) option" where
  "httpc_auth_string e cfg au dest =
    (case last_auth_query au of
       None \<Rightarrow> Inr None
     | Some q \<Rightarrow>
         if strncasecmp0 q ''Basic'' 5
         then (case (cf_login cfg, cf_password cfg) of
                 (Some l, Some p) \<Rightarrow> Inr (map_option (Pair ''Basic'') (basic_authentication_encode l p))
               | _ \<Rightarrow> Inl Null_pointer)
         else if strncasecmp0 q ''Digest'' 6
         then if length q < 7 then Inl Out_of_bounds
              else Inr (map_option (Pair ''Digest'')
                (digest_authentication_encode no_md5_state (drop 7 q) (cf_login cfg) (cf_password cfg)
                  (Some ''CONNECT'') (Some (httpc_uri dest)) (last_auth_count au) (httpc_cnounce (env_rand e))))
         else Inr None)"

definition httpc_request :: "sockaddr_in \<Rightarrow> (string \<times> string) option \<Rightarrow> string" where
  "httpc_request dest cred =
    (let crlf = [CHR 0x0D, CHR 0x0A]
     in case cred of
       None \<Rightarrow> ''CONNECT '' @ httpc_uri dest @ '' HTTP/1.0'' @ crlf @ crlf
     | Some (scheme, s) \<Rightarrow>
         ''CONNECT '' @ httpc_uri dest @ '' HTTP/1.0'' @ crlf
         @ auth_response_header @ '' '' @ scheme @ '' '' @ s @ crlf @ crlf)"

definition httpc_mkconnect :: "env \<Rightarrow> nat \<Rightarrow> world \<Rightarrow> world \<times> bytes option" where
  "httpc_mkconnect e c w =
    (if \<not> evbuffer_ok_env e then (w, None)
     else case clients w c of
       None \<Rightarrow> (set_fault Use_after_free w, None)
     | Some cl \<Rightarrow>
         (case map_of (instances w) (instance_of cl) of
            None \<Rightarrow> (set_fault Use_after_free w, None)
          | Some x \<Rightarrow>
              let au = (auth x)\<lparr> last_auth_count := last_auth_count (auth x) + 1 \<rparr>;
                  w = upd_instance (instance_of cl) (\<lambda>x. x\<lparr> auth :=
                        (auth x)\<lparr> last_auth_count := last_auth_count (auth x) + 1 \<rparr> \<rparr>) w
              in case httpc_auth_string e (config x) au (destaddr cl) of
                   Inl f \<Rightarrow> (set_fault f w, None)
                 | Inr cred \<Rightarrow> (w, Some (bytes_of_string (httpc_request (destaddr cl) cred)))))"

definition httpc_write_cb :: "env \<Rightarrow> nat \<Rightarrow> world \<Rightarrow> world" where
  "httpc_write_cb e c w =
    (let w = redsocks_touch_client e c w
     in with_client c (\<lambda>cl w.
          if c_state cl = httpc_new
          then redsocks_write_helper_ex e c (Some (httpc_mkconnect e c)) httpc_request_sent 1 HTTP_HEAD_WM_HIGH w
          else if c_state cl \<ge> httpc_request_sent
          then with_bev c SRelay (\<lambda>b. put_bev c SRelay (Some (snd (bufferevent_disable e EV_WRITE b)))) w
          else w) w)"

subsection \<open>The reply\<close>

definition httpc_set_state :: "nat \<Rightarrow> nat \<Rightarrow> world \<Rightarrow> world" where
  "httpc_set_state c st w = with_client c (\<lambda>cl. put_client c (cl\<lparr> c_state := st \<rparr>)) w"

definition httpc_reconnect :: "env \<Rightarrow> nat \<Rightarrow> world \<Rightarrow> world" where
  "httpc_reconnect e c w =
    with_bev c SRelay (\<lambda>b w.
      case bufferevent_disable e EV_WRITE b of (ok, b) \<Rightarrow>
        let w = put_bev c SRelay (Some b) w
        in if \<not> ok then w
           else
             let w = redsocks_close e (bev_fd b) w;
                 w = put_bev c SRelay None w;
                 w = httpc_set_state c httpc_new w
             in redsocks_connect_relay e c w) w"

text \<open>
  The reaction to status 407. Between \<open>bufferevent_free\<close> and the assignment of the new connection
  the code keeps the freed pointer in the client and does not read it; here it is \<open>None\<close>.
\<close>

definition httpc_auth_failed :: "env \<Rightarrow> nat \<Rightarrow> world \<Rightarrow> world" where
  "httpc_auth_failed e c w =
    with_client c (\<lambda>cl. with_instance (instance_of cl) (\<lambda>x.
      if last_auth_query (auth x) \<noteq> None \<and> last_auth_count (auth x) = 1 then redsocks_drop_client e c
      else if cf_login (config x) = None \<or> cf_password (config x) = None then redsocks_drop_client e c
      else with_bev c SRelay (\<lambda>b w.
        case get_auth_request_header (bev_input b) of (auth_request, rest) \<Rightarrow>
          let w = put_bev c SRelay (Some (b\<lparr> bev_input := rest \<rparr>)) w
          in case auth_request of
               None \<Rightarrow> redsocks_drop_client e c w
             | Some req \<Rightarrow>
                 let q = dropWhile isspace (drop (length auth_request_header) req)
                 in httpc_reconnect e c
                      (upd_instance (instance_of cl)
                        (\<lambda>x. x\<lparr> auth := \<lparr> last_auth_query = Some q, last_auth_count = 0 \<rparr> \<rparr>) w)))) w"

function skip_headers :: "bytes \<Rightarrow> bool \<times> bytes" where
  "skip_headers inp =
    (case redsocks_evbuffer_readline inp of
       (None, rest) \<Rightarrow> (False, rest)
     | (Some line, rest) \<Rightarrow> if length line = 0 then (True, rest) else skip_headers rest)"
  by pat_completeness auto
termination
  by (relation "measure length") (auto dest: readline_shorter [OF sym])

declare skip_headers.simps [simp del]

definition httpc_headers :: "env \<Rightarrow> nat \<Rightarrow> world \<Rightarrow> world" where
  "httpc_headers e c w =
    (let w = with_client c (\<lambda>cl w.
           if c_state cl = httpc_reply_came
           then with_bev c SRelay (\<lambda>b w.
             case skip_headers (bev_input b) of (done, rest) \<Rightarrow>
               let w = put_bev c SRelay (Some (b\<lparr> bev_input := rest \<rparr>)) w
               in if done then httpc_set_state c httpc_headers_skipped w else w) w
           else w) w
     in with_client c (\<lambda>cl w.
          if c_state cl = httpc_headers_skipped then redsocks_start_relay e c w else w) w)"

definition httpc_read_cb :: "env \<Rightarrow> nat \<Rightarrow> world \<Rightarrow> world" where
  "httpc_read_cb e c w =
    with_client c (\<lambda>cl w.
      if \<not> c_state cl \<ge> httpc_request_sent then set_fault Assertion w
      else
        let w = redsocks_touch_client e c w
        in if c_state cl = httpc_request_sent
           then with_bev c SRelay (\<lambda>b w.
             let len = length (bev_input b)
             in case redsocks_evbuffer_readline (bev_input b) of (line, rest) \<Rightarrow>
               let w = put_bev c SRelay (Some (b\<lparr> bev_input := rest \<rparr>)) w
               in case line of
                    None \<Rightarrow>
                      if len \<ge> HTTP_HEAD_WM_HIGH then redsocks_drop_client e c w
                      else httpc_headers e c w
                  | Some line \<Rightarrow>
                      (case sscanf_status line of
                         None \<Rightarrow> httpc_headers e c w
                       | Some code \<Rightarrow>
                           if code = 407 then httpc_auth_failed e c w
                           else if 200 \<le> code \<and> code \<le> 299
                           then httpc_headers e c (httpc_set_state c httpc_reply_came w)
                           else redsocks_drop_client e c w)) w
           else httpc_headers e c w) w"

subsection \<open>The protocol keeps the invariant of the core\<close>

lemma valid_inst: "valid c cl w \<Longrightarrow> map_of (instances w) i = Some x \<Longrightarrow> inst_ok x"
  by (auto simp: valid_def rest_ok_def insts_ok_def dest: map_of_SomeD)

lemma valid_oob: "valid c cl w \<Longrightarrow> valid c cl (set_fault Out_of_bounds w)"
proof -
  have "slot_ok (set_fault f w) d = slot_ok w d" "fds_of (set_fault f w) d = fds_of w d"
    "listen_fds (set_fault f w) = listen_fds w" "insts_ok (set_fault f w) = insts_ok w"
    "client_in (set_fault f w) c cl = client_in w c cl" for f d
    by (simp_all add: set_fault_def slot_ok_def fds_of_def listen_fds_def insts_ok_def client_in_def listed_def split: option.split)
  moreover have "no_fault w \<Longrightarrow> no_fault (set_fault Out_of_bounds w)" "open_fds (set_fault f w) = open_fds w" for f
    by (auto simp: no_fault_def set_fault_def)
  ultimately show "valid c cl w \<Longrightarrow> valid c cl (set_fault Out_of_bounds w)"
    by (simp add: valid_def rest_ok_def)
qed

lemma auth_string_fault:
  assumes "inst_ok x" "last_auth_query au = last_auth_query (auth x)" "httpc_auth_string e (config x) au dest = Inl f"
  shows "f = Out_of_bounds"
  using assms by (auto simp: httpc_auth_string_def inst_ok_def split: option.splits if_splits)

lemma httpc_mk_ok:
  assumes v: "valid c cl w"
  shows "mk_ok c cl w (httpc_mkconnect e c)"
proof -
  obtain x where x: "map_of (instances w) (instance_of cl) = Some x"
    using v by (auto simp: valid_def client_in_def)
  let ?f = "\<lambda>x. x\<lparr> auth := (auth x)\<lparr> last_auth_count := last_auth_count (auth x) + 1 \<rparr> \<rparr>"
  let ?w = "upd_instance (instance_of cl) ?f w" and ?au = "(auth x)\<lparr> last_auth_count := last_auth_count (auth x) + 1 \<rparr>"
  have u: "valid c cl ?w" by (rule valid_benign [OF v]) (simp add: benign_def inst_ok_def)
  have oob: "valid c cl (set_fault f ?w)" if "httpc_auth_string e (config x) ?au (destaddr cl) = Inl f" for f
    using auth_string_fault [OF valid_inst [OF v x] _ that] valid_oob [OF u] by simp
  show ?thesis
  proof (cases "evbuffer_ok_env e")
    case False
    with v show ?thesis by (auto simp: mk_ok_def httpc_mkconnect_def)
  next
    case True
    with x u oob show ?thesis
      by (cases "httpc_auth_string e (config x) ?au (destaddr cl)")
         (auto simp: mk_ok_def httpc_mkconnect_def world_simps set_fault_put Let_def)
  qed
qed

lemma httpc_set_state_put [world_simps]:
  "httpc_set_state c st (put_client c cl w) = put_client c (cl\<lparr> c_state := st \<rparr>) w"
  by (simp add: httpc_set_state_def with_client_put)

lemmas httpc_states = httpc_new_def httpc_request_sent_def httpc_reply_came_def httpc_headers_skipped_def

lemma httpc_headers_ok:
  assumes t: "talk c cl w" and st: "1 \<le> c_state cl"
  shows "world_ok (httpc_headers e c (put_client c cl w))"
proof -
  obtain r where r: "c_relay cl = Some r" using t by (auto simp: talk_def)
  obtain d rest where s: "skip_headers (bev_input r) = (d, rest)" by fastforce
  have t': "talk c (cl\<lparr> c_relay := Some (r\<lparr> bev_input := rest \<rparr>) \<rparr>) w" by (rule talk_relay [OF t r]) simp_all
  note t'' = talk_state [OF t', of httpc_headers_skipped]
  show ?thesis
  proof (cases "c_state cl = httpc_reply_came")
    case True
    then show ?thesis
      using r s talk_start_relay [OF t'', of e] talk_done [OF t'] st
      by (cases d) (simp_all add: httpc_headers_def world_simps httpc_states)
  next
    case False
    then show ?thesis using talk_start_relay [OF t, of e] talk_done [OF t st]
      by (simp add: httpc_headers_def world_simps)
  qed
qed

lemma httpc_reconnect_ok:
  assumes t: "talk c cl w" and e: "fresh_fds e" and st: "1 \<le> c_state cl"
  shows "world_ok (httpc_reconnect e c (put_client c cl w))"
proof -
  obtain b r where b: "c_client cl = Some b" "c_relay cl = Some r" "talking b r" using t by (auto simp: talk_def)
  obtain ok r' where d: "bufferevent_disable e EV_WRITE r = (ok, r')" by fastforce
  have f: "bev_fd r' = bev_fd r" "readcb r' = readcb r" "writecb r' = writecb r"
    using arg_cong [OF d, of snd, symmetric] by simp_all
  let ?cl = "cl\<lparr> c_relay := None, c_state := httpc_new \<rparr>" and ?w = "redsocks_close e (bev_fd r) w"
  have v: "valid c cl w" using t by (rule talk_valid)
  have o: "bev_fd r \<in> set (open_fds w)" using valid_open [OF v, of SRelay r] b by simp
  have "rest_ok c (cfds cl - {bev_fd r}) ?w"
    using v b by (intro rest_ok_close) (auto simp: valid_def cfds_def bev_fds_def)
  moreover have "cfds cl - {bev_fd r} = cfds ?cl" using v b by (auto simp: valid_def cfds_def bev_fds_def)
  ultimately have "valid c ?cl ?w"
    using v b close_frame(4) [OF o, of c cl e] by (simp add: valid_def client_in_def cred_ok_def bev_fds_def)
  then have "world_ok (redsocks_connect_relay e c (put_client c ?cl ?w))"
    by (rule connect_relay_ok [OF _ e, of _ _ _ b])
       (use t b in \<open>auto simp: talk_def talking_def httpc_new_def evshut_ok_def\<close>)
  moreover have "world_ok (put_client c (cl\<lparr> c_relay := Some r' \<rparr>) w)"
    using talk_done [OF talk_relay [OF t b(2) f]] st by simp
  ultimately show ?thesis using b d f by (simp add: httpc_reconnect_def world_simps Let_def)
qed

lemma upd_instance_cong:
  assumes "map_of (instances w) i = Some x" "distinct (map fst (instances w))" "f x = g x"
  shows "upd_instance i f w = upd_instance i g w"
proof -
  have "(i, y) \<in> set (instances w) \<Longrightarrow> y = x" for y
    using assms(1,2) by (metis map_of_eq_Some_iff option.inject)
  then have "map (\<lambda>(k, x). (k, if k = i then f x else x)) (instances w)
    = map (\<lambda>(k, x). (k, if k = i then g x else x)) (instances w)"
    using assms(3) by (intro map_cong) auto
  then show ?thesis by (simp add: upd_instance_def)
qed

lemma talk_auth:
  assumes t: "talk c cl w" and x: "map_of (instances w) (instance_of cl) = Some x"
    and cred: "cf_login (config x) \<noteq> None" "cf_password (config x) \<noteq> None"
  shows "talk c cl (upd_instance (instance_of cl) (\<lambda>x. x\<lparr> auth := au \<rparr>) w)"
proof -
  let ?g = "\<lambda>x. if cf_login (config x) \<noteq> None \<and> cf_password (config x) \<noteq> None then x\<lparr> auth := au \<rparr> else x"
  have "distinct (map fst (instances w))" using t by (auto simp: talk_def valid_def rest_ok_def insts_ok_def)
  then have "upd_instance (instance_of cl) (\<lambda>x. x\<lparr> auth := au \<rparr>) w = upd_instance (instance_of cl) ?g w"
    using x cred by (intro upd_instance_cong) auto
  moreover have "benign ?g" by (auto simp: benign_def inst_ok_def)
  ultimately show ?thesis using t valid_benign by (simp add: talk_def)
qed

lemma httpc_auth_failed_ok:
  assumes t: "talk c cl w" and e: "fresh_fds e" and st: "1 \<le> c_state cl"
  shows "world_ok (httpc_auth_failed e c (put_client c cl w))"
proof -
  obtain x where x: "map_of (instances w) (instance_of cl) = Some x"
    using t by (auto simp: talk_def valid_def client_in_def)
  obtain r where r: "c_relay cl = Some r" using t by (auto simp: talk_def)
  obtain req rest where g: "get_auth_request_header (bev_input r) = (req, rest)" by fastforce
  have t': "talk c (cl\<lparr> c_relay := Some (r\<lparr> bev_input := rest \<rparr>) \<rparr>) w" by (rule talk_relay [OF t r]) simp_all
  have "world_ok (httpc_reconnect e c (put_client c (cl\<lparr> c_relay := Some (r\<lparr> bev_input := rest \<rparr>) \<rparr>)
      (upd_instance (instance_of cl) (\<lambda>x. x\<lparr> auth := au \<rparr>) w)))"
    if "cf_login (config x) \<noteq> None" "cf_password (config x) \<noteq> None" for au
    using httpc_reconnect_ok [OF talk_auth [OF t', of x au] e] that x st by simp
  with x r g talk_drop [OF t] talk_drop [OF t'] show ?thesis
    by (cases req) (auto simp: httpc_auth_failed_def world_simps Let_def)
qed

interpretation hc: relay_subsys httpc_client_init httpc_read_cb httpc_write_cb
proof (unfold_locales, goal_cases)
  case (1 cl cfg)
  then show ?case by (simp add: httpc_client_init_def fresh_client_def httpc_new_def)
next
  case (2 c cl w e)
  let ?cl = "cl\<lparr> last_event := env_time e \<rparr>"
  have t: "talk c ?cl w" using 2(1) by (rule talk_touch)
  have st: "1 \<le> c_state ?cl" using 2(3) by simp
  obtain r where r: "c_relay ?cl = Some r" using t by (auto simp: talk_def)
  obtain line rest where l: "redsocks_evbuffer_readline (bev_input r) = (line, rest)" by fastforce
  let ?cl' = "?cl\<lparr> c_relay := Some (r\<lparr> bev_input := rest \<rparr>) \<rparr>"
  have t': "talk c ?cl' w" by (rule talk_relay [OF t r]) simp_all
  have st': "1 \<le> c_state ?cl'" using st by simp
  note h = httpc_headers_ok [OF t st, of e] httpc_headers_ok [OF t' st', of e] talk_drop [OF t', of e]
    httpc_auth_failed_ok [OF t' 2(2) st'] httpc_headers_ok [OF talk_state [OF t', of httpc_reply_came], of e]
  show ?case
  proof (cases "c_state cl = httpc_request_sent")
    case True
    then show ?thesis
      using r l h
      by (cases line) (auto simp: httpc_read_cb_def world_simps Let_def httpc_states split: option.split)
  next
    case False
    then show ?thesis
      using h st by (simp add: httpc_read_cb_def world_simps Let_def httpc_states)
  qed
next
  case (3 c cl w e)
  let ?cl = "cl\<lparr> last_event := env_time e \<rparr>"
  have t: "talk c ?cl w" using 3(1) by (rule talk_touch)
  have h: "world_ok (redsocks_write_helper_ex e c (Some (httpc_mkconnect e c)) httpc_request_sent 1 HTTP_HEAD_WM_HIGH
      (put_client c ?cl w))"
    by (rule talk_write [OF t]) (use httpc_mk_ok [OF talk_valid [OF t]] in \<open>auto simp: httpc_states\<close>)
  with talk_disable [OF t] show ?case
    by (auto simp: httpc_write_cb_def world_simps Let_def httpc_states)
qed

end
