(* ===== verification/HaP_Event_Loop.thy ===== *)
theory HaP_Event_Loop
  imports HaP_Lifecycle HaP_Socks4 HaP_Socks5 HaP_Http_Connect
begin

text \<open>
  The redirector as a whole: the event loop of libevent calls the handlers of the sockets, those
  call the callbacks stored in the bufferevents, and the callbacks of the protocols are found
  through the table \<open>relay_subsystems\<close> of \<open>redsocks.c\<close>. A step of the system is one event with the
  results of the system calls made while it is handled.
\<close>

subsection \<open>Dispatch\<close>

definition ss_init :: "relay_ss \<Rightarrow> redsocks_config \<Rightarrow> redsocks_client \<Rightarrow> redsocks_client" where
  "ss_init ss = (case ss of Http_connect \<Rightarrow> httpc_client_init | Socks4 \<Rightarrow> socks4_client_init | Socks5 \<Rightarrow> socks5_client_init)"

definition ss_readcb :: "relay_ss \<Rightarrow> env \<Rightarrow> nat \<Rightarrow> world \<Rightarrow> world" where
  "ss_readcb ss = (case ss of Http_connect \<Rightarrow> httpc_read_cb | Socks4 \<Rightarrow> socks4_read_cb | Socks5 \<Rightarrow> socks5_read_cb)"

definition ss_writecb :: "relay_ss \<Rightarrow> env \<Rightarrow> nat \<Rightarrow> world \<Rightarrow> world" where
  "ss_writecb ss = (case ss of Http_connect \<Rightarrow> httpc_write_cb | Socks4 \<Rightarrow> socks4_write_cb | Socks5 \<Rightarrow> socks5_write_cb)"

lemma relay_subsystems: "relay_subsys (ss_init ss) (ss_readcb ss) (ss_writecb ss)"
  using hc.relay_subsys_axioms s4.relay_subsys_axioms s5.relay_subsys_axioms
  by (cases ss) (simp_all add: ss_init_def ss_readcb_def ss_writecb_def)

interpretation ss: relay_subsys "ss_init s" "ss_readcb s" "ss_writecb s" for s
  by (rule relay_subsystems)

fun run_cb :: "env \<Rightarrow> nat \<Rightarrow> cb \<Rightarrow> world \<Rightarrow> world" where
  "run_cb e c Relay_connected w =
    with_client c (\<lambda>cl. with_instance (instance_of cl) (\<lambda>x.
      redsocks_relay_connected (ss_writecb (relay_ss x)) e c)) w"
| "run_cb e c Ss_readcb w =
    with_client c (\<lambda>cl. with_instance (instance_of cl) (\<lambda>x. ss_readcb (relay_ss x) e c)) w"
| "run_cb e c Ss_writecb w =
    with_client c (\<lambda>cl. with_instance (instance_of cl) (\<lambda>x. ss_writecb (relay_ss x) e c)) w"
| "run_cb e c Relay_clientreadcb w = redsocks_relay_clientreadcb e c w"
| "run_cb e c Relay_clientwritecb w = redsocks_relay_clientwritecb e c w"
| "run_cb e c Relay_relayreadcb w = redsocks_relay_relayreadcb e c w"
| "run_cb e c Relay_relaywritecb w = redsocks_relay_relaywritecb e c w"

definition run_opt :: "env \<Rightarrow> nat \<Rightarrow> cb option \<Rightarrow> world \<Rightarrow> world" where
  "run_opt e c k w = (case k of None \<Rightarrow> w | Some k \<Rightarrow> run_cb e c k w)"

fun run_action :: "env \<Rightarrow> nat \<Rightarrow> side \<Rightarrow> bev \<Rightarrow> run \<Rightarrow> world \<Rightarrow> world" where
  "run_action e c s b Run_nothing w = w"
| "run_action e c s b Run_readcb w = run_opt e c (readcb b) w"
| "run_action e c s b Run_writecb w = run_opt e c (writecb b) w"
| "run_action e c s b (Run_eventcb what) w = redsocks_event_error e c s what w"

definition on_readable :: "env \<Rightarrow> nat \<Rightarrow> side \<Rightarrow> read_result \<Rightarrow> world \<Rightarrow> world" where
  "on_readable e c s res w =
    with_bev c s (\<lambda>b w. case bufferevent_readcb e res b of (b, act) \<Rightarrow>
      run_action e c s b act (put_bev c s (Some b) w)) w"

definition on_writable :: "env \<Rightarrow> nat \<Rightarrow> side \<Rightarrow> write_result \<Rightarrow> world \<Rightarrow> world" where
  "on_writable e c s res w =
    with_bev c s (\<lambda>b w. case bufferevent_writecb e res b of (b, act) \<Rightarrow>
      run_action e c s b act (put_bev c s (Some b) w)) w"

subsection \<open>Steps\<close>

datatype event =
    Ev_accept nat
  | Ev_backoff nat
  | Ev_readable nat side read_result
  | Ev_writable nat side write_result

text \<open>What a call on the socket can return: at most the bytes asked for, or a part of those offered\<close>

fun read_result_ok :: "bev \<Rightarrow> read_result \<Rightarrow> bool" where
  "read_result_ok b (Read_data d) = (d \<noteq> [] \<and> length d \<le> read_howmuch b \<and> read_suspended b = 0)"
| "read_result_ok b res = True"

fun write_result_ok :: "bev \<Rightarrow> write_result \<Rightarrow> bool" where
  "write_result_ok b (Wrote d) = prefix d (bev_output b)"
| "write_result_ok b res = True"

inductive step :: "world \<Rightarrow> event \<Rightarrow> world \<Rightarrow> bool" where
  accept: "map_of (instances w) i = Some x \<Longrightarrow> inserted (listener x) \<noteq> 0 \<Longrightarrow> env_ok e w \<Longrightarrow>
    step w (Ev_accept i) (redsocks_accept_client (ss_init (relay_ss x)) e i w)"
| backoff: "map_of (instances w) i = Some x \<Longrightarrow> inserted (accept_backoff x) \<noteq> 0 \<Longrightarrow> env_ok e w \<Longrightarrow>
    step w (Ev_backoff i) (redsocks_accept_backoff e i w)"
| readable: "clients w c = Some cl \<Longrightarrow> bev_of s cl = Some b \<Longrightarrow> ev_read b \<Longrightarrow> read_result_ok b res \<Longrightarrow> env_ok e w \<Longrightarrow>
    step w (Ev_readable c s res) (on_readable e c s res w)"
| writable: "clients w c = Some cl \<Longrightarrow> bev_of s cl = Some b \<Longrightarrow> ev_write b \<Longrightarrow> write_result_ok b res \<Longrightarrow> env_ok e w \<Longrightarrow>
    step w (Ev_writable c s res) (on_writable e c s res w)"

inductive steps :: "world \<Rightarrow> event list \<Rightarrow> world \<Rightarrow> bool" where
  steps_refl: "steps w [] w"
| steps_step: "steps w es w' \<Longrightarrow> step w' ev w'' \<Longrightarrow> steps w (es @ [ev]) w''"

inductive_cases step_readableE: "step w (Ev_readable c s res) w'"
inductive_cases step_writableE: "step w (Ev_writable c s res) w'"

subsection \<open>Every step keeps the invariant\<close>

lemma run_cb_talking:
  assumes "talk c cl w" "fresh_fds e"
  shows "1 \<le> c_state cl \<Longrightarrow> world_ok (run_cb e c Ss_readcb (put_client c cl w))"
    "world_ok (run_cb e c Ss_writecb (put_client c cl w))"
proof -
  obtain x where "map_of (instances w) (instance_of cl) = Some x"
    using assms by (auto simp: talk_def valid_def client_in_def)
  with ss.read_law [OF assms] ss.write_law [OF assms]
  show "1 \<le> c_state cl \<Longrightarrow> world_ok (run_cb e c Ss_readcb (put_client c cl w))"
    "world_ok (run_cb e c Ss_writecb (put_client c cl w))" by (simp_all add: world_simps)
qed

lemma run_cb_connecting:
  assumes "valid c cl w" "evshut_ok cl" "fresh_fds e"
    "c_client cl = Some b" "readcb b = None" "writecb b = None" "c_relay cl = Some r"
  shows "world_ok (run_cb e c Relay_connected (put_client c cl w))"
proof -
  obtain x where "map_of (instances w) (instance_of cl) = Some x"
    using assms by (auto simp: valid_def client_in_def)
  with ss.relay_connected_ok [OF assms] show ?thesis by (simp add: world_simps)
qed

lemma run_cb_relaying:
  assumes "valid c cl w" "client_ok cl"
  shows "world_ok (run_cb e c Relay_clientreadcb (put_client c cl w))"
    "world_ok (run_cb e c Relay_clientwritecb (put_client c cl w))"
    "world_ok (run_cb e c Relay_relayreadcb (put_client c cl w))"
    "world_ok (run_cb e c Relay_relaywritecb (put_client c cl w))"
  using relay_readcb_ok [OF touch_ok(1) [OF assms(1)] touch_ok(2) [OF assms(2)]]
    relay_writecb_ok [OF touch_ok(1) [OF assms(1)] touch_ok(2) [OF assms(2)]]
  by (simp_all add: world_simps redsocks_relay_clientreadcb_def redsocks_relay_clientwritecb_def
      redsocks_relay_relayreadcb_def redsocks_relay_relaywritecb_def)

lemma run_opt_ok:
  assumes v: "valid c cl w" and o: "client_ok cl" and e: "fresh_fds e" and b: "bev_of s cl = Some b"
    and k: "k = readcb b \<or> k = writecb b"
  shows "world_ok (run_opt e c k (put_client c cl w))"
proof -
  obtain b1 r1 where b1: "c_client cl = Some b1" "c_relay cl = Some r1"
    using o by (auto simp: client_ok_def elim: client_ok_bevs)
  then consider "connecting cl b1 r1" | "talking b1 r1" "1 \<le> c_state cl" | "relaying b1 r1"
    using o by (auto simp: client_ok_def phase_ok_def)
  then show ?thesis
  proof cases
    case 1
    with v o e b1 b k valid_done [OF v o] run_cb_connecting [OF v] show ?thesis
      by (cases s) (auto simp: run_opt_def connecting_def client_ok_def)
  next
    case 2
    with v o b1 have "talk c cl w" by (simp add: talk_def client_ok_def)
    with 2 e b1 b k valid_done [OF v o] run_cb_talking show ?thesis
      by (cases s) (auto simp: run_opt_def talking_def)
  next
    case 3
    with b1 b k run_cb_relaying [OF v o] show ?thesis
      by (cases s) (auto simp: run_opt_def relaying_def)
  qed
qed

lemma run_action_ok:
  assumes v: "valid c cl w" and o: "client_ok cl" and e: "fresh_fds e" and b: "bev_of s cl = Some b"
  shows "world_ok (run_action e c s b act (put_client c cl w))"
  using valid_done [OF v o] run_opt_ok [OF v o e b] event_error_ok [OF v o] by (cases act) auto

lemma readcb_frame:
  assumes "bufferevent_readcb e res b = (b', act)"
  shows "bev_fd b' = bev_fd b" "readcb b' = readcb b" "writecb b' = writecb b"
  using assms by (auto simp: bufferevent_readcb_def Let_def split: if_splits read_result.splits)

lemma writecb_frame:
  assumes "bufferevent_writecb e res b = (b', act)"
  shows "bev_fd b' = bev_fd b" "readcb b' = readcb b" "writecb b' = writecb b"
  using assms by (auto simp: bufferevent_writecb_def writecb_tail_def Let_def split: if_splits write_result.splits)

lemma handler_ok:
  assumes w: "world_ok w" and c: "clients w c = Some cl" and b: "bev_of s cl = Some b" and e: "fresh_fds e"
    and f: "bev_fd b' = bev_fd b" "readcb b' = readcb b" "writecb b' = writecb b"
  shows "world_ok (run_action e c s b' act (put_bev c s (Some b') w))"
proof -
  note v = world_valid [OF w c]
  have "put_bev c s (Some b') w = put_client c (set_bev s (Some b') cl) w"
    using put_bev_put [of c s "Some b'" cl w] v(3) by simp
  moreover have "valid c (set_bev s (Some b') cl) w"
    by (rule valid_similar [OF v(1) similar_set_bev [OF b f(1)]])
  ultimately show ?thesis using run_action_ok [OF _ client_ok_bev [OF v(2) b f] e] by simp
qed

lemma step_ok: "step w ev w' \<Longrightarrow> world_ok w \<Longrightarrow> world_ok w'"
proof (induction rule: step.induct)
  case (accept w i x e)
  then show ?case by (auto intro: ss.accept_client_ok)
next
  case (backoff w i x e)
  then show ?case by (simp add: redsocks_accept_backoff_def world_ok_benign benign_backoff)
next
  case (readable w c cl s b res e)
  obtain b' act where r: "bufferevent_readcb e res b = (b', act)" by fastforce
  from handler_ok [OF readable(6,1,2) _ readcb_frame [OF r], of e act] readable r show ?case
    by (simp add: on_readable_def with_bev_def with_client_def env_ok_def)
next
  case (writable w c cl s b res e)
  obtain b' act where r: "bufferevent_writecb e res b = (b', act)" by fastforce
  from handler_ok [OF writable(6,1,2) _ writecb_frame [OF r], of e act] writable r show ?case
    by (simp add: on_writable_def with_bev_def with_client_def env_ok_def)
qed

lemma steps_ok: "steps w es w' \<Longrightarrow> world_ok w \<Longrightarrow> world_ok w'"
  by (induction rule: steps.induct) (auto dest: step_ok)

end
