(* ===== verification/HaP_Traces.thy ===== *)
theory HaP_Traces
  imports HaP_Event_Loop
begin

text \<open>
  Runs of the redirector: what holds of every sequence of events from the start of the program.
\<close>

subsection \<open>A callback touches its own client only\<close>

named_theorems frame \<open>operations on a client leave the others alone\<close>

lemma frame_access [frame]:
  "(\<And>cl w. clients (k cl w) d = clients w d) \<Longrightarrow> clients (with_client c k w) d = clients w d"
  "(\<And>x w. clients (kx x w) d = clients w d) \<Longrightarrow> clients (with_instance i kx w) d = clients w d"
  "d \<noteq> c \<Longrightarrow> clients (put_client c cl w) d = clients w d"
  "clients (set_fault f w) = clients w"
  "clients (redsocks_accept_backoff e i w) = clients w"
  "clients (redsocks_close e fd w) = clients w"
  "clients (close_bev e b w) = clients w"
  by (simp_all add: with_client_def with_instance_def put_client_def set_fault_def redsocks_accept_backoff_def
      redsocks_close_def close_bev_def Let_def split: option.split)

lemma frame_bev [frame]:
  "(\<And>b w. clients (k b w) d = clients w d) \<Longrightarrow> clients (with_bev c s k w) d = clients w d"
  "d \<noteq> c \<Longrightarrow> clients (put_bev c s b w) d = clients w d"
  "d \<noteq> c \<Longrightarrow> clients (redsocks_touch_client e c w) d = clients w d"
  "d \<noteq> c \<Longrightarrow> clients (redsocks_drop_client e c w) d = clients w d"
  by (simp_all add: with_bev_def put_bev_def redsocks_touch_client_def redsocks_drop_client_def frame Let_def
      split: option.split)

lemma frame_relay [frame]:
  assumes "d \<noteq> c"
  shows "clients (redsocks_shutdown e c s how w) d = clients w d"
    "clients (relay_move e c s f t w) d = clients w d"
  using assms by (simp_all add: redsocks_shutdown_def relay_move_def frame Let_def split: prod.split)

lemma frame_relay2 [frame]:
  assumes "d \<noteq> c"
  shows "clients (redsocks_relay_readcb e c s w) d = clients w d"
    "clients (redsocks_relay_writecb e c s w) d = clients w d"
    "clients (redsocks_event_error e c s what w) d = clients w d"
    "clients (redsocks_start_relay e c w) d = clients w d"
  using assms
  by (simp_all add: redsocks_relay_readcb_def redsocks_relay_writecb_def redsocks_event_error_def redsocks_start_relay_def
      frame Let_def split: prod.split)

lemma frame_connect [frame]:
  "clients (snd (red_connect_relay e w)) = clients w"
  by (simp add: red_connect_relay_def frame Let_def split: option.split prod.split)

lemma frame_connect2 [frame]:
  assumes "d \<noteq> c"
  shows "clients (redsocks_connect_relay e c w) d = clients w d"
  using assms frame_connect [of e] by (simp add: redsocks_connect_relay_def frame Let_def split_beta)

lemma frame_helpers [frame]:
  assumes "d \<noteq> c"
  shows "(\<And>data w. clients (k data w) d = clients w d) \<Longrightarrow>
      clients (redsocks_read_expected e c cmp n k w) d = clients w d"
    "(\<And>w. clients (ss_write e c w) d = clients w d) \<Longrightarrow>
      clients (redsocks_relay_connected ss_write e c w) d = clients w d"
    "clients (redsocks_write_helper_ex e c None st lo hi w) d = clients w d"
  using assms
  by (simp_all add: redsocks_read_expected_def redsocks_write_helper_ex_def redsocks_relay_connected_def frame Let_def)

lemma frame_message [frame]:
  assumes "d \<noteq> c" "\<And>w. clients (fst (mk w)) d = clients w d"
  shows "clients (redsocks_write_helper_ex e c (Some mk) st lo hi w) d = clients w d"
  using assms(1) assms(2) [of w]
  by (cases "mk w") (simp add: redsocks_write_helper_ex_def frame Let_def split: option.split)

lemma frame_socks4 [frame]:
  assumes "d \<noteq> c"
  shows "clients (socks4_read_cb e c w) d = clients w d" "clients (socks4_write_cb e c w) d = clients w d"
  using assms
  by (simp_all add: socks4_read_cb_def socks4_write_cb_def socks4_set_state_def socks4_mkconnect_def redsocks_write_helper_def
      frame Let_def split: option.split)

lemma frame_socks5 [frame]:
  assumes "d \<noteq> c"
  shows "clients (socks5_read_cb e c w) d = clients w d" "clients (socks5_write_cb e c w) d = clients w d"
  using assms
  by (simp_all add: socks5_read_cb_def socks5_write_cb_def socks5_set_skip_def socks5_mkconnect_def socks5_mkmethods_def
      socks5_mkpassword_def socks5_read_auth_methods_def socks5_read_auth_reply_def socks5_read_reply_def
      redsocks_write_helper_def frame Let_def split: option.split)

lemma frame_httpc [frame]:
  assumes "d \<noteq> c"
  shows "clients (httpc_headers e c w) d = clients w d" "clients (httpc_reconnect e c w) d = clients w d"
  using assms
  by (simp_all add: httpc_headers_def httpc_reconnect_def httpc_set_state_def frame Let_def split: prod.split)

lemma frame_httpc2 [frame]:
  assumes "d \<noteq> c"
  shows "clients (httpc_auth_failed e c w) d = clients w d"
    "clients (fst (httpc_mkconnect e c w)) d = clients w d"
  using assms
  by (simp_all add: httpc_auth_failed_def httpc_mkconnect_def frame Let_def split: prod.split option.split sum.split)

lemma frame_httpc3 [frame]:
  assumes "d \<noteq> c"
  shows "clients (httpc_read_cb e c w) d = clients w d" "clients (httpc_write_cb e c w) d = clients w d"
  using assms
  by (simp_all add: httpc_read_cb_def httpc_write_cb_def httpc_set_state_def frame Let_def
      split: prod.split option.split)

lemma frame_dispatch [frame]:
  assumes "d \<noteq> c"
  shows "clients (run_cb e c k w) d = clients w d" "clients (run_opt e c ko w) d = clients w d"
    "clients (run_action e c s b act w) d = clients w d"
    "clients (on_readable e c s res w) d = clients w d" "clients (on_writable e c s res' w) d = clients w d"
proof -
  have ss: "clients (ss_readcb ss e c w) d = clients w d" "clients (ss_writecb ss e c w) d = clients w d" for ss w
    using assms by (cases ss; simp add: ss_readcb_def ss_writecb_def frame)+
  have k: "clients (run_cb e c k w) d = clients w d" for k w
    using assms ss
    by (cases k) (simp_all add: frame redsocks_relay_clientreadcb_def redsocks_relay_clientwritecb_def
        redsocks_relay_relayreadcb_def redsocks_relay_relaywritecb_def)
  have a: "clients (run_opt e c ko w) d = clients w d" for ko w using k by (simp add: run_opt_def split: option.split)
  have b: "clients (run_action e c s b act w) d = clients w d" for b act w
    using a assms by (cases act) (simp_all add: frame)
  show "clients (run_cb e c k w) d = clients w d" "clients (run_opt e c ko w) d = clients w d"
    "clients (run_action e c s b act w) d = clients w d" by (rule k a b)+
  show "clients (on_readable e c s res w) d = clients w d" "clients (on_writable e c s res' w) d = clients w d"
    using assms b by (simp_all add: on_readable_def on_writable_def frame split: prod.split)
qed

lemma frame_accept:
  assumes "new_client e \<noteq> Some d"
  shows "clients (redsocks_accept_client ssi e i w) d = clients w d"
  using assms
  by (auto simp: redsocks_accept_client_def accept_start_def frame Let_def split: accept_result.split option.split prod.split)

fun event_client :: "event \<Rightarrow> nat option" where
  "event_client (Ev_readable c s res) = Some c"
| "event_client (Ev_writable c s res) = Some c"
| "event_client ev = None"

lemma step_frame:
  assumes "step w ev w'" "clients w c = Some cl" "event_client ev \<noteq> Some c"
  shows "clients w' c = Some cl"
  using assms
proof (induction rule: step.induct)
  case (accept w i x e)
  then have "new_client e \<noteq> Some c" by (auto simp: env_ok_def)
  with accept show ?case by (simp add: frame_accept)
qed (simp_all add: frame)

subsection \<open>Clients without events\<close>

definition quiet :: "redsocks_client \<Rightarrow> bool" where
  "quiet cl \<longleftrightarrow> (\<forall>s b. bev_of s cl = Some b \<longrightarrow> \<not> ev_read b \<and> \<not> ev_write b)"

lemma quiet_forever: "steps w es w' \<Longrightarrow> clients w c = Some cl \<Longrightarrow> quiet cl \<Longrightarrow> clients w' c = Some cl"
proof (induction rule: steps.induct)
  case (steps_step w es w' ev w'')
  then have c: "clients w' c = Some cl" by simp
  have "event_client ev \<noteq> Some c"
    using steps_step(2) c steps_step.prems(2) by (cases rule: step.cases) (auto simp: quiet_def)
  with step_frame [OF steps_step(2) c] show ?case .
qed

subsection \<open>The bytes of a relayed connection\<close>

text \<open>The bytes between the sockets: read from \<open>s\<close>, not yet written to the other side\<close>

definition pipe :: "side \<Rightarrow> redsocks_client \<Rightarrow> bytes" where
  "pipe s cl = (case (bev_of s cl, bev_of (other s) cl) of (Some f, Some t) \<Rightarrow> bev_output t @ bev_input f | _ \<Rightarrow> [])"

definition relay_client :: "redsocks_client \<Rightarrow> bool" where
  "relay_client cl \<longleftrightarrow> (case (c_client cl, c_relay cl) of (Some b, Some r) \<Rightarrow> relaying b r | _ \<Rightarrow> False)"

definition stalled :: "side \<Rightarrow> redsocks_client \<Rightarrow> bool" where
  "stalled s cl \<longleftrightarrow> (case bev_of s cl of Some b \<Rightarrow> read_suspended b \<noteq> 0 | None \<Rightarrow> False)"

definition same_flow :: "redsocks_client \<Rightarrow> redsocks_client \<Rightarrow> bool" where
  "same_flow cl cl' \<longleftrightarrow>
    relay_client cl' \<and> (\<forall>s. pipe s cl' = pipe s cl) \<and> (\<forall>s. stalled s cl \<longrightarrow> stalled s cl')"

lemma suspended_frame [simp]:
  "read_suspended (snd (bufferevent_enable e ev b)) = read_suspended b"
  "read_suspended (snd (bufferevent_disable e ev b)) = read_suspended b"
  by (simp_all add: bufferevent_enable_def bufferevent_disable_def be_socket_enable_def be_socket_disable_def Let_def)

lemma same_flow_trans: "same_flow a b \<Longrightarrow> same_flow b d \<Longrightarrow> same_flow a d"
  by (simp add: same_flow_def)

lemma same_flow_touch: "relay_client cl \<Longrightarrow> same_flow cl (cl\<lparr> last_event := t \<rparr>)"
  by (simp add: same_flow_def relay_client_def pipe_def stalled_def)

lemma same_flow_evshut: "same_flow cl cl' \<Longrightarrow> same_flow cl (set_evshut s v cl')"
proof -
  have "bev_of t (set_evshut s v cl') = bev_of t cl'" for t by (cases s; cases t) simp_all
  moreover have "relay_client (set_evshut s v cl') = relay_client cl'" by (cases s) (simp_all add: relay_client_def)
  ultimately show "same_flow cl cl' \<Longrightarrow> same_flow cl (set_evshut s v cl')"
    by (simp add: same_flow_def pipe_def stalled_def)
qed

lemma same_flow_bev:
  assumes "relay_client cl" "bev_of s cl = Some b" "readcb b' = readcb b" "writecb b' = writecb b"
    "bev_input b' = bev_input b" "bev_output b' = bev_output b" "read_suspended b \<noteq> 0 \<longrightarrow> read_suspended b' \<noteq> 0"
  shows "same_flow cl (set_bev s (Some b') cl)"
proof -
  have "pipe t (set_bev s (Some b') cl) = pipe t cl" "stalled t cl \<longrightarrow> stalled t (set_bev s (Some b') cl)" for t
    using assms by (cases s; cases t; auto simp: pipe_def stalled_def split: option.splits)+
  moreover have "relay_client (set_bev s (Some b') cl)"
    using assms by (cases s) (auto simp: relay_client_def relaying_def split: option.splits)
  ultimately show ?thesis by (simp add: same_flow_def)
qed

lemma same_flow_move:
  assumes "relay_client cl" "bev_of (other s) cl = Some t" "bev_of s cl = Some f"
    "readcb f' = readcb f" "writecb f' = writecb f" "bev_input f' = []" "bev_output f' = bev_output f"
    "read_suspended f' = read_suspended f"
  shows "same_flow cl (set_bev (other s) (Some (fst (bufferevent_write_buffer e (bev_input f) t))) (set_bev s (Some f') cl))"
    (is "same_flow _ ?cl")
proof -
  have "pipe u ?cl = pipe u cl" "stalled u cl \<longrightarrow> stalled u ?cl" for u
    using assms by (cases s; cases u; simp add: pipe_def stalled_def)+
  moreover have "relay_client ?cl" using assms by (cases s) (simp_all add: relay_client_def relaying_def)
  ultimately show ?thesis by (simp add: same_flow_def)
qed

text \<open>What a callback leaves of the connection, when it leaves it\<close>

definition keeps_flow :: "nat \<Rightarrow> redsocks_client \<Rightarrow> world \<Rightarrow> bool" where
  "keeps_flow c cl w \<longleftrightarrow> (case clients w c of None \<Rightarrow> True | Some cl' \<Rightarrow> same_flow cl cl')"

lemma keeps_put [simp]: "keeps_flow c cl (put_client c cl' w) = same_flow cl cl'"
  by (simp add: keeps_flow_def)

lemma drop_gone: "valid c cl w \<Longrightarrow> clients (redsocks_drop_client e c (put_client c cl w)) = (clients w)(c := None)"
  by (rule drop_ok) (auto simp: valid_def client_in_def)

lemma keeps_drop: "valid c cl' w \<Longrightarrow> keeps_flow c cl (redsocks_drop_client e c (put_client c cl' w))"
  by (simp add: keeps_flow_def drop_gone)

lemma relay_client_bevs:
  assumes "relay_client cl"
  obtains f t where "bev_of s cl = Some f" "bev_of (other s) cl = Some t"
  using assms by (cases s) (auto simp: relay_client_def split: option.splits)

lemma keeps_shutdown:
  assumes v: "valid c cl w" and b: "bev_of s cl = Some b" and r: "relay_client cl"
  shows "keeps_flow c cl (redsocks_shutdown e c s how (put_client c cl w))"
proof -
  have "same_flow cl (shut_client e s how b cl)"
    unfolding shut_client_def by (rule same_flow_evshut, rule same_flow_bev [OF r b]) simp_all
  with keeps_drop [OF valid_similar [OF v shut_client_frame(1) [OF b]]] show ?thesis
    unfolding shutdown_put [OF v b] Let_def by simp
qed

lemma keeps_readcb:
  assumes v: "valid c cl w" and r: "relay_client cl"
  shows "keeps_flow c cl (redsocks_relay_readcb e c s (put_client c cl w))"
proof -
  obtain f t where b: "bev_of s cl = Some f" "bev_of (other s) cl = Some t" by (rule relay_client_bevs [OF r])
  then show ?thesis
    by (simp add: redsocks_relay_readcb_def world_simps relay_move_put same_flow_bev [OF r] same_flow_move [OF r])
qed

lemma keeps_writecb:
  assumes v: "valid c cl w" and r: "relay_client cl"
  shows "keeps_flow c cl (redsocks_relay_writecb e c s (put_client c cl w))"
proof -
  obtain f t where b: "bev_of s cl = Some f" "bev_of (other s) cl = Some t" by (rule relay_client_bevs [OF r])
  have s: "set_bev s x (set_bev (other s) y (set_bev s z cl)) = set_bev (other s) y (set_bev s x cl)" for x y z
    by (cases s) simp_all
  have "same_flow cl cl" using r by (simp add: same_flow_def)
  with b keeps_shutdown [OF v b(2) r, of e SHUT_WR] show ?thesis
    by (simp add: redsocks_relay_writecb_def world_simps relay_move_put s same_flow_move [OF r])
qed

lemma keeps_event_error:
  assumes v: "valid c cl w" and o: "client_ok cl" and r: "relay_client cl"
  shows "keeps_flow c cl (redsocks_event_error e c s what (put_client c cl w))"
proof -
  let ?cl = "cl\<lparr> last_event := env_time e \<rparr>"
  have t: "same_flow cl ?cl" "relay_client ?cl" using same_flow_touch [OF r] by (auto simp: same_flow_def)
  obtain f a where b: "bev_of s ?cl = Some f" "bev_of (other s) ?cl = Some a" by (rule relay_client_bevs [OF t(2)])
  note v1 = touch_ok(1) [OF v, of "env_time e"]
  let ?cl1 = "shut_client e s SHUT_RD f ?cl"
  note f = shut_client_frame [OF b(1), of e SHUT_RD] and v2 = valid_similar [OF v1 shut_client_frame(1) [OF b(1), of e SHUT_RD]]
  note sd = shutdown_read_ok(1) [OF v1 touch_ok(2) [OF o] b(1), of e]
  have s1: "same_flow ?cl ?cl1"
    unfolding shut_client_def by (rule same_flow_evshut, rule same_flow_bev [OF t(2) b(1)]) simp_all
  then have r1: "relay_client ?cl1" by (simp add: same_flow_def)
  have a: "bev_of (other s) ?cl1 = Some a" using f(5) b(2) by simp
  have c: "same_flow cl ?cl1" by (rule same_flow_trans [OF t(1) s1])
  have "keeps_flow c cl (redsocks_shutdown e c (other s) SHUT_WR (put_client c ?cl1 w))"
    using keeps_shutdown [OF v2 a r1, of e SHUT_WR] same_flow_trans [OF c]
    by (auto simp: keeps_flow_def split: option.splits)
  with c b(2) a sd keeps_drop [OF v1] show ?thesis
    by (simp add: redsocks_event_error_def world_simps Let_def)
qed

lemma keeps_action:
  assumes v: "valid c cl w" and o: "client_ok cl" and r: "relay_client cl" and b: "bev_of s cl = Some b"
  shows "keeps_flow c cl (run_action e c s b act (put_client c cl w))"
proof -
  let ?cl = "cl\<lparr> last_event := env_time e \<rparr>"
  have t: "same_flow cl ?cl" "relay_client ?cl" using same_flow_touch [OF r] by (auto simp: same_flow_def)
  note v1 = touch_ok(1) [OF v, of "env_time e"]
  have m: "keeps_flow c ?cl w' \<Longrightarrow> keeps_flow c cl w'" for w'
    using same_flow_trans [OF t(1)] by (auto simp: keeps_flow_def split: option.splits)
  have "keeps_flow c cl (run_opt e c (readcb b) (put_client c cl w))"
    "keeps_flow c cl (run_opt e c (writecb b) (put_client c cl w))"
    using b r m [OF keeps_readcb [OF v1 t(2)]] m [OF keeps_writecb [OF v1 t(2)]]
    by (cases s; auto simp: run_opt_def relay_client_def relaying_def world_simps redsocks_relay_clientreadcb_def
      redsocks_relay_clientwritecb_def redsocks_relay_relayreadcb_def redsocks_relay_relaywritecb_def split: option.splits)+
  moreover have "same_flow cl cl" using r by (simp add: same_flow_def)
  ultimately show ?thesis using keeps_event_error [OF v o r] by (cases act) simp_all
qed

fun reads :: "nat \<Rightarrow> side \<Rightarrow> event \<Rightarrow> bytes" where
  "reads c s (Ev_readable c' s' (Read_data d)) = (if c' = c \<and> s' = s then d else [])"
| "reads c s ev = []"

fun writes :: "nat \<Rightarrow> side \<Rightarrow> event \<Rightarrow> bytes" where
  "writes c s (Ev_writable c' s' (Wrote d)) = (if c' = c \<and> s' = s then d else [])"
| "writes c s ev = []"

lemma reads_other: "event_client ev \<noteq> Some c \<Longrightarrow> reads c s ev = []"
  by (cases "(c, s, ev)" rule: reads.cases) auto

lemma writes_other: "event_client ev \<noteq> Some c \<Longrightarrow> writes c s ev = []"
  by (cases "(c, s, ev)" rule: writes.cases) auto

text \<open>The connection after a step, as far as it is relayed\<close>

definition flow_step :: "nat \<Rightarrow> event \<Rightarrow> redsocks_client \<Rightarrow> redsocks_client \<Rightarrow> bool" where
  "flow_step c ev cl cl' \<longleftrightarrow>
    relay_client cl'
    \<and> (\<forall>s. writes c (other s) ev @ pipe s cl' = pipe s cl @ reads c s ev)
    \<and> (\<forall>s. stalled s cl \<longrightarrow> stalled s cl' \<and> reads c s ev = [])"

lemma flow_step_same: "flow_step c ev cl cl' \<Longrightarrow> same_flow cl' cl'' \<Longrightarrow> flow_step c ev cl cl''"
  by (simp add: flow_step_def same_flow_def)

lemma suspend_suspended:
  "read_suspended (bufferevent_suspend_read e BEV_SUSPEND_WM b) \<noteq> 0"
proof -
  have "read_suspended (bufferevent_suspend_read e BEV_SUSPEND_WM b) = read_suspended b OR 1"
    by (simp add: bufferevent_suspend_read_def BEV_SUSPEND_WM_def be_socket_disable_def Let_def)
  then show ?thesis by (simp add: or_eq_0_iff)
qed

lemma readcb_flow:
  assumes "bufferevent_readcb e res b = (b', act)" "read_result_ok b res"
  shows "bev_input b' = bev_input b @ (case res of Read_data d \<Rightarrow> d | _ \<Rightarrow> [])" "bev_output b' = bev_output b"
    "read_suspended b \<noteq> 0 \<longrightarrow> read_suspended b' \<noteq> 0 \<and> (case res of Read_data d \<Rightarrow> d | _ \<Rightarrow> []) = []"
proof -
  consider "wm_read_high b \<noteq> 0 \<and> wm_read_high b \<le> length (bev_input b)"
    | "\<not> (wm_read_high b \<noteq> 0 \<and> wm_read_high b \<le> length (bev_input b))" "read_suspended b \<noteq> 0"
    | "\<not> (wm_read_high b \<noteq> 0 \<and> wm_read_high b \<le> length (bev_input b))" "read_suspended b = 0" by blast
  then have "bev_input b' = bev_input b @ (case res of Read_data d \<Rightarrow> d | _ \<Rightarrow> []) \<and> bev_output b' = bev_output b
    \<and> (read_suspended b \<noteq> 0 \<longrightarrow> read_suspended b' \<noteq> 0 \<and> (case res of Read_data d \<Rightarrow> d | _ \<Rightarrow> []) = [])"
  proof cases
    case 1
    then have "b' = bufferevent_suspend_read e BEV_SUSPEND_WM b" "(case res of Read_data d \<Rightarrow> d | _ \<Rightarrow> []) = []"
      using assms by (auto simp: bufferevent_readcb_def read_howmuch_def split: read_result.split)
    then show ?thesis by (simp add: suspend_suspended)
  next
    case 2
    with assms have "b' = b" "(case res of Read_data d \<Rightarrow> d | _ \<Rightarrow> []) = []"
      by (auto simp: bufferevent_readcb_def split: read_result.split)
    with 2 show ?thesis by simp
  next
    case 3
    with assms show ?thesis by (cases res) (auto simp: bufferevent_readcb_def Let_def)
  qed
  then show "bev_input b' = bev_input b @ (case res of Read_data d \<Rightarrow> d | _ \<Rightarrow> [])" "bev_output b' = bev_output b"
    "read_suspended b \<noteq> 0 \<longrightarrow> read_suspended b' \<noteq> 0 \<and> (case res of Read_data d \<Rightarrow> d | _ \<Rightarrow> []) = []" by auto
qed

lemma writecb_flow:
  assumes "bufferevent_writecb e res b = (b', act)" "write_result_ok b res"
  shows "(case res of Wrote d \<Rightarrow> d | _ \<Rightarrow> []) @ bev_output b' = bev_output b" "bev_input b' = bev_input b"
    "read_suspended b' = read_suspended b"
  using assms
  by (cases res; auto simp: bufferevent_writecb_def writecb_tail_def Let_def prefix_def split: if_splits)+

lemma flow_readable:
  assumes "relay_client cl" "bev_of s cl = Some b" "bufferevent_readcb e res b = (b', act)" "read_result_ok b res"
  shows "flow_step c (Ev_readable c s res) cl (set_bev s (Some b') cl)"
proof -
  note f = readcb_flow [OF assms(3,4)] readcb_frame [OF assms(3)]
  have r: "reads c s (Ev_readable c s res) = (case res of Read_data d \<Rightarrow> d | _ \<Rightarrow> [])"
    "u \<noteq> s \<Longrightarrow> reads c u (Ev_readable c s res) = []" for u by (cases res; simp)+
  obtain t where t: "bev_of (other s) cl = Some t" by (rule relay_client_bevs [OF assms(1)])
  have "relay_client (set_bev s (Some b') cl)"
    using assms(1,2) f by (cases s) (auto simp: relay_client_def relaying_def split: option.splits)
  moreover have "pipe u (set_bev s (Some b') cl) = pipe u cl @ reads c u (Ev_readable c s res)" for u
    using f t assms(2) r by (cases s; cases u) (auto simp: pipe_def)
  moreover have "stalled u cl \<longrightarrow> stalled u (set_bev s (Some b') cl) \<and> reads c u (Ev_readable c s res) = []" for u
    using f t assms(2) r by (cases s; cases u) (auto simp: stalled_def)
  ultimately show ?thesis by (simp add: flow_step_def)
qed

lemma flow_writable:
  assumes "relay_client cl" "bev_of s cl = Some b" "bufferevent_writecb e res b = (b', act)" "write_result_ok b res"
  shows "flow_step c (Ev_writable c s res) cl (set_bev s (Some b') cl)"
proof -
  note f = writecb_flow [OF assms(3,4)] writecb_frame [OF assms(3)]
  have r: "writes c s (Ev_writable c s res) = (case res of Wrote d \<Rightarrow> d | _ \<Rightarrow> [])"
    "u \<noteq> s \<Longrightarrow> writes c u (Ev_writable c s res) = []" for u by (cases res; simp)+
  obtain t where t: "bev_of (other s) cl = Some t" by (rule relay_client_bevs [OF assms(1)])
  have "relay_client (set_bev s (Some b') cl)"
    using assms(1,2) f by (cases s) (auto simp: relay_client_def relaying_def split: option.splits)
  moreover have "writes c (other u) (Ev_writable c s res) @ pipe u (set_bev s (Some b') cl) = pipe u cl" for u
    using f(2-) f(1) [symmetric] t assms(2) r by (cases s; cases u) (auto simp: pipe_def)
  moreover have "stalled u cl \<longrightarrow> stalled u (set_bev s (Some b') cl)" for u
    using f t assms(2) by (cases s; cases u) (auto simp: stalled_def)
  ultimately show ?thesis by (simp add: flow_step_def)
qed

lemma handler_flow:
  assumes w: "world_ok w" and c: "clients w c = Some cl" and b: "bev_of s cl = Some b"
    and f: "bev_fd b' = bev_fd b" "readcb b' = readcb b" "writecb b' = writecb b"
    and fl: "flow_step c ev cl (set_bev s (Some b') cl)"
    and c': "clients (run_action e c s b' act (put_bev c s (Some b') w)) c = Some cl'"
  shows "flow_step c ev cl cl'"
proof -
  note v = world_valid [OF w c]
  let ?cl = "set_bev s (Some b') cl"
  have p: "put_bev c s (Some b') w = put_client c ?cl w"
    using put_bev_put [of c s "Some b'" cl w] v(3) by simp
  have "valid c ?cl w" by (rule valid_similar [OF v(1) similar_set_bev [OF b f(1)]])
  from keeps_action [OF this client_ok_bev [OF v(2) b f], of s b' e act] fl c'
  have "same_flow ?cl cl'" by (simp add: p flow_step_def keeps_flow_def)
  with fl show ?thesis by (rule flow_step_same)
qed

lemma step_flow:
  assumes "step w ev w'" "world_ok w" "clients w c = Some cl" "relay_client cl" "clients w' c = Some cl'"
  shows "flow_step c ev cl cl'"
proof (cases "event_client ev = Some c")
  case False
  with step_frame [OF assms(1,3)] assms(4,5) show ?thesis
    by (simp add: flow_step_def reads_other writes_other)
next
  case True
  from assms(1) show ?thesis
  proof (cases rule: step.cases)
    case (readable c1 cl1 s b res e)
    with True assms(3) have r: "clients w c = Some cl" "bev_of s cl = Some b" "c1 = c" by auto
    obtain b' act where b': "bufferevent_readcb e res b = (b', act)" by fastforce
    with readable r assms(5) handler_flow [OF assms(2) r(1,2) readcb_frame [OF b'] flow_readable [OF assms(4) r(2) b']]
    show ?thesis by (simp add: on_readable_def with_bev_def with_client_def)
  next
    case (writable c1 cl1 s b res e)
    with True assms(3) have r: "clients w c = Some cl" "bev_of s cl = Some b" "c1 = c" by auto
    obtain b' act where b': "bufferevent_writecb e res b = (b', act)" by fastforce
    with writable r assms(5) handler_flow [OF assms(2) r(1,2) writecb_frame [OF b'] flow_writable [OF assms(4) r(2) b']]
    show ?thesis by (simp add: on_writable_def with_bev_def with_client_def)
  qed (use True in auto)
qed

text \<open>Runs in which the client is never dropped\<close>

inductive kept :: "nat \<Rightarrow> world \<Rightarrow> event list \<Rightarrow> world \<Rightarrow> bool" for c where
  kept_refl: "kept c w [] w"
| kept_step: "kept c w es w' \<Longrightarrow> step w' ev w'' \<Longrightarrow> clients w'' c \<noteq> None \<Longrightarrow> kept c w (es @ [ev]) w''"

lemma kept_flow:
  assumes "kept c w es w'" "world_ok w" "clients w c = Some cl" "relay_client cl"
  shows "\<exists>cl'. world_ok w' \<and> clients w' c = Some cl' \<and> relay_client cl'
    \<and> (\<forall>s. concat (map (writes c (other s)) es) @ pipe s cl' = pipe s cl @ concat (map (reads c s) es))
    \<and> (\<forall>s. stalled s cl \<longrightarrow> stalled s cl' \<and> concat (map (reads c s) es) = [])"
  using assms
proof (induction rule: kept.induct)
  case (kept_step w es w' ev w'')
  then obtain cl1 where c: "world_ok w'" "clients w' c = Some cl1" "relay_client cl1"
    "\<forall>s. concat (map (writes c (other s)) es) @ pipe s cl1 = pipe s cl @ concat (map (reads c s) es)"
    "\<forall>s. stalled s cl \<longrightarrow> stalled s cl1 \<and> concat (map (reads c s) es) = []" by auto
  obtain cl2 where d: "clients w'' c = Some cl2" using kept_step.hyps(3) by auto
  have f: "flow_step c ev cl1 cl2" by (rule step_flow [OF kept_step.hyps(2) c(1,2,3) d])
  have "concat (map (writes c (other s)) (es @ [ev])) @ pipe s cl2 = pipe s cl @ concat (map (reads c s) (es @ [ev]))" for s
  proof -
    have "concat (map (writes c (other s)) (es @ [ev])) @ pipe s cl2
        = concat (map (writes c (other s)) es) @ pipe s cl1 @ reads c s ev"
      using f by (simp add: flow_step_def)
    also have "\<dots> = (concat (map (writes c (other s)) es) @ pipe s cl1) @ reads c s ev" by simp
    also have "\<dots> = pipe s cl @ concat (map (reads c s) (es @ [ev]))" unfolding c(4) [rule_format] by simp
    finally show ?thesis .
  qed
  with f c(5) d step_ok [OF kept_step.hyps(2) c(1)] show ?case by (auto simp: flow_step_def)
qed simp

end
