(* ===== verification/HaP_System.thy ===== *)
theory HaP_System
  imports HaP_Traces
begin

text \<open>
  The properties of the running redirector, with a small configuration on which they are applied.
\<close>

subsection \<open>Who holds a descriptor\<close>

datatype holder = Conn nat side | Listen nat

fun holds :: "world \<Rightarrow> holder \<Rightarrow> nat \<Rightarrow> bool" where
  "holds w (Conn c s) fd = (case clients w c of
      None \<Rightarrow> False | Some cl \<Rightarrow> (case bev_of s cl of None \<Rightarrow> False | Some b \<Rightarrow> bev_fd b = fd))"
| "holds w (Listen i) fd = (case map_of (instances w) i of None \<Rightarrow> False | Some x \<Rightarrow> tev_fd (listener x) = Some fd)"

lemma holds_conn: "(\<exists>s. holds w (Conn c s) fd) \<longleftrightarrow> fd \<in> fds_of w c"
proof -
  have "(\<exists>s. P s) \<longleftrightarrow> P SClient \<or> P SRelay" for P by (metis side.exhaust)
  then show ?thesis by (auto simp: fds_of_def cfds_def bev_fds_def split: option.splits)
qed

lemma holds_listen: "world_ok w \<Longrightarrow> (\<exists>i. holds w (Listen i) fd) \<longleftrightarrow> fd \<in> listen_fds w"
proof -
  assume w: "world_ok w"
  then have d: "distinct (map fst (instances w))" by (simp add: world_ok_def insts_ok_def)
  show ?thesis
  proof
    assume "\<exists>i. holds w (Listen i) fd"
    then show "fd \<in> listen_fds w" by (auto simp: listen_fds_def split: option.splits dest: map_of_SomeD)
  next
    assume "fd \<in> listen_fds w"
    then obtain i x where "(i, x) \<in> set (instances w)" "tev_fd (listener x) = Some fd" by (auto simp: listen_fds_def)
    with d have "holds w (Listen i) fd" by simp
    then show "\<exists>i. holds w (Listen i) fd" by blast
  qed
qed

lemma conn_side:
  assumes "world_ok w" "holds w (Conn c s) fd" "holds w (Conn c s') fd"
  shows "s = s'"
proof -
  obtain cl where cl: "clients w c = Some cl" using assms(2) by (auto split: option.splits)
  then have "phase_ok cl" using world_valid(2) [OF assms(1)] by (simp add: client_ok_def)
  with cl assms show ?thesis by (cases s; cases s'; auto elim!: client_ok_bevs)
qed

lemma conn_unique:
  assumes w: "world_ok w" and h: "holds w (Conn c s) fd" "holds w h fd"
  shows "h = Conn c s"
proof (cases h)
  case (Conn c' s')
  have "fd \<in> fds_of w c" "fd \<in> fds_of w c'" using h Conn holds_conn by blast+
  then have "c' = c" using w unfolding world_ok_def by blast
  with conn_side [OF w] h Conn show ?thesis by blast
next
  case (Listen i)
  have "fd \<in> fds_of w c" using h holds_conn by blast
  moreover have "fd \<in> listen_fds w" using h(2) Listen holds_listen [OF w] by blast
  ultimately show ?thesis using w unfolding world_ok_def by blast
qed

lemma listen_unique:
  assumes w: "world_ok w" and h: "holds w (Listen i) fd" "holds w (Listen j) fd"
  shows "i = j"
  using w h unfolding world_ok_def insts_ok_def by (auto split: option.splits dest!: map_of_SomeD)

lemma one_holder:
  assumes w: "world_ok w"
  shows "fd \<in> set (open_fds w) \<Longrightarrow> \<exists>!h. holds w h fd" "holds w h fd \<Longrightarrow> fd \<in> set (open_fds w)"
proof -
  have o: "fd \<in> set (open_fds w) \<longleftrightarrow> (\<exists>c. fd \<in> fds_of w c) \<or> fd \<in> listen_fds w"
    using w by (simp add: world_ok_def)
  show "holds w h fd \<Longrightarrow> fd \<in> set (open_fds w)"
    using o holds_conn holds_listen [OF w] by (cases h) blast+
  assume "fd \<in> set (open_fds w)"
  then consider c s where "holds w (Conn c s) fd" | i where "holds w (Listen i) fd"
    using o holds_conn holds_listen [OF w] by blast
  then show "\<exists>!h. holds w h fd"
  proof cases
    case 1
    then show ?thesis using conn_unique [OF w 1] by blast
  next
    case 2
    have "h = Listen i" if "holds w h fd" for h
      using that 2 conn_unique [OF w] listen_unique [OF w] by (cases h) blast+
    with 2 show ?thesis by blast
  qed
qed

lemma quiet_events:
  "steps w es w' \<Longrightarrow> clients w c = Some cl \<Longrightarrow> quiet cl \<Longrightarrow> \<forall>ev \<in> set es. event_client ev \<noteq> Some c"
proof (induction rule: steps.induct)
  case (steps_step w es w' ev w'')
  have k: "clients w' c = Some cl" by (rule quiet_forever [OF steps_step.hyps(1) steps_step.prems])
  have "event_client ev \<noteq> Some c"
    using steps_step(2) k steps_step.prems(2) by (cases rule: step.cases) (auto simp: quiet_def)
  with steps_step show ?case by simp
qed simp

subsection \<open>A sample configuration\<close>

definition sample_env :: env where
  "sample_env =
    \<lparr> event_add_ok = \<lambda>_ _. True, event_del_ok = \<lambda>_ _. True, env_time = 1, env_clock = 1,
      tev_add_ok = True, tev_del_ok = True, close_ok = \<lambda>_. True, so_error = \<lambda>_. Some 0,
      socket_fd = \<lambda>fds. Some (Suc (sum_list fds)), fcntl_ok = \<lambda>_. True, setsockopt_ok = \<lambda>_. True,
      connect_ok = \<lambda>_. True, bind_ok = \<lambda>_. True, listen_ok = \<lambda>_. True, bev_new_ok = \<lambda>_. True,
      accept_res = Accepted 5 \<lparr> sin_addr = 1, sin_port = 2 \<rparr>, getsockname_ok = True,
      env_destaddr = Some \<lparr> sin_addr = 3, sin_port = 80 \<rparr>, new_client = Some 7, env_random = 0,
      evbuffer_ok_env = True, env_rand = [], sigaction_ok = True, signal_add_ok = True \<rparr>"

definition idle_env :: env where
  "idle_env = sample_env\<lparr> accept_res := Accept_failed, new_client := None \<rparr>"

definition sample_instance :: redsocks_instance where
  "sample_instance =
    \<lparr> config = \<lparr> bindaddr = \<lparr> sin_addr = 127, sin_port = 99 \<rparr>, relayaddr = \<lparr> sin_addr = 9, sin_port = 1080 \<rparr>,
                 cf_type = Some ''socks5'', cf_login = None, cf_password = None,
                 min_backoff_ms = 100, max_backoff_ms = 60000, listenq = 128 \<rparr>,
      listener = \<lparr> tev_fd = None, inserted = 0 \<rparr>, accept_backoff = \<lparr> tev_fd = None, inserted = 0 \<rparr>,
      accept_backoff_ms = 0, inst_clients = [], relay_ss = Socks5,
      auth = \<lparr> last_auth_query = None, last_auth_count = 0 \<rparr> \<rparr>"

definition sample_world :: world where
  "sample_world = \<lparr> instances = [(0, sample_instance)], clients = \<lambda>_. None, open_fds = [], world_fault = None \<rparr>"

definition sample_started :: world where
  "sample_started =
    \<lparr> instances = [(0, sample_instance\<lparr> listener := \<lparr> tev_fd = Some 1, inserted = 1 \<rparr> \<rparr>)],
      clients = \<lambda>_. None, open_fds = [1], world_fault = None \<rparr>"

definition sample_client :: redsocks_client where
  "sample_client = (new_redsocks_client 0 \<lparr> sin_addr = 1, sin_port = 2 \<rparr> \<lparr> sin_addr = 3, sin_port = 80 \<rparr>)
    \<lparr> c_client := Some (bufferevent_new 5 None None \<lparr> bev_enabled := EV_READ OR EV_WRITE, ev_read := True \<rparr>),
      c_relay := Some (bufferevent_new 7 None (Some Relay_connected) \<lparr> ev_write := True \<rparr>),
      first_event := 1, last_event := 1 \<rparr>"

definition sample_accepted :: world where
  "sample_accepted =
    \<lparr> instances = [(0, sample_instance\<lparr> listener := \<lparr> tev_fd = Some 1, inserted = 1 \<rparr>, inst_clients := [7] \<rparr>)],
      clients = (\<lambda>_. None)(7 := Some sample_client), open_fds = [7, 5, 1], world_fault = None \<rparr>"

lemma sample_fresh: "fresh_fds sample_env"
  using member_le_sum_list by (fastforce simp: fresh_fds_def sample_env_def)

lemma idle_env_ok: "env_ok idle_env w"
  using sample_fresh by (simp add: env_ok_def fresh_fds_def idle_env_def)

lemma sample_configured: "configured sample_world"
  by (simp add: configured_def sample_world_def sample_instance_def inst_ok_def)

lemma sample_init: "redsocks_init sample_env sample_world = (True, sample_started)"
  by (simp add: redsocks_init_def redsocks_init_instance_def sample_env_def sample_world_def sample_started_def
      upd_instance_def tracked_event_add_def sample_instance_def)

lemma sample_accept:
  "redsocks_accept_client (ss_init Socks5) sample_env 0 sample_started = sample_accepted"
  by (simp add: redsocks_accept_client_def accept_start_def redsocks_connect_relay_def red_connect_relay_def
      sample_env_def sample_started_def sample_accepted_def sample_instance_def sample_client_def ss_init_def
      socks5_client_init_def socks5_is_valid_cred_def socks5_new_def new_redsocks_client_def
      with_instance_def upd_instance_def put_client_def with_client_def redsocks_touch_client_def put_bev_def
      bufferevent_enable_def be_socket_enable_def bufferevent_new_unfold EV_READ_def EV_WRITE_def Let_def)

lemma sample_steps: "steps sample_started [Ev_accept 0] sample_accepted"
proof -
  have "step sample_started (Ev_accept 0) sample_accepted"
    unfolding sample_accept [symmetric]
    using step.accept [of sample_started 0 "sample_instance\<lparr> listener := \<lparr> tev_fd = Some 1, inserted = 1 \<rparr> \<rparr>" sample_env]
      sample_fresh
    by (simp add: sample_started_def env_ok_def sample_instance_def) (simp add: sample_env_def)
  from steps_step [OF steps_refl this] show ?thesis by simp
qed

subsection \<open>Properties\<close>

text \<open>
  C18: From a start of the program on, whatever the peers and the system calls do, no callback uses
  a freed client, a null pointer or a closed descriptor and no assertion fails (the over-read of
  the stored HTTP challenge is the one fault left). Every open descriptor is held by exactly one
  connection of a client or one listener, and what they hold is open.
\<close>

theorem redirector_safe:
  assumes "configured w" "fresh_fds e" "redsocks_init e w = (True, w0)" "steps w0 es w'"
  shows "world_fault w' \<in> {None, Some Out_of_bounds} \<and> distinct (open_fds w')
    \<and> (\<forall>fd. (fd \<in> set (open_fds w') \<longrightarrow> (\<exists>!h. holds w' h fd)) \<and> (\<forall>h. holds w' h fd \<longrightarrow> fd \<in> set (open_fds w')))"
proof -
  have w: "world_ok w'" using steps_ok [OF assms(4)] init_ok(1) [OF assms(1-3)] .
  then show ?thesis using one_holder [OF w] by (auto simp: world_ok_def no_fault_def)
qed

theorem redirector_safe_witness:
  "configured sample_world \<and> redsocks_init sample_env sample_world = (True, sample_started)
   \<and> steps sample_started [Ev_accept 0] sample_accepted \<and> (\<exists>!h. holds sample_accepted h 7)"
  using redirector_safe [OF sample_configured sample_fresh sample_init sample_steps]
    sample_configured sample_init sample_steps by (simp add: sample_accepted_def)

text \<open>
  C19: At any point of a run, a client is in the list of exactly its own instance and has both
  connections, with different descriptors. It is waiting for the proxy, in the dialogue with the
  proxy, or relaying; a side is shut for writing only when the other side has ended.
\<close>

theorem client_phases:
  assumes "configured w" "fresh_fds e" "redsocks_init e w = (True, w0)" "steps w0 es w'" "clients w' c = Some cl"
  shows "\<exists>b r. c_client cl = Some b \<and> c_relay cl = Some r \<and> bev_fd b \<noteq> bev_fd r
    \<and> (connecting cl b r \<or> talking b r \<and> 1 \<le> c_state cl \<or> relaying b r)
    \<and> (client_evshut cl AND EV_WRITE \<noteq> 0 \<longrightarrow> relay_evshut cl AND EV_READ \<noteq> 0)
    \<and> (relay_evshut cl AND EV_WRITE \<noteq> 0 \<longrightarrow> client_evshut cl AND EV_READ \<noteq> 0)
    \<and> (\<forall>i. listed w' c i \<longleftrightarrow> i = instance_of cl)"
proof -
  have w: "world_ok w'" using steps_ok [OF assms(4)] init_ok(1) [OF assms(1-3)] .
  from world_ok_client [OF this assms(5)] have "client_ok cl" "client_in w' c cl" by auto
  then show ?thesis
    by (auto simp: client_ok_def phase_ok_def evshut_ok_def client_in_def split: option.splits)
qed

theorem client_phases_witness:
  "clients sample_accepted 7 = Some sample_client \<and> (\<exists>b r. c_client sample_client = Some b \<and> c_relay sample_client = Some r
   \<and> connecting sample_client b r) \<and> listed sample_accepted 7 0"
proof -
  have c: "clients sample_accepted 7 = Some sample_client" by (simp add: sample_accepted_def)
  from client_phases [OF sample_configured sample_fresh sample_init sample_steps c] c show ?thesis
    by (auto simp: sample_client_def new_redsocks_client_def connecting_def talking_def relaying_def bufferevent_new_unfold)
qed

text \<open>
  C21: Stopping the program, at any point of a run, releases everything: every client is
  freed, every instance is removed and no descriptor stays open, even when closing reports errors.
\<close>

theorem redsocks_fini_releases:
  assumes "configured w" "fresh_fds e" "redsocks_init e w = (True, w0)" "steps w0 es w'"
  shows "open_fds (redsocks_fini e' w') = [] \<and> instances (redsocks_fini e' w') = []
    \<and> clients (redsocks_fini e' w') = (\<lambda>_. None)
    \<and> world_fault (redsocks_fini e' w') \<in> {None, Some Out_of_bounds}"
proof -
  have w: "world_ok w'" using steps_ok [OF assms(4)] init_ok(1) [OF assms(1-3)] .
  from fini_closes_all [OF w, of e'] show ?thesis by (auto simp: world_ok_def no_fault_def)
qed

theorem redsocks_fini_releases_witness:
  "open_fds sample_accepted = [7, 5, 1] \<and> open_fds (redsocks_fini sample_env sample_accepted) = []"
  using redsocks_fini_releases [OF sample_configured sample_fresh sample_init sample_steps, of sample_env]
  by (simp add: sample_accepted_def)

text \<open>
  C22: A start that fails leaves no descriptor open and no client, whichever instance or system
  call it fails at.
\<close>

theorem redsocks_init_failure:
  assumes "configured w" "fresh_fds e" "redsocks_init e w = (False, w')"
  shows "open_fds w' = [] \<and> clients w' = (\<lambda>_. None) \<and> world_fault w' \<in> {None, Some Out_of_bounds}"
proof -
  have o: "world_ok w'" "open_fds w' = []" using init_ok [OF assms] by simp_all
  have "clients w' c = None" for c
  proof (rule ccontr)
    assume "clients w' c \<noteq> None"
    then obtain cl where cl: "clients w' c = Some cl" by auto
    have "phase_ok cl" using world_valid(2) [OF o(1) cl] by (simp add: client_ok_def)
    then obtain b where "c_client cl = Some b" by (rule client_ok_bevs)
    with cl have "holds w' (Conn c SClient) (bev_fd b)" by simp
    from one_holder(2) [OF o(1) this] o(2) show False by simp
  qed
  with o show ?thesis by (auto simp: world_ok_def no_fault_def)
qed

theorem redsocks_init_failure_witness:
  "\<not> fst (redsocks_init (sample_env\<lparr> listen_ok := \<lambda>_. False \<rparr>) sample_world)
   \<and> open_fds (snd (redsocks_init (sample_env\<lparr> listen_ok := \<lambda>_. False \<rparr>) sample_world)) = []"
proof -
  let ?e = "sample_env\<lparr> listen_ok := \<lambda>_. False \<rparr>"
  have f: "fresh_fds ?e" using sample_fresh by (simp add: fresh_fds_def)
  have "redsocks_init ?e sample_world = (False, snd (redsocks_init ?e sample_world))"
    by (simp add: redsocks_init_def redsocks_init_instance_def sample_env_def sample_world_def)
  with redsocks_init_failure [OF sample_configured f this] show ?thesis by (metis fst_conv)
qed

text \<open>A client between its acceptance and the answer of \<open>connect\<close>\<close>

definition awaiting_proxy :: "redsocks_client \<Rightarrow> bool" where
  "awaiting_proxy cl \<longleftrightarrow>
    (case (c_client cl, c_relay cl) of
       (Some b, Some r) \<Rightarrow> connecting cl b r \<and> bev_output r = [] \<and> \<not> ev_read r
         \<and> ev_read b \<and> \<not> ev_write b \<and> read_suspended b = 0 \<and> wm_read_high b = 0 \<and> client_evshut cl = 0 \<and> relay_evshut cl = 0
     | _ \<Rightarrow> False)"

lemma disable_events:
  assumes "\<forall>fd ev. event_del_ok e fd ev"
  shows "ev_read (snd (bufferevent_disable e ev b)) = (ev_read b \<and> ev AND EV_READ = 0)"
    "ev_write (snd (bufferevent_disable e ev b)) = (ev_write b \<and> ev AND EV_WRITE = 0)"
  using assms by (simp_all add: bufferevent_disable_def be_socket_disable_def Let_def)

lemma early_eof_quiet:
  assumes w: "world_ok w" and c: "clients w c = Some cl" and a: "awaiting_proxy cl"
    and d: "\<forall>fd ev. event_del_ok e fd ev"
  shows "\<exists>cl'. clients (on_readable e c SClient Read_eof w) c = Some cl' \<and> quiet cl' \<and> cfds cl' = cfds cl"
proof -
  note v = world_valid [OF w c]
  obtain b r where b: "c_client cl = Some b" "c_relay cl = Some r"
    using a by (auto simp: awaiting_proxy_def split: option.splits)
  define b1 where "b1 = snd (bufferevent_disable e 2 b)"
  define b2 where "b2 = snd (bufferevent_disable e 2 b1)"
  define r1 where "r1 = snd (bufferevent_disable e 4 r)"
  let ?cl = "cl\<lparr> last_event := env_time e, c_client := Some b2, client_evshut := 2, c_relay := Some r1, relay_evshut := 4 \<rparr>"
  have f: "bev_fd b1 = bev_fd b" "bev_fd b2 = bev_fd b" "bev_fd r1 = bev_fd r" by (simp_all add: b1_def b2_def r1_def)
  have "bev_fd b \<in> set (open_fds w)" "bev_fd r \<in> set (open_fds w)"
    using valid_open [OF v(1), of SClient b] valid_open [OF v(1), of SRelay r] b by simp_all
  then have "on_readable e c SClient Read_eof (put_client c cl w) = put_client c ?cl w"
    using a b f(1)
    by (simp add: on_readable_def world_simps bufferevent_readcb_def awaiting_proxy_def b1_def [symmetric]
        redsocks_event_error_def redsocks_shutdown_def b2_def [symmetric] r1_def [symmetric] Let_def EV_READ_def EV_WRITE_def)
  moreover have "quiet ?cl"
    using a b d by (auto simp: quiet_def b2_def b1_def r1_def disable_events awaiting_proxy_def EV_READ_def EV_WRITE_def
      elim: side.exhaust dest: bev_of.elims)
  moreover have "cfds ?cl = cfds cl" using b f by (simp add: cfds_def bev_fds_def)
  ultimately show ?thesis using v(3) by simp
qed



text \<open>
  C20: While a client is relayed no byte is lost, added or reordered in either direction: what was
  written to one side followed by what is still buffered is what was buffered at the start followed
  by what was read from the other side.
\<close>

theorem relay_conserves:
  assumes "world_ok w" "clients w c = Some cl" "relay_client cl" "kept c w es w'"
  shows "\<exists>cl'. clients w' c = Some cl' \<and> relay_client cl'
    \<and> (\<forall>s. concat (map (writes c (other s)) es) @ pipe s cl' = pipe s cl @ concat (map (reads c s) es))"
  using kept_flow [OF assms(4,1,2,3)] by blast

definition sample_relayed :: world where
  "sample_relayed = put_client 7 (sample_client
     \<lparr> c_client := Some (relay_bev Relay_clientreadcb Relay_clientwritecb (bufferevent_new 5 None None)
         \<lparr> ev_read := True, ev_write := True, bev_enabled := 6 \<rparr>),
       c_relay := Some (relay_bev Relay_relayreadcb Relay_relaywritecb (bufferevent_new 7 None None)
         \<lparr> ev_read := True, ev_write := True, bev_enabled := 6 \<rparr>) \<rparr>) sample_accepted"

lemmas sample_relay_defs = sample_relayed_def sample_client_def new_redsocks_client_def relay_bev_def bufferevent_new_unfold

lemma sample_relayed_ok: "world_ok sample_relayed"
proof -
  have w: "world_ok sample_accepted"
    using steps_ok [OF sample_steps init_ok(1) [OF sample_configured sample_fresh sample_init]] .
  have "clients sample_accepted 7 = Some sample_client" by (simp add: sample_accepted_def)
  note v = world_valid [OF w this]
  have "valid 7 (the (clients sample_relayed 7)) sample_accepted"
    by (rule valid_similar [OF v(1)]) (simp add: sample_relay_defs similar_def bev_fds_def)
  moreover have "client_ok (the (clients sample_relayed 7))"
    by (simp add: client_ok_def phase_ok_def evshut_ok_def evshut_vals_def sample_relay_defs relaying_def EV_READ_def EV_WRITE_def)
  ultimately show ?thesis using valid_done by (simp add: sample_relayed_def)
qed

definition sample_read :: world where
  "sample_read = on_readable idle_env 7 SClient (Read_data [1, 2]) sample_relayed"

lemmas sample_eval = on_readable_def on_writable_def with_bev_def with_client_def put_bev_def put_client_def
  bufferevent_readcb_def bufferevent_writecb_def writecb_tail_def run_opt_def redsocks_relay_clientreadcb_def
  redsocks_touch_client_def redsocks_relay_readcb_def relay_move_def bufferevent_write_buffer_def
  bufferevent_socket_outbuf_cb_def REDSOCKS_RELAY_HALFBUFF_def

lemma sample_read_client:
  "clients sample_read 7 = Some (the (clients sample_relayed 7)
     \<lparr> last_event := 1, c_relay := Some ((the (c_relay (the (clients sample_relayed 7))))\<lparr> bev_output := [1, 2] \<rparr>) \<rparr>)"
  by (simp add: sample_read_def sample_eval sample_relay_defs sample_accepted_def idle_env_def sample_env_def)

lemma sample_kept: "kept 7 sample_relayed [Ev_readable 7 SClient (Read_data [1, 2])] sample_read"
proof -
  have c: "clients sample_relayed 7 = Some (the (clients sample_relayed 7))" by (simp add: sample_relayed_def)
  have "step sample_relayed (Ev_readable 7 SClient (Read_data [1, 2])) sample_read"
    unfolding sample_read_def using step.readable [OF c, of SClient _ "Read_data [1, 2]" idle_env] idle_env_ok
    by (simp add: sample_relay_defs read_howmuch_def REDSOCKS_RELAY_HALFBUFF_def)
  from kept_step [OF kept_refl this] sample_read_client show ?thesis by simp
qed

theorem relay_conserves_witness:
  "relay_client (the (clients sample_relayed 7)) \<and>
   kept 7 sample_relayed [Ev_readable 7 SClient (Read_data [1, 2])] sample_read
   \<and> pipe SClient (the (clients sample_read 7)) = [1, 2]"
proof -
  have c: "clients sample_relayed 7 = Some (the (clients sample_relayed 7))" by (simp add: sample_relayed_def)
  have r: "relay_client (the (clients sample_relayed 7))"
    by (simp add: relay_client_def relaying_def sample_relay_defs)
  have "pipe SClient (the (clients sample_relayed 7)) = []" by (simp add: pipe_def sample_relay_defs)
  with relay_conserves [OF sample_relayed_ok c r sample_kept] r sample_kept show ?thesis by (auto dest: spec [of _ SClient])
qed

text \<open>
  C24: When a read event finds as many bytes buffered as the high watermark, which the redirector
  stores in the structure itself, reading is suspended, and nothing resumes it: no byte is ever read
  from that side again while the client lives.
\<close>

theorem full_buffer_stalls:
  assumes "world_ok w" "clients w c = Some cl" "relay_client cl" "bev_of s cl = Some b" "ev_read b"
    "wm_read_high b \<noteq> 0" "wm_read_high b \<le> length (bev_input b)" "env_ok e w"
    "kept c (on_readable e c s Read_again w) es w'"
  shows "\<exists>cl'. clients w' c = Some cl' \<and> stalled s cl' \<and> concat (map (reads c s) es) = []"
proof -
  note v = world_valid [OF assms(1,2)]
  let ?w = "on_readable e c s Read_again w" and ?b = "bufferevent_suspend_read e BEV_SUSPEND_WM b"
  let ?cl = "set_bev s (Some ?b) cl"
  have o: "world_ok ?w"
    using step_ok [OF step.readable [OF assms(2,4,5), of Read_again e] assms(1)] assms(8) by simp
  have "on_readable e c s Read_again (put_client c cl w) = put_client c ?cl w"
    using assms(4,6,7) by (simp add: on_readable_def world_simps bufferevent_readcb_def)
  then have c: "clients ?w c = Some ?cl" using v(3) by simp
  have "relay_client ?cl"
    using same_flow_bev [OF assms(3,4), of ?b] by (simp add: suspend_suspended same_flow_def)
  moreover have "stalled s ?cl" by (simp add: stalled_def suspend_suspended)
  ultimately show ?thesis using kept_flow [OF assms(9) o c] by blast
qed

definition sample_burst :: world where
  "sample_burst = put_client 7 (set_bev SClient (map_option (\<lambda>b. b\<lparr> bev_input := replicate 4096 0 \<rparr>)
     (bev_of SClient (the (clients sample_relayed 7)))) (the (clients sample_relayed 7))) sample_relayed"

theorem full_buffer_stalls_witness:
  "\<exists>cl. clients (on_readable idle_env 7 SClient Read_again sample_burst) 7 = Some cl \<and> stalled SClient cl"
proof -
  have c: "clients sample_relayed 7 = Some (the (clients sample_relayed 7))" by (simp add: sample_relayed_def)
  note v = world_valid [OF sample_relayed_ok c]
  have "client_ok (the (clients sample_burst 7))"
    using v(2) by (simp add: client_ok_def sample_burst_def sample_relay_defs phase_ok_def relaying_def evshut_ok_def)
  moreover have "valid 7 (the (clients sample_burst 7)) sample_relayed"
    by (rule valid_similar [OF v(1)]) (simp add: sample_burst_def sample_relay_defs similar_def bev_fds_def)
  ultimately have w: "world_ok sample_burst" using valid_done by (simp add: sample_burst_def)
  have "clients sample_burst 7 = Some (the (clients sample_burst 7))" by (simp add: sample_burst_def)
  from full_buffer_stalls [OF w this _ _ _ _ _ idle_env_ok kept_refl, of SClient "the (c_client (the (clients sample_burst 7)))"]
  show ?thesis
    by (simp add: sample_burst_def sample_relay_defs relay_client_def relaying_def REDSOCKS_RELAY_HALFBUFF_def)
qed



text \<open>
  C26: The pause doubles from one failure to the next until it would pass the maximum; but it is
  doubled in 16 bits, so with the default bounds the eleventh failure in a row shortens
  it from 51711 to 37887 milliseconds and the twelfth to 10239.
\<close>

theorem accept_backoff_wraps:
  assumes "min_backoff_ms (config x) = 100" "max_backoff_ms (config x) = 60000" "accept_backoff_ms x = 0"
  shows "map (\<lambda>n. accept_backoff_ms ((accept_no_fd e ^^ n) x)) [1, 2, 9, 10, 11, 12]
    = [100, 201, 25855, 51711, 37887, 10239]"
proof -
  define f where "f ms = clamp_value (push_bit 1 ms + 1) 100 60000" for ms :: u16
  have "accept_backoff_ms ((accept_no_fd e ^^ n) x) = (f ^^ n) 0
      \<and> config ((accept_no_fd e ^^ n) x) = config x" for n
    using assms by (induction n) (simp_all add: f_def accept_no_fd_def Let_def)
  moreover have "f 0 = 100" "f 100 = 201" "f 201 = 403" "f 403 = 807" "f 807 = 1615" "f 1615 = 3231" "f 3231 = 6463"
    "f 6463 = 12927" "f 12927 = 25855" "f 25855 = 51711" "f 51711 = 37887" "f 37887 = 10239"
    by (simp_all add: f_def clamp_value_def Let_def)
  ultimately show ?thesis by (simp add: eval_nat_numeral)
qed

theorem accept_backoff_wraps_witness:
  "accept_backoff_ms ((accept_no_fd sample_env ^^ 12) sample_instance) = 10239"
  using accept_backoff_wraps [of sample_instance sample_env] by (simp add: sample_instance_def)

end
