(* ===== verification/HaP_Config.thy ===== *)
theory HaP_Config
  imports HaP_Parser HaP_System
begin

text \<open>
  The \<open>redsocks\<close> section of the configuration file: \<open>redsocks_entries\<close>, \<open>redsocks_onenter\<close> and
  \<open>redsocks_onexit\<close> of \<open>src/jni/redsocks/redsocks.c\<close>, as a section of the parser. What the parser
  leaves behind is the list of instances that \<open>redsocks_init\<close> starts.
\<close>

subsection \<open>The state the callbacks share\<close>

datatype subsystem = Subsys relay_ss | Http_relay_subsys

text \<open>
  \<open>section->data\<close> points to the instance being read, of which only the configuration is set; the
  list \<open>instances\<close> holds the ones whose type was known, the newest first, with the address that
  \<open>calloc\<close> gave. \<open>callocs\<close> are the results of the calls to come.
\<close>

record conf_state =
  conf_instances :: "(nat \<times> subsystem \<times> redsocks_config) list"
  conf_data :: "(nat \<times> redsocks_config) option"
  callocs :: "nat option list"

definition relay_subsystems :: "(string \<times> subsystem) list" where
  "relay_subsystems =
    [(''http-connect'', Subsys Http_connect), (''http-relay'', Http_relay_subsys),
     (''socks4'', Subsys Socks4), (''socks5'', Subsys Socks5)]"

definition SOMAXCONN :: u16 where "SOMAXCONN = 128"
definition INADDR_LOOPBACK :: u32 where "INADDR_LOOPBACK = 0x7F000001"

subsection \<open>The callbacks\<close>

text \<open>An address or a port is the number it stands for, so \<open>htonl\<close> and \<open>htons\<close> do nothing here.\<close>

definition default_config :: redsocks_config where
  "default_config =
    \<lparr> bindaddr = \<lparr> sin_addr = INADDR_LOOPBACK, sin_port = 0 \<rparr>,
      relayaddr = \<lparr> sin_addr = INADDR_LOOPBACK, sin_port = 0 \<rparr>,
      cf_type = None, cf_login = None, cf_password = None,
      min_backoff_ms = 100, max_backoff_ms = 60000, listenq = SOMAXCONN \<rparr>"

definition redsocks_onenter :: "conf_state callback" where
  "redsocks_onenter s =
    (case callocs s of
       Some i # cs \<Rightarrow> (s\<lparr> conf_data := Some (i, default_config), callocs := cs \<rparr>, [], True)
     | None # cs \<Rightarrow> (s\<lparr> callocs := cs \<rparr>, [''Not enough memory''], False)
     | [] \<Rightarrow> (s, [''Not enough memory''], False))"

definition config_error :: "redsocks_config \<Rightarrow> string option" where
  "config_error c =
    (case cf_type c of
       None \<Rightarrow> Some ''no `type` for redsocks''
     | Some t \<Rightarrow>
         if map_of relay_subsystems t = None then Some ''invalid `type` for redsocks''
         else if min_backoff_ms c = 0 then Some ''`min_accept_backoff` must be positive, 0 ms is too low''
         else if max_backoff_ms c = 0 then Some ''`max_accept_backoff` must be positive, 0 ms is too low''
         else if \<not> min_backoff_ms c < max_backoff_ms c then Some ''`min_accept_backoff` must be less than `max_accept_backoff`''
         else None)"

text \<open>The parser leaves a section only after it has entered it, so there is always data here.\<close>

definition redsocks_onexit :: "conf_state callback" where
  "redsocks_onexit s =
    (case conf_data s of
       None \<Rightarrow> (s, [], False)
     | Some (i, c) \<Rightarrow>
         let s = s\<lparr> conf_data := None \<rparr>;
             s = (case Option.bind (cf_type c) (map_of relay_subsystems) of
                    None \<Rightarrow> s
                  | Some ss \<Rightarrow> s\<lparr> conf_instances := (i, ss, c) # conf_instances s \<rparr>)
         in case config_error c of None \<Rightarrow> (s, [], True) | Some err \<Rightarrow> (s, [err], False))"

subsection \<open>The entries\<close>

fun set_config :: "string \<Rightarrow> stored \<Rightarrow> redsocks_config \<Rightarrow> redsocks_config" where
  "set_config k (SAddr a) c =
    (if k = ''local_ip'' then c\<lparr> bindaddr := (bindaddr c)\<lparr> sin_addr := a \<rparr> \<rparr>
     else c\<lparr> relayaddr := (relayaddr c)\<lparr> sin_addr := a \<rparr> \<rparr>)"
| "set_config k (SU16 n) c =
    (if k = ''local_port'' then c\<lparr> bindaddr := (bindaddr c)\<lparr> sin_port := n \<rparr> \<rparr>
     else if k = ''port'' then c\<lparr> relayaddr := (relayaddr c)\<lparr> sin_port := n \<rparr> \<rparr>
     else if k = ''listenq'' then c\<lparr> listenq := n \<rparr>
     else if k = ''min_accept_backoff'' then c\<lparr> min_backoff_ms := n \<rparr>
     else c\<lparr> max_backoff_ms := n \<rparr>)"
| "set_config k (SStr v) c =
    (if k = ''type'' then c\<lparr> cf_type := Some v \<rparr>
     else if k = ''login'' then c\<lparr> cf_login := Some v \<rparr>
     else c\<lparr> cf_password := Some v \<rparr>)"
| "set_config k v c = c"

definition config_entry :: "string \<Rightarrow> parser_type \<Rightarrow> conf_state parser_entry" where
  "config_entry k t =
    \<lparr> ent_key = k, ent_type = t,
      ent_store = (\<lambda>v s. s\<lparr> conf_data := map_option (map_prod id (set_config k v)) (conf_data s) \<rparr>) \<rparr>"

definition redsocks_entries :: "conf_state parser_entry list" where
  "redsocks_entries =
    [config_entry ''local_ip'' pt_in_addr, config_entry ''local_port'' pt_uint16,
     config_entry ''ip'' pt_in_addr, config_entry ''port'' pt_uint16,
     config_entry ''type'' pt_pchar, config_entry ''login'' pt_pchar, config_entry ''password'' pt_pchar,
     config_entry ''listenq'' pt_uint16,
     config_entry ''min_accept_backoff'' pt_uint16, config_entry ''max_accept_backoff'' pt_uint16]"

definition redsocks_conf_section :: "conf_state parser_section" where
  "redsocks_conf_section =
    \<lparr> sec_name = ''redsocks'', onenter = redsocks_onenter, onexit = redsocks_onexit, entries = redsocks_entries \<rparr>"

subsection \<open>What the parser promises the owner of a section\<close>

text \<open>
  Callbacks and stores happen in the order enter, store, ..., store, exit: \<open>outside\<close> holds between
  sections and \<open>inside\<close> within one, until an error is reported.
\<close>

definition app_inv ::
  "('s \<Rightarrow> bool) \<Rightarrow> ('s \<Rightarrow> bool) \<Rightarrow> 's parser_section list \<Rightarrow> 's parser_context \<Rightarrow> 's parser_locals \<Rightarrow> bool" where
  "app_inv outside inside secs c l \<longleftrightarrow>
    ctx_error c \<or> (case cur_section l of None \<Rightarrow> outside (ctx_app c) | Some sec \<Rightarrow> sec \<in> set secs \<and> inside (ctx_app c))"

lemma app_inv_update [simp]:
  "app_inv out ins secs (c\<lparr> buffer := b \<rparr>) l = app_inv out ins secs c l"
  "app_inv out ins secs (c\<lparr> bsize := n \<rparr>) l = app_inv out ins secs c l"
  "app_inv out ins secs (c\<lparr> ctx_line := n \<rparr>) l = app_inv out ins secs c l"
  "app_inv out ins secs (HaP_Parser.set_fault f c) l = app_inv out ins secs c l"
  "app_inv out ins secs c (l\<lparr> in_comment := k \<rparr>) = app_inv out ins secs c l"
  "app_inv out ins secs c (l\<lparr> section_token := t \<rparr>) = app_inv out ins secs c l"
  "app_inv out ins secs c (l\<lparr> key_token := t \<rparr>) = app_inv out ins secs c l"
  "app_inv out ins secs c (l\<lparr> value_token := t \<rparr>) = app_inv out ins secs c l"
  "app_inv out ins secs (parser_error m c) l"
  by (simp_all add: app_inv_def HaP_Parser.set_fault_def parser_error_def split: option.split)

lemma errors_app [simp]:
  "ctx_app (fold parser_error ms c) = ctx_app c"
  "ctx_error (fold parser_error ms c) \<longleftrightarrow> ctx_error c \<or> ms \<noteq> []"
  by (induction ms arbitrary: c) (simp_all add: parser_error_def)

lemma run_callback_app:
  assumes "cb (ctx_app c) = (s, ms, ok)"
  shows "ctx_app (run_callback cb m c) = s" "ctx_error (run_callback cb m c) \<longleftrightarrow> ctx_error c \<or> ms \<noteq> [] \<or> \<not> ok"
  using assms by (auto simp: run_callback_def Let_def parser_error_def)

lemma fgets_app: "fgets n c = (r, c') \<Longrightarrow> ctx_app c' = ctx_app c \<and> ctx_error c' = ctx_error c"
  by (auto simp: fgets_def Let_def split: if_splits)

locale app_sections =
  fixes secs :: "'s parser_section list"
    and outside inside :: "'s \<Rightarrow> bool"
  assumes enter_law: "sec \<in> set secs \<Longrightarrow> outside s \<Longrightarrow> onenter sec s = (s', [], True) \<Longrightarrow> inside s'"
    and exit_law: "sec \<in> set secs \<Longrightarrow> inside s \<Longrightarrow> onexit sec s = (s', [], True) \<Longrightarrow> outside s'"
    and store_law: "sec \<in> set secs \<Longrightarrow> e \<in> set (entries sec) \<Longrightarrow> inside s \<Longrightarrow> inside (ent_store e v s)"
begin

lemma stores_inv:
  "sec \<in> set secs \<Longrightarrow> e \<in> set (entries sec) \<Longrightarrow> inside s \<Longrightarrow> inside (fold (ent_store e) vs s)"
  by (induction vs arbitrary: s) (auto intro: store_law)

lemma assign_inv:
  assumes "cur_section l = Some sec" "app_inv outside inside secs c l"
  shows "app_inv outside inside secs (assign gai rnd sec k v c) l"
proof -
  have "List.find (\<lambda>e. ent_key e = k) (entries sec) = Some e \<Longrightarrow> e \<in> set (entries sec)" for e
    by (auto simp: find_Some_iff)
  with assms show ?thesis
    by (auto simp: assign_def app_inv_def parser_error_def HaP_Parser.set_fault_def Let_def intro: stores_inv
        split: option.splits prod.splits)
qed

lemma callback_inv:
  assumes c: "app_inv outside inside secs c l" "\<not> ctx_error c"
  shows "cur_section l = None \<Longrightarrow> sec \<in> set secs \<Longrightarrow> cur_section l' = Some sec \<Longrightarrow>
      app_inv outside inside secs (run_callback (onenter sec) m c) l'"
    "cur_section l = Some sec \<Longrightarrow> cur_section l' = None \<Longrightarrow>
      app_inv outside inside secs (run_callback (onexit sec) m c) l'"
proof -
  obtain s ms ok where a: "onenter sec (ctx_app c) = (s, ms, ok)" by (metis prod_cases3)
  obtain s' ms' ok' where b: "onexit sec (ctx_app c) = (s', ms', ok')" by (metis prod_cases3)
  show "cur_section l = None \<Longrightarrow> sec \<in> set secs \<Longrightarrow> cur_section l' = Some sec \<Longrightarrow>
      app_inv outside inside secs (run_callback (onenter sec) m c) l'"
    using c enter_law [of sec "ctx_app c" s] a run_callback_app [of "onenter sec" c, OF a]
    by (cases "ms = [] \<and> ok") (auto simp: app_inv_def)
  show "cur_section l = Some sec \<Longrightarrow> cur_section l' = None \<Longrightarrow>
      app_inv outside inside secs (run_callback (onexit sec) m c) l'"
    using c exit_law [of sec "ctx_app c" s'] b run_callback_app [of "onexit sec" c, OF b]
    by (cases "ms' = [] \<and> ok'") (auto simp: app_inv_def)
qed

lemma token_inv:
  assumes "parser_token gai rnd secs t i (c, l) = (c', l', i')" "app_inv outside inside secs c l" "\<not> ctx_error c"
  shows "app_inv outside inside secs c' l'"
proof -
  have f: "List.find (\<lambda>p. sec_name p = u) secs = Some sec \<Longrightarrow> sec \<in> set secs" for u sec by (auto simp: find_Some_iff)
  have a: "app_inv outside inside secs (assign gai rnd sec k v c) (l\<lparr> key_token := None, value_token := None \<rparr>)"
    if "cur_section l = Some sec" for sec k v
    using assign_inv [OF that assms(2)] by simp
  show ?thesis
    using assms(1) assms(2) callback_inv [OF assms(2,3)] f a unfolding parser_token_def Let_def prod.case
    by (simp split: if_splits option.splits) (auto split: option.splits)
qed

lemma tokens_inv:
  assumes "parser_tokens gai rnd secs c l i = (c', l', i', nt)" "app_inv outside inside secs c l"
  shows "app_inv outside inside secs c' l'"
proof -
  have "\<exists>d j. app_inv outside inside secs d l' \<and>
    (if nt then \<exists>r. gettoken j = (r, i') \<and> (\<forall>t. r \<noteq> Tok t) \<and> c' = tok_exit r d \<and> \<not> tokens_done d l'
     else c' = d \<and> i' = j \<and> tokens_done d l')"
    by (rule parser_tokens_while [OF assms(1)]) (use assms(2) token_inv in \<open>auto simp: tokens_done_def\<close>)
  moreover have "app_inv outside inside secs d l' \<Longrightarrow> app_inv outside inside secs (tok_exit r d) l'" for d r
    by (cases r) (simp_all add: tok_exit_def)
  ultimately show ?thesis by (auto split: if_splits)
qed

lemma line_inv:
  assumes "parser_line gai rnd secs c l = (c', l', nt)" "app_inv outside inside secs c l"
  shows "app_inv outside inside secs c' l'"
proof -
  have "parser_tokens gai rnd secs c (l\<lparr> in_comment := False \<rparr>) i = (d, m, j, k) \<Longrightarrow> app_inv outside inside secs d m" for i d m j k
    using tokens_inv [of gai rnd c "l\<lparr> in_comment := False \<rparr>" i d m j k] assms(2) by simp
  with assms show ?thesis by (auto simp: parser_line_def split: option.splits prod.splits)
qed

lemma step_inv:
  assumes "app_inv outside inside secs c l"
  shows "case parser_step gai rnd secs sp dt c l of
      Loop _ _ c' l' \<Rightarrow> app_inv outside inside secs c' l' | Leave c' l' \<Rightarrow> app_inv outside inside secs c' l' | Return c' \<Rightarrow> True"
proof -
  have p: "case parser_process gai rnd secs d l of
      Loop _ _ c' l' \<Rightarrow> app_inv outside inside secs c' l' | Leave c' l' \<Rightarrow> app_inv outside inside secs c' l' | Return c' \<Rightarrow> True"
    if "app_inv outside inside secs d l" for d
    using line_inv [OF _ that, of gai rnd] by (simp add: parser_process_def split: prod.split)
  define c2 where "c2 = (if sp then c\<lparr> bsize := 2 * bsize c \<rparr> else c)"
  have c2: "app_inv outside inside secs c2 l" using assms by (simp add: c2_def)
  obtain r d where f: "fgets (bsize c2 - length (buffer c2)) c2 = (r, d)" by fastforce
  with c2 fgets_app [OF f] have "app_inv outside inside secs d l" by (simp add: app_inv_def split: option.splits)
  then show ?thesis
    using assms c2 p unfolding parser_step_def Let_def c2_def [symmetric] f by (cases r) simp_all
qed

lemma loop_inv:
  "app_inv outside inside secs c l \<Longrightarrow> parser_loop gai rnd secs sp dt c l = (c', Some l') \<Longrightarrow> app_inv outside inside secs c' l'"
proof (induction gai rnd secs\<equiv>secs sp dt c l rule: parser_loop.induct)
  case (1 gai rnd sp dt c l)
  from step_inv [OF 1(2), of gai rnd sp dt] 1(1,3) show ?case
    by (cases "parser_step gai rnd secs sp dt c l") (auto simp: parser_loop.simps [of _ _ _ sp])
qed

theorem run_inv:
  assumes "outside s" "parser_run gai rnd secs (parser_start file fails s) = (c, True)"
  shows "outside (ctx_app c)"
proof -
  have "app_inv outside inside secs (parser_start file fails s) no_locals"
    using assms(1) by (simp add: app_inv_def parser_start_def no_locals_def)
  from loop_inv [OF this, of gai rnd False True] assms(2) show ?thesis
    by (auto simp: parser_run_def Let_def app_inv_def parser_error_def split: prod.splits option.splits if_splits)
qed

end

subsection \<open>The redsocks section keeps the contract\<close>

text \<open>
  No two instances share an address, given that \<open>calloc\<close> returns each address once, and a listed
  instance has a known type and usable limits for the back-off.
\<close>

definition conf_addrs :: "conf_state \<Rightarrow> nat list" where
  "conf_addrs s =
    map fst (conf_instances s) @ (case conf_data s of None \<Rightarrow> [] | Some (i, _) \<Rightarrow> [i]) @ List.map_filter id (callocs s)"

definition conf_ok :: "conf_state \<Rightarrow> bool" where
  "conf_ok s \<longleftrightarrow>
    distinct (conf_addrs s)
    \<and> (\<forall>(i, ss, c) \<in> set (conf_instances s). 0 < min_backoff_ms c \<and> min_backoff_ms c < max_backoff_ms c
         \<and> Option.bind (cf_type c) (map_of relay_subsystems) = Some ss)"

lemma config_error_None:
  "config_error c = None \<longleftrightarrow>
    (\<exists>ss. Option.bind (cf_type c) (map_of relay_subsystems) = Some ss) \<and> 0 < min_backoff_ms c \<and> min_backoff_ms c < max_backoff_ms c"
  by (auto simp: config_error_def word_gt_0 split: option.split)

lemma onenter_ok:
  assumes "conf_ok s" "conf_data s = None" "redsocks_onenter s = (s', [], True)"
  shows "conf_ok s' \<and> conf_data s' \<noteq> None"
proof -
  from assms(3) obtain i cs where "callocs s = Some i # cs" "s' = s\<lparr> conf_data := Some (i, default_config), callocs := cs \<rparr>"
    by (auto simp: redsocks_onenter_def split: list.splits option.splits)
  with assms(1,2) show ?thesis by (simp add: conf_ok_def conf_addrs_def map_filter_simps)
qed

lemma onexit_ok:
  assumes "conf_ok s" "conf_data s \<noteq> None" "redsocks_onexit s = (s', [], True)"
  shows "conf_ok s' \<and> conf_data s' = None"
proof -
  from assms(2) obtain i c where d: "conf_data s = Some (i, c)" by fastforce
  have "config_error c = None" using assms(3) d by (auto simp: redsocks_onexit_def Let_def split: option.splits)
  then obtain ss where c: "Option.bind (cf_type c) (map_of relay_subsystems) = Some ss"
      "0 < min_backoff_ms c" "min_backoff_ms c < max_backoff_ms c"
    by (auto simp: config_error_None)
  have "s' = s\<lparr> conf_data := None, conf_instances := (i, ss, c) # conf_instances s \<rparr>"
    using assms(3) \<open>config_error c = None\<close> by (simp add: redsocks_onexit_def d c(1) Let_def)
  with assms(1) d c show ?thesis by (auto simp: conf_ok_def conf_addrs_def)
qed

lemma store_ok:
  "conf_ok (s\<lparr> conf_data := map_option (map_prod id f) (conf_data s) \<rparr>) = conf_ok s"
  by (simp add: conf_ok_def conf_addrs_def split: option.split)

lemma redsocks_entries_config: "e \<in> set redsocks_entries \<Longrightarrow> \<exists>k t. e = config_entry k t"
  unfolding redsocks_entries_def set_simps by blast

interpretation rs: app_sections "[redsocks_conf_section]"
  "\<lambda>s. conf_ok s \<and> conf_data s = None" "\<lambda>s. conf_ok s \<and> conf_data s \<noteq> None"
proof (unfold_locales, goal_cases)
  case (1 sec s s')
  then show ?case using onenter_ok [of s s'] by (simp add: redsocks_conf_section_def)
next
  case (2 sec s s')
  then show ?case using onexit_ok [of s s'] by (simp add: redsocks_conf_section_def)
next
  case (3 sec e s v)
  then have "e \<in> set redsocks_entries" by (simp add: redsocks_conf_section_def)
  then obtain k t where "e = config_entry k t" using redsocks_entries_config by blast
  with 3 show ?case by (simp add: config_entry_def store_ok)
qed

subsection \<open>From the file to the running redirector\<close>

text \<open>What \<open>calloc\<close> zeroes and the callbacks do not set.\<close>

definition configured_instance :: "relay_ss \<Rightarrow> redsocks_config \<Rightarrow> redsocks_instance" where
  "configured_instance ss c =
    \<lparr> config = c, listener = \<lparr> tev_fd = None, inserted = 0 \<rparr>, accept_backoff = \<lparr> tev_fd = None, inserted = 0 \<rparr>,
      accept_backoff_ms = 0, inst_clients = [], relay_ss = ss,
      auth = \<lparr> last_auth_query = None, last_auth_count = 0 \<rparr> \<rparr>"

text \<open>The world before \<open>redsocks_init\<close>, when no instance is of the type \<open>http-relay\<close>.\<close>

fun instances_of :: "(nat \<times> subsystem \<times> redsocks_config) list \<Rightarrow> (nat \<times> redsocks_instance) list option" where
  "instances_of [] = Some []"
| "instances_of ((i, Subsys ss, c) # xs) = map_option ((#) (i, configured_instance ss c)) (instances_of xs)"
| "instances_of ((i, Http_relay_subsys, c) # xs) = None"

definition world_of :: "conf_state \<Rightarrow> world option" where
  "world_of s = map_option (\<lambda>xs. \<lparr> instances = xs, clients = \<lambda>_. None, open_fds = [], world_fault = None \<rparr>)
    (instances_of (conf_instances s))"

lemma instances_of_fst: "instances_of xs = Some ys \<Longrightarrow> map fst ys = map fst xs"
  by (induction xs arbitrary: ys rule: instances_of.induct) auto

lemma instances_of_mem:
  assumes "instances_of xs = Some ys" "(i, x) \<in> set ys"
  obtains ss c where "(i, Subsys ss, c) \<in> set xs" "x = configured_instance ss c"
proof -
  have "\<exists>ss c. (i, Subsys ss, c) \<in> set xs \<and> x = configured_instance ss c"
    using assms
  proof (induction xs arbitrary: ys rule: instances_of.induct)
    case (2 j ss c xs)
    then obtain zs where z: "instances_of xs = Some zs" "ys = (j, configured_instance ss c) # zs" by auto
    show ?case
    proof (cases "(i, x) = (j, configured_instance ss c)")
      case False
      with 2(3) z have "(i, x) \<in> set zs" by auto
      from 2(1) [OF z(1) this] show ?thesis by auto
    qed auto
  qed simp_all
  with that show ?thesis by blast
qed

lemma world_of_configured:
  assumes "conf_ok s" "world_of s = Some w"
  shows "configured w"
proof -
  obtain xs where w: "w = \<lparr> instances = xs, clients = \<lambda>_. None, open_fds = [], world_fault = None \<rparr>"
    and xs: "instances_of (conf_instances s) = Some xs" using assms(2) by (auto simp: world_of_def)
  have "distinct (map fst xs)" using assms(1) instances_of_fst [OF xs] by (simp add: conf_ok_def conf_addrs_def)
  moreover have "inst_ok x \<and> inst_clients x = [] \<and> tev_fd (listener x) = None" if m: "(i, x) \<in> set xs" for i x
  proof -
    obtain ss c where c: "(i, Subsys ss, c) \<in> set (conf_instances s)" "x = configured_instance ss c"
      using instances_of_mem [OF xs m] .
    with assms(1) have "0 < min_backoff_ms c \<and> min_backoff_ms c < max_backoff_ms c"
      unfolding conf_ok_def by (blast dest: bspec)
    then show ?thesis by (simp add: c(2) inst_ok_def configured_instance_def)
  qed
  ultimately show ?thesis by (simp add: configured_def w)
qed

definition conf_start :: "nat option list \<Rightarrow> conf_state" where
  "conf_start cs = \<lparr> conf_instances = [], conf_data = None, callocs = cs \<rparr>"


definition sample_file :: string where
  "sample_file =
    ''redsocks { local_ip = 0.0.0.127; local_port = 99; ip = 0.0.0.9; port = 1080; type = socks5; }'' @ [CHR 0x0A]"

lemma sample_parse:
  "\<exists>ctx. parser_run (\<lambda>_ _. Inl []) (\<lambda>_. 0) [redsocks_conf_section] (parser_start sample_file False (conf_start [Some 0])) = (ctx, True)
    \<and> world_of (ctx_app ctx) = Some sample_world"
proof -
  let ?r = "parser_run (\<lambda>_ _. Inl []) (\<lambda>_. 0) [redsocks_conf_section] (parser_start sample_file False (conf_start [Some 0]))"
  have "snd ?r \<and> conf_instances (ctx_app (fst ?r)) = [(0, Subsys Socks5, config sample_instance)]"
    by code_simp
  then show ?thesis
    by (cases ?r) (simp add: world_of_def sample_world_def configured_instance_def sample_instance_def)
qed


end
