(* ===== verification/HaP_Dialogue.thy ===== *)
theory HaP_Dialogue
  imports HaP_System
begin

text \<open>
  The dialogues with the proxy from the first byte to the relay: the messages are those of the
  protocols, and a proxy that answers as the protocol says is followed to the end.
\<close>

subsection \<open>A client that waits for a reply\<close>

definition good_env :: "env \<Rightarrow> bool" where
  "good_env e \<longleftrightarrow> (\<forall>fd ev. event_add_ok e fd ev) \<and> evbuffer_ok_env e \<and> (\<forall>fd. so_error e fd = Some 0)"

text \<open>
  In state \<open>st\<close>, for \<open>n\<close> bytes, with \<open>out\<close> queued for the proxy; the rest is as in \<open>cl0\<close>.
\<close>

definition waits :: "nat \<Rightarrow> nat \<Rightarrow> bytes \<Rightarrow> redsocks_client \<Rightarrow> redsocks_client \<Rightarrow> bool" where
  "waits st n out cl0 cl \<longleftrightarrow>
    c_state cl = st \<and> c_client cl = c_client cl0 \<and> instance_of cl = instance_of cl0 \<and> destaddr cl = destaddr cl0
    \<and> do_password (socks5 cl) = do_password (socks5 cl0)
    \<and> (case c_relay cl of None \<Rightarrow> False
       | Some r \<Rightarrow> bev_input r = [] \<and> bev_output r = out \<and> read_suspended r = 0
           \<and> wm_read_low r = n \<and> wm_read_high r = n \<and> readcb r = Some Ss_readcb)"

lemma sent_waits:
  assumes "c_relay cl = Some r" "bev_input r = []" "read_suspended r = 0" "readcb r = Some Ss_readcb"
  shows "waits st n (bev_output r @ m) cl (sent_client e m st n n r cl)"
  using assms by (simp add: waits_def sent_client_def)

lemma write_waits:
  assumes "c_relay cl = Some r" "bev_input r = []" "read_suspended r = 0" "readcb r = Some Ss_readcb"
    "(case mk of None \<Rightarrow> (put_client c cl w, Some []) | Some f \<Rightarrow> f (put_client c cl w)) = (put_client c cl w, Some m)"
  shows "\<exists>cl'. redsocks_write_helper e c mk st n (put_client c cl w) = put_client c cl' w
    \<and> waits st n (bev_output r @ m) cl cl' \<and> socks5 cl' = socks5 cl"
  using sent_waits [OF assms(1-4)] write_helper_put [OF assms(1,5)]
  by (auto simp: redsocks_write_helper_def sent_client_def)

text \<open>The client once the reply has arrived\<close>

definition heard :: "bytes \<Rightarrow> redsocks_client \<Rightarrow> redsocks_client" where
  "heard d cl = cl\<lparr> c_relay := map_option (\<lambda>r. r\<lparr> bev_input := d \<rparr>) (c_relay cl) \<rparr>"

lemma read_waiting:
  assumes "waits st n out cl0 cl" "length d = n" "0 < n" "map_of (instances w) (instance_of cl) = Some x"
  shows "on_readable e c SRelay (Read_data d) (put_client c cl w) = ss_readcb (relay_ss x) e c (put_client c (heard d cl) w)"
  using assms
  by (auto simp: waits_def heard_def on_readable_def world_simps bufferevent_readcb_def run_opt_def Let_def split: option.splits)

subsection \<open>SOCKS5\<close>

lemma touch_heard: "(heard d cl)\<lparr> last_event := t \<rparr> = heard d (cl\<lparr> last_event := t \<rparr>)"
  by (simp add: heard_def)

lemma read_expected_heard:
  assumes "waits st n out cl0 cl" "length d = n"
  shows "redsocks_read_expected e c sizes_equal n k (put_client c (heard d cl) w) = k d (put_client c cl w)"
    "redsocks_read_expected e c sizes_greater_equal n k (put_client c (heard d cl) w) = k d (put_client c cl w)"
proof -
  obtain r where r: "c_relay cl = Some r" "bev_input r = []" using assms by (auto simp: waits_def split: option.splits)
  then have "heard d cl = cl\<lparr> c_relay := Some (r\<lparr> bev_input := d \<rparr>) \<rparr>"
    "cl\<lparr> c_relay := Some (r\<lparr> bev_input := [] \<rparr>) \<rparr> = cl" by (simp_all add: heard_def)
  with assms(2) show "redsocks_read_expected e c sizes_equal n k (put_client c (heard d cl) w) = k d (put_client c cl w)"
    "redsocks_read_expected e c sizes_greater_equal n k (put_client c (heard d cl) w) = k d (put_client c cl w)"
    by (simp_all add: read_expected_put Let_def sizes_equal_def sizes_greater_equal_def)
qed

lemma waits_touch: "waits st n out cl0 cl \<Longrightarrow> waits st n out cl0 (cl\<lparr> last_event := t \<rparr>)"
  by (simp add: waits_def)

lemma waits_trans: "waits st n out cl0 cl \<Longrightarrow> waits st' n' out' cl cl' \<Longrightarrow> waits st' n' out' cl0 cl'"
  by (simp add: waits_def)

text \<open>One round: a reply of the expected length makes the protocol queue a message and wait again.\<close>

lemma round:
  assumes w: "waits st n out cl0 cl"
    and m: "(case mk of None \<Rightarrow> (put_client c cl w, Some []) | Some f \<Rightarrow> f (put_client c cl w)) = (put_client c cl w, Some m)"
  shows "\<exists>cl'. redsocks_write_helper e c mk st' n' (put_client c cl w) = put_client c cl' w
    \<and> waits st' n' (out @ m) cl0 cl' \<and> socks5 cl' = socks5 cl"
proof -
  obtain r where r: "c_relay cl = Some r" "bev_input r = []" "read_suspended r = 0" "readcb r = Some Ss_readcb" "bev_output r = out"
    using w by (auto simp: waits_def split: option.splits)
  from write_waits [OF r(1-4) m, of e st' n'] r(5) show ?thesis using waits_trans [OF w] by blast
qed

lemma round_message:
  assumes w: "waits st n out cl0 cl" and m: "mk (put_client c cl w) = (put_client c cl w, Some m)"
  shows "\<exists>cl'. redsocks_write_helper e c (Some mk) st' n' (put_client c cl w) = put_client c cl' w
    \<and> waits st' n' (out @ m) cl0 cl' \<and> socks5 cl' = socks5 cl"
  by (rule round [OF w]) (simp add: m)

lemma round_silent:
  assumes w: "waits st n out cl0 cl"
  shows "\<exists>cl'. redsocks_write_helper e c None st' n' (put_client c cl w) = put_client c cl' w
    \<and> waits st' n' out cl0 cl' \<and> socks5 cl' = socks5 cl"
  using round [OF w, where mk = None and c = c and w = w and m = "[]" and e = e and st' = st' and n' = n'] by simp

lemma socks5_method_round:
  assumes w: "waits socks5_method_sent 2 out cl0 cl" and x: "map_of (instances w) (instance_of cl) = Some x" "relay_ss x = Socks5"
    and e: "good_env e"
  shows "\<exists>cl'. on_readable e c SRelay (Read_data [5, 0]) (put_client c cl w) = put_client c cl' w
    \<and> waits socks5_request_sent 4 (out @ socks5_mkcommand_plain 1 (destaddr cl0)) cl0 cl'"
    and "do_password (socks5 cl0) \<Longrightarrow> cf_login (config x) = Some l \<Longrightarrow> cf_password (config x) = Some p \<Longrightarrow>
     \<exists>cl'. on_readable e c SRelay (Read_data [5, 2]) (put_client c cl w) = put_client c cl' w
    \<and> waits socks5_auth_sent 2 (out @ socks5_mkpassword_plain l p) cl0 cl'"
proof -
  let ?cl = "cl\<lparr> last_event := env_time e \<rparr>"
  have t: "waits socks5_method_sent 2 out cl0 ?cl" using w by (rule waits_touch)
  have st: "c_state (heard d ?cl) = 1" "do_password (socks5 (heard d ?cl)) = do_password (socks5 cl0)" for d
    using w by (simp_all add: waits_def heard_def socks5_method_sent_def)
  have r: "on_readable e c SRelay (Read_data d) (put_client c cl w) =
      socks5_read_auth_methods e c (do_password (socks5 cl0)) (put_client c (heard d ?cl) w)" if "length d = 2" for d
    using read_waiting [OF w that _ x(1), of e c] x(2) st
    by (simp add: ss_readcb_def socks5_read_cb_def world_simps touch_heard socks5_method_sent_def)
  have m: "socks5_mkconnect e c (put_client c ?cl w) = (put_client c ?cl w, Some (socks5_mkcommand_plain 1 (destaddr cl0)))"
    using e w by (simp add: socks5_mkconnect_def mkevbuffer_def good_env_def waits_def)
  show "\<exists>cl'. on_readable e c SRelay (Read_data [5, 0]) (put_client c cl w) = put_client c cl' w
    \<and> waits socks5_request_sent 4 (out @ socks5_mkcommand_plain 1 (destaddr cl0)) cl0 cl'"
    using round_message [where mk = "socks5_mkconnect e c", OF t m, where e = e and st' = socks5_request_sent and n' = 4]
    by (auto simp: r socks5_read_auth_methods_def read_expected_heard [OF t] socks5_is_known_auth_method_def)
  assume pw: "do_password (socks5 cl0)" "cf_login (config x) = Some l" "cf_password (config x) = Some p"
  then have m: "socks5_mkpassword e c (put_client c ?cl w) = (put_client c ?cl w, Some (socks5_mkpassword_plain l p))"
    using e x(1) by (simp add: socks5_mkpassword_def mkevbuffer_def good_env_def)
  show "\<exists>cl'. on_readable e c SRelay (Read_data [5, 2]) (put_client c cl w) = put_client c cl' w
    \<and> waits socks5_auth_sent 2 (out @ socks5_mkpassword_plain l p) cl0 cl'"
    using round_message [where mk = "socks5_mkpassword e c", OF t m, where e = e and st' = socks5_auth_sent and n' = 2] pw(1)
    by (auto simp: r socks5_read_auth_methods_def read_expected_heard [OF t] socks5_is_known_auth_method_def)
qed

lemma socks5_auth_round:
  assumes w: "waits socks5_auth_sent 2 out cl0 cl" and x: "map_of (instances w) (instance_of cl) = Some x" "relay_ss x = Socks5"
    and e: "good_env e"
  shows "\<exists>cl'. on_readable e c SRelay (Read_data [1, 0]) (put_client c cl w) = put_client c cl' w
    \<and> waits socks5_request_sent 4 (out @ socks5_mkcommand_plain 1 (destaddr cl0)) cl0 cl'"
proof -
  let ?cl = "cl\<lparr> last_event := env_time e \<rparr>"
  have t: "waits socks5_auth_sent 2 out cl0 ?cl" using w by (rule waits_touch)
  have st: "c_state (heard d ?cl) = 2" for d using w by (simp add: waits_def heard_def socks5_auth_sent_def)
  have m: "socks5_mkconnect e c (put_client c ?cl w) = (put_client c ?cl w, Some (socks5_mkcommand_plain 1 (destaddr cl0)))"
    using e w by (simp add: socks5_mkconnect_def mkevbuffer_def good_env_def waits_def)
  show ?thesis using round_message [where mk = "socks5_mkconnect e c", OF t m, where e = e and st' = socks5_request_sent and n' = 4] read_waiting [OF w, of "[1, 0]" w x e c] x st
    by (auto simp: ss_readcb_def socks5_read_cb_def world_simps touch_heard socks5_states socks5_read_auth_reply_def
        read_expected_heard [OF t])
qed

text \<open>The reply to the request in pieces: a head of four bytes and the bound address\<close>

definition bind_head :: "bytes \<Rightarrow> bool" where
  "bind_head h \<longleftrightarrow> length h = 4 \<and> h ! 0 = 5 \<and> h ! 1 = 0"

lemma socks5_reply_round:
  assumes w: "waits socks5_request_sent 4 out cl0 cl" and x: "map_of (instances w) (instance_of cl) = Some x" "relay_ss x = Socks5"
    and h: "bind_head h"
  shows "h ! 3 = 1 \<or> h ! 3 = 4 \<Longrightarrow>
     \<exists>cl'. on_readable e c SRelay (Read_data h) (put_client c cl w) = put_client c cl' w
      \<and> waits socks5_skip_address (if h ! 3 = 1 then 6 else 18) out cl0 cl' \<and> to_skip (socks5 cl') = (if h ! 3 = 1 then 6 else 18)"
    and "h ! 3 = 3 \<Longrightarrow>
     \<exists>cl'. on_readable e c SRelay (Read_data h) (put_client c cl w) = put_client c cl' w
      \<and> waits socks5_skip_domain 1 out cl0 cl'"
proof -
  let ?cl = "cl\<lparr> last_event := env_time e \<rparr>"
  have t: "waits socks5_request_sent 4 out cl0 ?cl" using w by (rule waits_touch)
  have st: "c_state (heard d ?cl) = 3" for d using w by (simp add: waits_def heard_def socks5_request_sent_def)
  have l: "length h = 4" "h ! 0 = 5" "h ! 1 = 0" using h by (auto simp: bind_head_def)
  have r: "on_readable e c SRelay (Read_data h) (put_client c cl w) = socks5_read_reply e c (put_client c (heard h ?cl) w)"
    using read_waiting [OF w l(1) _ x(1), of e c] x(2) st
    by (simp add: ss_readcb_def socks5_read_cb_def world_simps touch_heard socks5_states)
  let ?n = "if h ! 3 = 1 then 6 else 18" and ?sk = "\<lambda>n. ?cl\<lparr> socks5 := (socks5 ?cl)\<lparr> to_skip := n \<rparr> \<rparr>"
  have u: "waits socks5_request_sent 4 out cl0 (?sk n)" for n using t by (simp add: waits_def)
  from round_silent [OF u [of ?n], of e c socks5_skip_address ?n w]
  show "h ! 3 = 1 \<or> h ! 3 = 4 \<Longrightarrow>
     \<exists>cl'. on_readable e c SRelay (Read_data h) (put_client c cl w) = put_client c cl' w
      \<and> waits socks5_skip_address ?n out cl0 cl' \<and> to_skip (socks5 cl') = ?n"
    unfolding r socks5_read_reply_def read_expected_heard(2) [OF t l(1), where e = e and c = c and w = w]
    using l by (auto simp: socks5_set_skip_put)
  from round_silent [OF t, of e c socks5_skip_domain 1 w]
  show "h ! 3 = 3 \<Longrightarrow>
     \<exists>cl'. on_readable e c SRelay (Read_data h) (put_client c cl w) = put_client c cl' w
      \<and> waits socks5_skip_domain 1 out cl0 cl'"
    unfolding r socks5_read_reply_def read_expected_heard(2) [OF t l(1), where e = e and c = c and w = w]
    using l by auto
qed

lemma socks5_domain_round:
  assumes w: "waits socks5_skip_domain 1 out cl0 cl" and x: "map_of (instances w) (instance_of cl) = Some x" "relay_ss x = Socks5"
  shows "\<exists>cl'. on_readable e c SRelay (Read_data [k]) (put_client c cl w) = put_client c cl' w
      \<and> waits socks5_skip_address (unat k + 2) out cl0 cl' \<and> to_skip (socks5 cl') = unat k + 2"
proof -
  let ?cl = "cl\<lparr> last_event := env_time e \<rparr>"
  have t: "waits socks5_skip_domain 1 out cl0 ?cl" using w by (rule waits_touch)
  have st: "c_state (heard d ?cl) = 4" for d using w by (simp add: waits_def heard_def socks5_skip_domain_def)
  have u: "waits socks5_skip_domain 1 out cl0 (?cl\<lparr> socks5 := (socks5 ?cl)\<lparr> to_skip := n \<rparr> \<rparr>)" for n
    using t by (simp add: waits_def)
  have "on_readable e c SRelay (Read_data [k]) (put_client c cl w) =
    redsocks_write_helper e c None socks5_skip_address (unat k + 2)
      (put_client c (?cl\<lparr> socks5 := (socks5 ?cl)\<lparr> to_skip := unat k + 2 \<rparr> \<rparr>) w)"
    using read_waiting [OF w, of "[k]" w x e c] x st
      read_expected_heard(2) [OF t, of "[k]", where e = e and c = c and w = w]
    by (simp add: ss_readcb_def socks5_read_cb_def world_simps touch_heard socks5_states socks5_set_skip_put Let_def)
  moreover obtain cl' where "redsocks_write_helper e c None socks5_skip_address (unat k + 2)
      (put_client c (?cl\<lparr> socks5 := (socks5 ?cl)\<lparr> to_skip := unat k + 2 \<rparr> \<rparr>) w) = put_client c cl' w"
    "waits socks5_skip_address (unat k + 2) out cl0 cl'" "to_skip (socks5 cl') = unat k + 2"
    using round_silent [OF u [of "unat k + 2"], of e c socks5_skip_address "unat k + 2" w] by auto
  ultimately show ?thesis by (intro exI [of _ cl']) simp
qed

lemma start_relay_flow:
  assumes e: "good_env e" and b: "c_client cl = Some b" "c_relay cl = Some r"
  shows "\<exists>cl'. redsocks_start_relay e c (put_client c cl w) = put_client c cl' w \<and> relay_client cl'
    \<and> pipe SClient cl' = bev_output r @ bev_input b \<and> pipe SRelay cl' = bev_output b @ bev_input r"
proof -
  let ?ev = "EV_READ OR EV_WRITE"
  let ?b = "snd (bufferevent_enable e ?ev (relay_bev Relay_clientreadcb Relay_clientwritecb b))"
  let ?r = "snd (bufferevent_enable e ?ev (relay_bev Relay_relayreadcb Relay_relaywritecb r))"
  have ok: "fst (bufferevent_enable e ev d)" for ev and d :: bev
    using e by (simp add: good_env_def bufferevent_enable_def be_socket_enable_def Let_def)
  have "redsocks_start_relay e c (put_client c cl w) = put_client c (cl\<lparr> c_client := Some ?b, c_relay := Some ?r \<rparr>) w"
    using b ok by (simp add: redsocks_start_relay_def world_simps Let_def split_beta)
  moreover have "relay_client (cl\<lparr> c_client := Some ?b, c_relay := Some ?r \<rparr>)"
    by (simp add: relay_client_def relaying_def relay_bev_def)
  moreover have "pipe SClient (cl\<lparr> c_client := Some ?b, c_relay := Some ?r \<rparr>) = bev_output r @ bev_input b"
    "pipe SRelay (cl\<lparr> c_client := Some ?b, c_relay := Some ?r \<rparr>) = bev_output b @ bev_input r"
    by (simp_all add: pipe_def relay_bev_def)
  ultimately show ?thesis by blast
qed

lemma socks5_address_round:
  assumes w: "waits socks5_skip_address n out cl0 cl" and x: "map_of (instances w) (instance_of cl) = Some x" "relay_ss x = Socks5"
    and e: "good_env e" and n: "to_skip (socks5 cl) = n" "length a = n" "0 < n" and b: "c_client cl0 = Some b"
  shows "\<exists>cl'. on_readable e c SRelay (Read_data a) (put_client c cl w) = put_client c cl' w \<and> relay_client cl'
    \<and> pipe SClient cl' = out @ bev_input b \<and> pipe SRelay cl' = bev_output b"
proof -
  let ?cl = "cl\<lparr> last_event := env_time e \<rparr>"
  have t: "waits socks5_skip_address n out cl0 ?cl" using w by (rule waits_touch)
  have st: "c_state (heard d ?cl) = 5" "to_skip (socks5 (heard d ?cl)) = n" for d
    using w n by (simp_all add: waits_def heard_def socks5_skip_address_def)
  obtain r where r: "c_client ?cl = Some b" "c_relay ?cl = Some r" "bev_output r = out" "bev_input r = []"
    using w b by (auto simp: waits_def split: option.splits)
  have "on_readable e c SRelay (Read_data a) (put_client c cl w) = redsocks_start_relay e c (put_client c ?cl w)"
    using read_waiting [OF w n(2,3) x(1), of e c] x(2) st read_expected_heard(2) [OF t n(2), where e = e and c = c and w = w]
    by (simp add: ss_readcb_def socks5_read_cb_def world_simps touch_heard socks5_states)
  with start_relay_flow [OF e r(1,2), of c w] r(3,4) show ?thesis by auto
qed

text \<open>The connection to the proxy is there: the first message goes out.\<close>

lemma socks5_connect_round:
  assumes b: "c_client cl = Some b" "c_relay cl = Some r" "connecting cl b r" "bev_input r = []" "bev_output r = []" "read_suspended r = 0"
    and x: "map_of (instances w) (instance_of cl) = Some x" "relay_ss x = Socks5" and e: "good_env e"
  shows "\<exists>cl'. on_writable e c SRelay Write_again (put_client c cl w) = put_client c cl' w
    \<and> waits socks5_method_sent 2 (socks5_mkmethods_plain (do_password (socks5 cl))) cl cl'"
proof -
  define r1 where "r1 = fst (writecb_tail e r)"
  define r2 where "r2 = r1\<lparr> readcb := Some Ss_readcb, writecb := Some Ss_writecb \<rparr>"
  have r1: "bev_input r1 = []" "bev_output r1 = []" "read_suspended r1 = 0" "writecb r1 = Some Relay_connected"
    using b by (simp_all add: r1_def writecb_tail_def Let_def connecting_def)
  have "snd (writecb_tail e r) = Run_writecb" using b by (simp add: writecb_tail_def Let_def)
  then have t: "writecb_tail e r = (r1, Run_writecb)" by (simp add: r1_def prod_eq_iff)
  let ?cl = "cl\<lparr> c_relay := Some r2, last_event := env_time e \<rparr>"
  have c: "c_state cl = 0" using b(3) by (simp add: connecting_def)
  have k: "red_is_socket_connected_ok e d" for d
    using e by (simp add: good_env_def red_is_socket_connected_ok_def red_socket_geterrno_def)
  have o: "cl\<lparr> c_relay := Some r1, last_event := env_time e, c_relay := Some r2, last_event := env_time e \<rparr> = ?cl"
    "cl\<lparr> c_relay := Some r1, last_event := env_time e, c_relay := Some r2 \<rparr> = ?cl" by simp_all
  have "on_writable e c SRelay Write_again (put_client c cl w) =
    redsocks_write_helper e c (Some (socks5_mkmethods e c)) socks5_method_sent 2 (put_client c ?cl w)"
    using b t r1 c k x o
    by (simp add: on_writable_def world_simps bufferevent_writecb_def run_opt_def redsocks_relay_connected_def ss_writecb_def
        socks5_write_cb_def socks5_new_def r2_def [symmetric] Let_def)
  moreover have "socks5_mkmethods e c (put_client c ?cl w) =
      (put_client c ?cl w, Some (socks5_mkmethods_plain (do_password (socks5 cl))))"
    using e by (simp add: socks5_mkmethods_def mkevbuffer_def good_env_def)
  then have "\<exists>cl'. redsocks_write_helper e c (Some (socks5_mkmethods e c)) socks5_method_sent 2 (put_client c ?cl w) = put_client c cl' w
    \<and> waits socks5_method_sent 2 (bev_output r2 @ socks5_mkmethods_plain (do_password (socks5 cl))) ?cl cl' \<and> socks5 cl' = socks5 ?cl"
    by (intro write_waits) (use r1 in \<open>simp_all add: r2_def\<close>)
  ultimately show ?thesis using r1 by (auto simp: waits_def r2_def)
qed

text \<open>The reply to the request: its head, for a domain its length, and the bound address\<close>

definition bind_reply :: "bytes list \<Rightarrow> bool" where
  "bind_reply rs \<longleftrightarrow>
    (case rs of
       [h, a] \<Rightarrow> bind_head h \<and> (h ! 3 = 1 \<and> length a = 6 \<or> h ! 3 = 4 \<and> length a = 18)
     | [h, k, a] \<Rightarrow> bind_head h \<and> h ! 3 = 3 \<and> length k = 1 \<and> length a = unat (k ! 0) + 2
     | _ \<Rightarrow> False)"

text \<open>The relay socket gives one reply after the other.\<close>

definition hear :: "nat \<Rightarrow> (env \<times> bytes) list \<Rightarrow> world \<Rightarrow> world" where
  "hear c rs w = fold (\<lambda>(e, d). on_readable e c SRelay (Read_data d)) rs w"

lemma socks5_bind:
  assumes w: "waits socks5_request_sent 4 out cl0 cl" and x: "map_of (instances w) (instance_of cl) = Some x" "relay_ss x = Socks5"
    and e: "\<forall>(e, d) \<in> set rs. good_env e" and r: "bind_reply (map snd rs)" and b: "c_client cl0 = Some b"
  shows "\<exists>cl'. hear c rs (put_client c cl w) = put_client c cl' w \<and> relay_client cl'
    \<and> pipe SClient cl' = out @ bev_input b \<and> pipe SRelay cl' = bev_output b"
proof -
  from r consider (addr) e1 h e2 a where "rs = [(e1, h), (e2, a)]" "bind_head h" "h ! 3 = 1 \<and> length a = 6 \<or> h ! 3 = 4 \<and> length a = 18"
    | (domain) e1 h e2 k e3 a where "rs = [(e1, h), (e2, [k]), (e3, a)]" "bind_head h" "h ! 3 = 3" "length a = unat k + 2"
    by (auto simp: bind_reply_def length_Suc_conv split: list.splits)
  then show ?thesis
  proof cases
    case addr
    let ?n = "if h ! 3 = 1 then 6 else 18 :: nat"
    obtain cl1 where c1: "on_readable e1 c SRelay (Read_data h) (put_client c cl w) = put_client c cl1 w"
      "waits socks5_skip_address ?n out cl0 cl1" "to_skip (socks5 cl1) = ?n"
      using socks5_reply_round(1) [OF w x addr(2), of e1 c] addr(3) by blast
    have i: "map_of (instances w) (instance_of cl1) = Some x" using c1(2) w x by (simp add: waits_def)
    have "length a = ?n" "0 < ?n" "good_env e2" using addr e by auto
    from socks5_address_round [OF c1(2) i x(2) this(3) c1(3) this(1,2) b, of c] c1(1) addr(1) show ?thesis
      by (simp add: hear_def)
  next
    case domain
    obtain cl1 where c1: "on_readable e1 c SRelay (Read_data h) (put_client c cl w) = put_client c cl1 w"
      "waits socks5_skip_domain 1 out cl0 cl1"
      using socks5_reply_round(2) [OF w x domain(2,3), of e1 c] by blast
    have i: "map_of (instances w) (instance_of cl1) = Some x" using c1(2) w x by (simp add: waits_def)
    obtain cl2 where c2: "on_readable e2 c SRelay (Read_data [k]) (put_client c cl1 w) = put_client c cl2 w"
      "waits socks5_skip_address (unat k + 2) out cl0 cl2" "to_skip (socks5 cl2) = unat k + 2"
      using socks5_domain_round [OF c1(2) i x(2), of e2 c k] by blast
    have j: "map_of (instances w) (instance_of cl2) = Some x" using c2(2) w x by (simp add: waits_def)
    have "0 < unat k + 2" "good_env e3" using domain e by auto
    from socks5_address_round [OF c2(2) j x(2) this(2) c2(3) domain(4) this(1) b, of c] c1(1) c2(1) domain(1) show ?thesis
      by (simp add: hear_def)
  qed
qed

lemma hear_append: "hear c (xs @ ys) w = hear c ys (hear c xs w)"
  by (simp add: hear_def)



text \<open>
  What the protocol takes for a refusal: an unknown version or method, a failed authentication, a
  request that was not granted or an address of unknown kind
\<close>

definition socks5_refusal :: "nat \<Rightarrow> bool \<Rightarrow> bytes \<Rightarrow> bool" where
  "socks5_refusal st pw d \<longleftrightarrow>
    st = socks5_method_sent \<and> \<not> (d ! 0 = 5 \<and> (d ! 1 = 0 \<or> d ! 1 = 2 \<and> pw))
    \<or> st = socks5_auth_sent \<and> \<not> (d ! 0 = 1 \<and> d ! 1 = 0)
    \<or> st = socks5_request_sent \<and> \<not> (d ! 0 = 5 \<and> d ! 1 = 0 \<and> d ! 3 \<in> {1, 3, 4})"

text \<open>A client that is gone no longer holds its descriptors.\<close>

lemma dropped_fds_closed:
  assumes "world_ok w" "clients w c = Some cl" "world_ok w'" "clients w' = (clients w)(c := None)" "listeners w' = listeners w"
  shows "cfds cl \<inter> set (open_fds w') = {}"
proof -
  have o: "set (open_fds w') = (\<Union>d. fds_of w' d) \<union> listen_fds w'" using assms(3) by (simp add: world_ok_def)
  have l: "listen_fds v = {fd. \<exists>i. (i, Some fd) \<in> set (listeners v)}" for v
    by (force simp: listen_fds_def listeners_def)
  have "listen_fds w' = listen_fds w" using assms(5) by (simp add: l)
  moreover have "fds_of w' d = (if d = c then {} else fds_of w d)" for d using assms(4) by (simp add: fds_of_def)
  moreover have "cfds cl = fds_of w c" using assms(2) by (simp add: fds_of_def)
  ultimately show ?thesis
    using assms(1) unfolding o world_ok_def by (auto split: if_splits) blast
qed

lemma drop_closes:
  assumes "world_ok w" "clients w c = Some cl"
  shows "clients (redsocks_drop_client e c w) c = None"
    "cfds cl \<inter> set (open_fds (redsocks_drop_client e c w)) = {}"
  using drop_world [OF assms, of e] dropped_fds_closed [OF assms] by simp_all

text \<open>
  C28: A SOCKS5 proxy that refuses, at any point of the dialogue, gets the client dropped: it is
  freed and both of its descriptors are closed.
\<close>

theorem socks5_refused:
  assumes "world_ok w" "clients w c = Some cl" "waits st n out cl cl" "length d = n" "0 < n"
    "map_of (instances w) (instance_of cl) = Some x" "relay_ss x = Socks5"
    "socks5_refusal st (do_password (socks5 cl)) d" "st = socks5_request_sent \<longrightarrow> n = 4" "st \<noteq> socks5_request_sent \<longrightarrow> n = 2"
  shows "clients (on_readable e c SRelay (Read_data d) w) c = None
    \<and> cfds cl \<inter> set (open_fds (on_readable e c SRelay (Read_data d) w)) = {}"
proof -
  let ?cl = "cl\<lparr> last_event := env_time e \<rparr>"
  note v = world_valid [OF assms(1,2)]
  have t: "waits st n out cl ?cl" using assms(3) by (rule waits_touch)
  have st: "c_state (heard d ?cl) = st" "do_password (socks5 (heard d ?cl)) = do_password (socks5 cl)"
    using assms(3) by (simp_all add: waits_def heard_def)
  have "on_readable e c SRelay (Read_data d) (put_client c cl w) = socks5_read_cb e c (put_client c (heard d cl) w)"
    using read_waiting [OF assms(3-6), of e c] assms(7) by (simp add: ss_readcb_def)
  also have "\<dots> = redsocks_drop_client e c (put_client c ?cl w)"
    using assms(8-10) read_expected_heard [OF t assms(4), where e = e and c = c and w = w] st
    by (auto simp: socks5_read_cb_def world_simps touch_heard socks5_states socks5_refusal_def socks5_read_auth_methods_def
      socks5_read_auth_reply_def socks5_read_reply_def socks5_is_known_auth_method_def)
  finally have "on_readable e c SRelay (Read_data d) w = redsocks_drop_client e c (put_client c ?cl w)" using v(3) by simp
  moreover have "world_ok (put_client c ?cl w)" using valid_done touch_ok v by blast
  moreover have "cfds ?cl = cfds cl" by (simp add: cfds_def)
  ultimately show ?thesis using drop_closes [of "put_client c ?cl w" c ?cl e] by simp
qed

definition sample_waiting :: redsocks_client where
  "sample_waiting = sample_client\<lparr> c_state := 1, c_relay := Some ((bufferevent_new 7 (Some Ss_readcb) (Some Ss_writecb))
     \<lparr> ev_read := True, wm_read_low := 2, wm_read_high := 2 \<rparr>) \<rparr>"

lemma sample_waiting_ok: "world_ok (put_client 7 sample_waiting sample_accepted)"
proof -
  have w: "world_ok sample_accepted"
    using steps_ok [OF sample_steps init_ok(1) [OF sample_configured sample_fresh sample_init]] .
  have "clients sample_accepted 7 = Some sample_client" by (simp add: sample_accepted_def)
  note v = world_valid [OF w this]
  have "valid 7 sample_waiting sample_accepted"
    by (rule valid_similar [OF v(1)]) (simp add: sample_waiting_def sample_relay_defs bufferevent_new_unfold similar_def bev_fds_def)
  moreover have "client_ok sample_waiting"
    by (simp add: client_ok_def phase_ok_def evshut_ok_def evshut_vals_def sample_waiting_def sample_relay_defs talking_def
        EV_READ_def EV_WRITE_def)
  ultimately show ?thesis by (rule valid_done)
qed

theorem socks5_refused_witness:
  "clients (on_readable sample_env 7 SRelay (Read_data [5, 0xFF]) (put_client 7 sample_waiting sample_accepted)) 7 = None
   \<and> {5, 7} \<inter> set (open_fds (on_readable sample_env 7 SRelay (Read_data [5, 0xFF]) (put_client 7 sample_waiting sample_accepted))) = {}"
proof -
  have w: "waits socks5_method_sent 2 [] sample_waiting sample_waiting"
    by (simp add: waits_def sample_waiting_def bufferevent_new_unfold socks5_method_sent_def)
  have x: "map_of (instances (put_client 7 sample_waiting sample_accepted)) (instance_of sample_waiting)
      = Some (snd (hd (instances sample_accepted)))"
    by (simp add: sample_accepted_def sample_waiting_def sample_client_def new_redsocks_client_def)
  have "cfds sample_waiting = {5, 7}"
    by (auto simp: cfds_def bev_fds_def sample_waiting_def sample_client_def bufferevent_new_unfold)
  with socks5_refused [OF sample_waiting_ok _ w _ _ x, where d = "[5, 0xFF]" and e = sample_env] show ?thesis
    by (simp add: sample_accepted_def sample_instance_def socks5_refusal_def socks5_states)
qed

subsection \<open>SOCKS5 credentials\<close>

text \<open>How a server of RFC 1929 reads the message\<close>

definition parse_userpass :: "bytes \<Rightarrow> (string \<times> string) option" where
  "parse_userpass m =
    (if length m < 3 \<or> m ! 0 \<noteq> 1 then None
     else let n = unat (m ! 1); rest = drop 2 m
       in if length rest < n + 1 \<or> length rest \<noteq> n + 1 + unat (rest ! n) then None
          else Some (string_of_bytes (take n rest), string_of_bytes (drop (n + 1) rest)))"

text \<open>
  C31: Whenever the client offers a password, the message it sends is one that a server reads
  back as exactly the configured user name and password.
\<close>

theorem socks5_password_roundtrip:
  assumes "socks5_is_valid_cred (Some l) (Some p)"
  shows "parse_userpass (socks5_mkpassword_plain l p) = Some (l, p)"
proof -
  have "length l < 256" "length p < 256" using assms by (auto simp: socks5_is_valid_cred_def split: if_splits)
  then have "unat (of_nat (length l) :: byte) = length l" "unat (of_nat (length p) :: byte) = length p"
    by (simp_all add: unat_of_nat)
  then show ?thesis by (simp add: parse_userpass_def socks5_mkpassword_plain_def Let_def nth_append)
qed

theorem socks5_password_roundtrip_witness:
  "parse_userpass (socks5_mkpassword_plain ''user'' ''secret'') = Some (''user'', ''secret'')"
  by (rule socks5_password_roundtrip) (simp add: socks5_is_valid_cred_def)

subsection \<open>SOCKS4\<close>

text \<open>
  C29: A SOCKS4 reply of eight bytes starts the relay exactly when its version is 0 and its code is
  90, with the queued request before the client's bytes and no byte of the reply relayed;
  any other reply gets the client dropped and both descriptors closed.
\<close>

theorem socks4_reply:
  assumes "world_ok w" "clients w c = Some cl" "waits socks4_request_sent 8 out cl cl" "length d = 8"
    "map_of (instances w) (instance_of cl) = Some x" "relay_ss x = Socks4" "good_env e" "c_client cl = Some b"
  shows "if d ! 0 = 0 \<and> d ! 1 = 90
    then \<exists>cl'. clients (on_readable e c SRelay (Read_data d) w) c = Some cl' \<and> relay_client cl'
      \<and> pipe SClient cl' = out @ bev_input b \<and> pipe SRelay cl' = bev_output b
    else clients (on_readable e c SRelay (Read_data d) w) c = None
      \<and> cfds cl \<inter> set (open_fds (on_readable e c SRelay (Read_data d) w)) = {}"
proof -
  let ?cl = "cl\<lparr> last_event := env_time e \<rparr>"
  let ?cl2 = "?cl\<lparr> c_state := socks4_reply_came \<rparr>"
  note v = world_valid [OF assms(1,2)]
  have t: "waits socks4_request_sent 8 out cl ?cl" using assms(3) by (rule waits_touch)
  have st: "c_state (heard d cl) = 1" "c_state (heard d ?cl) = 1"
    using assms(3) by (simp_all add: waits_def heard_def socks4_request_sent_def)
  obtain r where r: "c_client ?cl2 = Some b" "c_relay ?cl2 = Some r" "bev_output r = out" "bev_input r = []" "bev_of SRelay cl = Some r"
    using assms(3,8) by (auto simp: waits_def split: option.splits)
  have "on_readable e c SRelay (Read_data d) (put_client c cl w) = socks4_read_cb e c (put_client c (heard d cl) w)"
    using read_waiting [OF assms(3,4) _ assms(5), of e c] assms(6) by (simp add: ss_readcb_def)
  also have "\<dots> = (if d ! 0 = 0 \<and> d ! 1 = 90 then redsocks_start_relay e c (put_client c ?cl2 w)
      else redsocks_drop_client e c (put_client c ?cl2 w))"
    using read_expected_heard(2) [OF t assms(4), where e = e and c = c and w = w] st
    by (simp add: socks4_read_cb_def world_simps touch_heard socks4_request_sent_def socks4_set_state_def Let_def)
  finally have k: "on_readable e c SRelay (Read_data d) w = (if d ! 0 = 0 \<and> d ! 1 = 90
      then redsocks_start_relay e c (put_client c ?cl2 w) else redsocks_drop_client e c (put_client c ?cl2 w))"
    using v(3) by simp
  have "valid c ?cl2 w" by (rule valid_similar [OF v(1)]) simp
  from drop_gone [OF this] valid_drop [OF this]
  have g: "clients (redsocks_drop_client e c (put_client c ?cl2 w)) c = None"
    "world_ok (redsocks_drop_client e c (put_client c ?cl2 w))"
    "clients (redsocks_drop_client e c (put_client c ?cl2 w)) = (clients w)(c := None)" by simp_all
  have "cfds cl \<inter> set (open_fds (redsocks_drop_client e c (put_client c ?cl2 w))) = {}"
    using dropped_fds_closed [OF assms(1,2) g(2,3)] listeners_drop by simp
  with g k start_relay_flow [OF assms(7) r(1,2), of c w] r(3,4) show ?thesis by auto
qed

theorem socks4_reply_witness:
  "\<exists>cl'. clients (on_readable sample_env 7 SRelay (Read_data [0, 90, 0, 0, 0, 0, 0, 0])
     (put_client 7 (sample_waiting\<lparr> c_relay := map_option (\<lambda>r. r\<lparr> wm_read_low := 8, wm_read_high := 8 \<rparr>) (c_relay sample_waiting) \<rparr>)
       (upd_instance 0 (\<lambda>x. x\<lparr> relay_ss := Socks4 \<rparr>) sample_accepted))) 7 = Some cl' \<and> relay_client cl' \<and> pipe SRelay cl' = []"
proof -
  let ?cl = "sample_waiting\<lparr> c_relay := map_option (\<lambda>r. r\<lparr> wm_read_low := 8, wm_read_high := 8 \<rparr>) (c_relay sample_waiting) \<rparr>"
  let ?base = "upd_instance 0 (\<lambda>x. x\<lparr> relay_ss := Socks4 \<rparr>) (put_client 7 sample_waiting sample_accepted)"
  let ?w = "put_client 7 ?cl (upd_instance 0 (\<lambda>x. x\<lparr> relay_ss := Socks4 \<rparr>) sample_accepted)"
  have "benign (\<lambda>x. x\<lparr> relay_ss := Socks4 \<rparr>)" by (simp add: benign_def inst_ok_def)
  from world_ok_benign [OF sample_waiting_ok this] have w0: "world_ok ?base" .
  have "clients ?base 7 = Some sample_waiting" by simp
  note v = world_valid [OF w0 this]
  have "world_ok (put_client 7 ?cl ?base)"
    by (rule valid_done [OF valid_similar [OF v(1)]])
       (use v(2) in \<open>simp_all add: similar_def bev_fds_def sample_waiting_def sample_client_def client_ok_def phase_ok_def
          talking_def evshut_ok_def new_redsocks_client_def bufferevent_new_unfold\<close>)
  then have w: "world_ok ?w" by (simp add: upd_instance_put)
  have t: "waits socks4_request_sent 8 [] ?cl ?cl"
    by (simp add: waits_def sample_waiting_def bufferevent_new_unfold socks4_request_sent_def)
  have e: "good_env sample_env" by (simp add: good_env_def sample_env_def)
  from socks4_reply [OF w _ t _ _ _ e, where c = 7 and d = "[0, 90, 0, 0, 0, 0, 0, 0]" and b = "the (c_client sample_waiting)" and
      x = "(snd (hd (instances sample_accepted)))\<lparr> relay_ss := Socks4 \<rparr>"]
  show ?thesis
    by (simp add: sample_accepted_def sample_instance_def upd_instance_def sample_waiting_def sample_client_def
        new_redsocks_client_def bufferevent_new_unfold) blast
qed

subsection \<open>HTTP CONNECT\<close>

definition clean :: "bytes \<Rightarrow> bool" where
  "clean l \<longleftrightarrow> list_all (\<lambda>c. c \<noteq> 0 \<and> c \<noteq> 10 \<and> c \<noteq> 13) l"

lemma find_eol_clean: "clean l \<Longrightarrow> find_eol_crlf p (l @ 13 # 10 # r) = Some (p + length l, 2)"
  by (induction l arbitrary: p) (auto simp: clean_def)

lemma readline_clean:
  assumes "clean l"
  shows "redsocks_evbuffer_readline (l @ 13 # 10 # r) = (Some (string_of_bytes l), r)"
proof -
  have "takeWhile (\<lambda>c. c \<noteq> 0) l = l" using assms by (simp add: clean_def list_all_iff takeWhile_eq_all_conv)
  then show ?thesis
    by (simp add: redsocks_evbuffer_readline_def bytes_readln_def find_eol_clean [OF assms] cstr_def
        del: takeWhile_eq_all_conv)
qed

definition print_lines :: "bytes list \<Rightarrow> bytes" where
  "print_lines ls = concat (map (\<lambda>l. l @ [13, 10]) ls)"

lemma skip_headers_printed:
  assumes "list_all (\<lambda>h. clean h \<and> h \<noteq> []) hs"
  shows "skip_headers (print_lines hs @ 13 # 10 # rest) = (True, rest)"
  using assms
proof (induction hs)
  case Nil
  have "clean []" by (simp add: clean_def)
  from readline_clean [OF this, of rest] show ?case by (simp add: print_lines_def skip_headers.simps [of "13 # _"] string_of_bytes_def)
next
  case (Cons h hs)
  have "print_lines (h # hs) @ 13 # 10 # rest = h @ 13 # 10 # print_lines hs @ 13 # 10 # rest" by (simp add: print_lines_def)
  moreover have "clean h" "h \<noteq> []" using Cons.prems by simp_all
  ultimately show ?case
    using Cons readline_clean [of h "print_lines hs @ 13 # 10 # rest"]
    by (subst skip_headers.simps) simp
qed

text \<open>The status line, as a proxy prints it\<close>

definition status_line :: "nat \<Rightarrow> nat \<Rightarrow> nat \<Rightarrow> string \<Rightarrow> string" where
  "status_line major minor code reason =
    ''HTTP/'' @ dec major @ ''.'' @ dec minor @ '' '' @ dec code @ reason"

lemma scan_u_dec:
  assumes "r = [] \<or> 10 \<le> digit_val (hd r)"
  shows "scan_u (dec n @ r) = Some (int n, r)"
proof -
  have "strtoul_digits 10 (int n) r = (int n, r)" using assms by (cases r) auto
  then have "strtoul_digits 10 0 (dec n @ r) = (int n, r)" using strtoul_dec [of 0 n r] by simp
  moreover have "dec n \<noteq> []" "isdigit (hd (dec n))" using dec_hd by auto
  then have "hd (dec n @ r) = hd (dec n)" "dropWhile isspace (dec n @ r) = dec n @ r"
    using digit_no_space [of "hd (dec n)"] by (auto simp: neq_Nil_conv)
  ultimately show ?thesis
    using \<open>isdigit (hd (dec n))\<close> \<open>dec n \<noteq> []\<close> digit_no_space [of "hd (dec n)"] by (simp add: scan_u_def Let_def)
qed

lemma sscanf_status_line:
  assumes "reason = [] \<or> 10 \<le> digit_val (hd reason)"
  shows "sscanf_status (status_line major minor code reason) = Some (of_nat code)"
proof -
  have "isdigit (hd (dec code))" "dec code \<noteq> []" using dec_hd by auto
  then have "dropWhile isspace (CHR '' '' # dec code @ reason) = dec code @ reason"
    using digit_no_space [of "hd (dec code)"] by (auto simp: neq_Nil_conv isspace_def ord_def)
  moreover have "10 \<le> digit_val (CHR ''.'')" "10 \<le> digit_val (CHR '' '')"
    by (simp_all add: digit_val_def isdigit_def ord_def isalpha_def islower_def isupper_def)
  ultimately show ?thesis
    using scan_u_dec [of "CHR ''.'' # dec minor @ CHR '' '' # dec code @ reason" major]
      scan_u_dec [of "CHR '' '' # dec code @ reason" minor] scan_u_dec [OF assms, of code]
    by (simp add: sscanf_status_def status_line_def)
qed

lemma httpc_headers_relay:
  assumes "c_state cl = httpc_reply_came" "c_relay cl = Some r" "bev_input r = print_lines hs @ 13 # 10 # rest"
    "list_all (\<lambda>h. clean h \<and> h \<noteq> []) hs"
  shows "httpc_headers e c (put_client c cl w) =
    redsocks_start_relay e c (put_client c (cl\<lparr> c_relay := Some (r\<lparr> bev_input := rest \<rparr>), c_state := httpc_headers_skipped \<rparr>) w)"
  using assms skip_headers_printed [OF assms(4), of rest]
  by (simp add: httpc_headers_def httpc_set_state_def world_simps httpc_reply_came_def httpc_headers_skipped_def Let_def)





end
