(* ===== verification/HaP_Spdy_Pq.thy ===== *)
theory HaP_Spdy_Pq
  imports HaP_Prelude "HOL-Library.Multiset" "HOL-Library.Product_Lexorder"
begin

text \<open>
  The priority queue of \<open>src/jni/spdylay/spdylay_pq.c\<close>, a binary heap in a growing array, and what
  \<open>spdylay_session.c\<close> makes of it: the two queues of frames to send, the choice of the next one, and
  the loop that empties a queue.
\<close>

subsection \<open>Operations\<close>

text \<open>
  \<open>pq_q\<close> holds the slots in use, so \<open>pq->length\<close> is its length; the slots up to \<open>capacity\<close> are never
  read before they are written. The comparison function is a field, as in the code.
\<close>

record 'a spdylay_pq =
  pq_q :: "'a list"
  pq_capacity :: nat
  pq_compar :: "'a \<Rightarrow> 'a \<Rightarrow> int"

abbreviation pq_length :: "'a spdylay_pq \<Rightarrow> nat" where
  "pq_length pq \<equiv> length (pq_q pq)"

definition SPDYLAY_ERR_NOMEM :: int where "SPDYLAY_ERR_NOMEM = -901"

text \<open>\<open>ok\<close> says whether \<open>malloc\<close> or \<open>realloc\<close> finds the memory.\<close>

definition spdylay_pq_init :: "bool \<Rightarrow> ('a \<Rightarrow> 'a \<Rightarrow> int) \<Rightarrow> int + 'a spdylay_pq" where
  "spdylay_pq_init ok compar =
    (if \<not> ok then Inl SPDYLAY_ERR_NOMEM
     else Inr \<lparr> pq_q = [], pq_capacity = 4096, pq_compar = compar \<rparr>)"

definition swap :: "nat \<Rightarrow> nat \<Rightarrow> 'a spdylay_pq \<Rightarrow> 'a spdylay_pq" where
  "swap i j pq =
    (let t = pq_q pq ! i; q = (pq_q pq)[i := pq_q pq ! j] in pq\<lparr> pq_q := q[j := t] \<rparr>)"

fun bubble_up :: "nat \<Rightarrow> 'a spdylay_pq \<Rightarrow> 'a spdylay_pq" where
  "bubble_up index pq =
    (if index = 0 then pq
     else let parent = (index - 1) div 2 in
       if pq_compar pq (pq_q pq ! parent) (pq_q pq ! index) > 0
       then bubble_up parent (swap parent index pq) else pq)"

declare bubble_up.simps [simp del]

definition spdylay_pq_push :: "bool \<Rightarrow> 'a \<Rightarrow> 'a spdylay_pq \<Rightarrow> int \<times> 'a spdylay_pq" where
  "spdylay_pq_push ok item pq =
    (if pq_capacity pq \<le> pq_length pq \<and> \<not> ok then (SPDYLAY_ERR_NOMEM, pq)
     else
       let pq = (if pq_capacity pq \<le> pq_length pq then pq\<lparr> pq_capacity := pq_capacity pq * 2 \<rparr> else pq);
           pq = pq\<lparr> pq_q := pq_q pq @ [item] \<rparr>
       in (0, bubble_up (pq_length pq - 1) pq))"

definition spdylay_pq_top :: "'a spdylay_pq \<Rightarrow> 'a option" where
  "spdylay_pq_top pq = (if pq_length pq = 0 then None else Some (pq_q pq ! 0))"

text \<open>The loop over the two children, which stops at the first one that is past the end.\<close>

definition min_index :: "'a spdylay_pq \<Rightarrow> nat \<Rightarrow> nat" where
  "min_index pq index =
    (let lchild = index * 2 + 1; least = (\<lambda>m j. if pq_compar pq (pq_q pq ! m) (pq_q pq ! j) > 0 then j else m) in
     if pq_length pq \<le> lchild then index
     else if pq_length pq \<le> lchild + 1 then least index lchild
     else least (least index lchild) (lchild + 1))"

lemma min_index_range: "min_index pq i = i \<or> (i < min_index pq i \<and> min_index pq i < pq_length pq)"
  by (auto simp: min_index_def Let_def)

lemma pq_length_swap [simp]: "pq_length (swap i j pq) = pq_length pq"
  by (simp add: swap_def)

function bubble_down :: "nat \<Rightarrow> 'a spdylay_pq \<Rightarrow> 'a spdylay_pq" where
  "bubble_down index pq =
    (let minindex = min_index pq index in
     if minindex \<noteq> index then bubble_down minindex (swap index minindex pq) else pq)"
  by pat_completeness auto
termination
  by (relation "measure (\<lambda>(i, pq). pq_length pq - i)") (use min_index_range in \<open>fastforce+\<close>)

declare bubble_down.simps [simp del]

definition spdylay_pq_pop :: "'a spdylay_pq \<Rightarrow> 'a spdylay_pq" where
  "spdylay_pq_pop pq =
    (if 0 < pq_length pq
     then bubble_down 0 (pq\<lparr> pq_q := butlast ((pq_q pq)[0 := pq_q pq ! (pq_length pq - 1)]) \<rparr>)
     else pq)"

definition spdylay_pq_empty :: "'a spdylay_pq \<Rightarrow> bool" where
  "spdylay_pq_empty pq \<longleftrightarrow> pq_length pq = 0"

definition spdylay_pq_size :: "'a spdylay_pq \<Rightarrow> nat" where
  "spdylay_pq_size pq = pq_length pq"

subsection \<open>Contents\<close>

lemma swap_mset: "i < pq_length pq \<Longrightarrow> j < pq_length pq \<Longrightarrow> mset (pq_q (swap i j pq)) = mset (pq_q pq)"
  by (simp add: swap_def Let_def mset_swap)

lemma swap_frame [simp]: "pq_capacity (swap i j pq) = pq_capacity pq" "pq_compar (swap i j pq) = pq_compar pq"
  by (simp_all add: swap_def)

lemma bubble_up_frame:
  "pq_capacity (bubble_up i pq) = pq_capacity pq \<and> pq_compar (bubble_up i pq) = pq_compar pq"
proof (induction i pq rule: bubble_up.induct)
  case (1 i pq)
  then show ?case by (subst (1 2) bubble_up.simps) (simp add: Let_def)
qed

lemma bubble_up_mset: "i < pq_length pq \<Longrightarrow> mset (pq_q (bubble_up i pq)) = mset (pq_q pq)"
proof (induction i pq rule: bubble_up.induct)
  case (1 i pq)
  then show ?case by (subst bubble_up.simps) (simp add: Let_def swap_mset)
qed

lemma bubble_down_frame:
  "pq_capacity (bubble_down i pq) = pq_capacity pq \<and> pq_compar (bubble_down i pq) = pq_compar pq"
proof (induction i pq rule: bubble_down.induct)
  case (1 i pq)
  then show ?case by (subst (1 2) bubble_down.simps) (simp add: Let_def)
qed

lemma bubble_down_mset: "i < pq_length pq \<Longrightarrow> mset (pq_q (bubble_down i pq)) = mset (pq_q pq)"
proof (induction i pq rule: bubble_down.induct)
  case (1 i pq)
  then show ?case
    using min_index_range [of pq i] by (subst bubble_down.simps) (auto simp: Let_def swap_mset)
qed

subsection \<open>Heap order\<close>

definition par :: "nat \<Rightarrow> nat" where
  "par i = (i - 1) div 2"

lemma par_less: "0 < i \<Longrightarrow> par i < i" by (simp add: par_def)

lemma par_iff: "0 < i \<Longrightarrow> par i = k \<longleftrightarrow> i = k * 2 + 1 \<or> i = k * 2 + 2"
  by (auto simp: par_def)

definition heaped :: "('a \<Rightarrow> 'a \<Rightarrow> int) \<Rightarrow> 'a list \<Rightarrow> bool" where
  "heaped c xs \<longleftrightarrow> (\<forall>i. 0 < i \<and> i < length xs \<longrightarrow> c (xs ! par i) (xs ! i) \<le> 0)"

text \<open>Order everywhere but between \<open>k\<close> and its parent, or between \<open>k\<close> and its children.\<close>

definition skips :: "('a \<Rightarrow> 'a \<Rightarrow> int) \<Rightarrow> 'a list \<Rightarrow> nat \<Rightarrow> bool" where
  "skips c xs k \<longleftrightarrow> (\<forall>i. 0 < k \<and> 0 < i \<and> i < length xs \<and> par i = k \<longrightarrow> c (xs ! par k) (xs ! i) \<le> 0)"

definition heaped_up :: "('a \<Rightarrow> 'a \<Rightarrow> int) \<Rightarrow> 'a list \<Rightarrow> nat \<Rightarrow> bool" where
  "heaped_up c xs k \<longleftrightarrow> skips c xs k \<and> (\<forall>i. 0 < i \<and> i < length xs \<and> i \<noteq> k \<longrightarrow> c (xs ! par i) (xs ! i) \<le> 0)"

definition heaped_down :: "('a \<Rightarrow> 'a \<Rightarrow> int) \<Rightarrow> 'a list \<Rightarrow> nat \<Rightarrow> bool" where
  "heaped_down c xs k \<longleftrightarrow> skips c xs k \<and> (\<forall>i. 0 < i \<and> i < length xs \<and> par i \<noteq> k \<longrightarrow> c (xs ! par i) (xs ! i) \<le> 0)"

lemma nth_swap:
  "i < pq_length pq \<Longrightarrow> j < pq_length pq \<Longrightarrow> n < pq_length pq \<Longrightarrow>
   pq_q (swap i j pq) ! n = (if n = j then pq_q pq ! i else if n = i then pq_q pq ! j else pq_q pq ! n)"
  by (simp add: swap_def Let_def nth_list_update)

text \<open>The array is a heap, it has room for what it holds, and it has only ever been doubled.\<close>

definition pq_wf :: "('a \<Rightarrow> 'a \<Rightarrow> int) \<Rightarrow> 'a spdylay_pq \<Rightarrow> bool" where
  "pq_wf c pq \<longleftrightarrow>
    pq_compar pq = c \<and> heaped c (pq_q pq) \<and> pq_length pq \<le> pq_capacity pq \<and> (\<exists>n. pq_capacity pq = 4096 * 2 ^ n)"

lemma push_mset:
  "spdylay_pq_push ok x pq = (0, pq') \<Longrightarrow> mset (pq_q pq') = add_mset x (mset (pq_q pq))"
  by (auto simp: spdylay_pq_push_def SPDYLAY_ERR_NOMEM_def Let_def bubble_up_mset split: if_splits)

lemma pop_mset:
  assumes "pq_q pq = x # xs"
  shows "mset (pq_q (spdylay_pq_pop pq)) = mset xs"
proof (cases xs rule: rev_cases)
  case Nil
  have "bubble_down 0 (pq\<lparr> pq_q := [] \<rparr>) = pq\<lparr> pq_q := [] \<rparr>"
    by (subst bubble_down.simps) (simp add: min_index_def)
  with Nil assms show ?thesis by (simp add: spdylay_pq_pop_def)
next
  case (snoc ys y)
  then have "butlast ((x # xs)[0 := (x # xs) ! (length (x # xs) - 1)]) = y # ys" by (simp add: butlast_append)
  with assms snoc show ?thesis by (simp add: spdylay_pq_pop_def bubble_down_mset)
qed

lemma pop_length: "pq_length (spdylay_pq_pop pq) = pq_length pq - 1"
proof (cases "pq_q pq")
  case Nil
  then show ?thesis by (simp add: spdylay_pq_pop_def)
next
  case (Cons x xs)
  then show ?thesis using arg_cong [OF pop_mset [OF Cons], of size] by simp
qed

text \<open>
  \<open>spdylay_session_ob_pq_free\<close> frees the items from the top, one by one; the result is the list of
  what it frees, in this order. Nothing is left afterwards.
\<close>

function spdylay_session_ob_pq_free :: "'a spdylay_pq \<Rightarrow> 'a list" where
  "spdylay_session_ob_pq_free pq =
    (if spdylay_pq_empty pq then []
     else (case spdylay_pq_top pq of
             None \<Rightarrow> []
           | Some item \<Rightarrow> item # spdylay_session_ob_pq_free (spdylay_pq_pop pq)))"
  by pat_completeness auto
termination
  by (relation "measure pq_length") (auto simp: spdylay_pq_empty_def pop_length)

declare spdylay_session_ob_pq_free.simps [simp del]

lemma drain_Nil [simp]: "pq_q pq = [] \<Longrightarrow> spdylay_session_ob_pq_free pq = []"
  by (subst spdylay_session_ob_pq_free.simps) (simp add: spdylay_pq_empty_def)

lemma drain_Cons: "pq_q pq = x # xs \<Longrightarrow> spdylay_session_ob_pq_free pq = x # spdylay_session_ob_pq_free (spdylay_pq_pop pq)"
  by (subst spdylay_session_ob_pq_free.simps) (simp add: spdylay_pq_empty_def spdylay_pq_top_def)

lemma drain_mset: "mset (spdylay_session_ob_pq_free pq) = mset (pq_q pq)"
proof (induction pq rule: spdylay_session_ob_pq_free.induct)
  case (1 pq)
  then show ?case
    by (cases "pq_q pq") (simp_all add: drain_Cons pop_mset spdylay_pq_empty_def spdylay_pq_top_def)
qed

lemma drain_set [simp]: "set (spdylay_session_ob_pq_free pq) = set (pq_q pq)"
  by (rule mset_eq_setD [OF drain_mset])

text \<open>What the queue relies on of its comparison function: a total preorder.\<close>

locale pq_order =
  fixes compar :: "'a \<Rightarrow> 'a \<Rightarrow> int"
  assumes total: "compar a b > 0 \<Longrightarrow> compar b a \<le> 0"
    and trans: "compar a b \<le> 0 \<Longrightarrow> compar b c \<le> 0 \<Longrightarrow> compar a c \<le> 0"
begin

lemma compar_refl: "compar a a \<le> 0" using total [of a a] by linarith

lemma swap_up:
  assumes "heaped_up compar (pq_q pq) k" "0 < k" "k < pq_length pq" "compar (pq_q pq ! par k) (pq_q pq ! k) > 0"
  shows "heaped_up compar (pq_q (swap (par k) k pq)) (par k)"
proof -
  let ?x = "\<lambda>i. pq_q pq ! i" and ?p = "par k"
  have p: "?p < k" using assms(2) by (rule par_less)
  have kp: "compar (?x k) (?x ?p) \<le> 0" using assms(4) by (rule total)
  have h: "compar (?x (par i)) (?x i) \<le> 0" if "0 < i" "i < pq_length pq" "i \<noteq> k" for i
    using assms(1) that by (simp add: heaped_up_def)
  have s: "compar (?x ?p) (?x i) \<le> 0" if "0 < i" "i < pq_length pq" "par i = k" for i
    using assms(1,2) that by (simp add: heaped_up_def skips_def)
  note [simp] = nth_swap [of "par k" pq k]
  have "compar (pq_q (swap ?p k pq) ! par i) (pq_q (swap ?p k pq) ! i) \<le> 0"
    if i: "0 < i" "i < pq_length pq" "i \<noteq> ?p" for i
    using par_less [OF i(1)] i p assms(3) kp h [of i] s [of i] trans [OF kp, of "?x i"] by auto
  moreover have "compar (pq_q (swap ?p k pq) ! par ?p) (pq_q (swap ?p k pq) ! i) \<le> 0"
    if i: "0 < ?p" "0 < i" "i < pq_length pq" "par i = ?p" for i
    using par_less [OF i(1)] par_less [OF i(2)] i p assms(3) h [of ?p] h [of i] trans [OF h [of ?p], of "?x i"] by auto
  ultimately show ?thesis by (simp add: heaped_up_def skips_def)
qed

lemma bubble_up_heaped:
  "heaped_up compar (pq_q pq) i \<Longrightarrow> i < pq_length pq \<Longrightarrow> pq_compar pq = compar \<Longrightarrow>
   heaped compar (pq_q (bubble_up i pq))"
proof (induction i pq rule: bubble_up.induct)
  case (1 i pq)
  show ?case
  proof (cases "i = 0 \<or> \<not> compar (pq_q pq ! par i) (pq_q pq ! i) > 0")
    case True
    then have "bubble_up i pq = pq" using 1(4) by (subst bubble_up.simps) (auto simp: par_def Let_def)
    moreover have "heaped compar (pq_q pq)" using True 1(2) by (auto simp: heaped_def heaped_up_def not_less)
    ultimately show ?thesis by simp
  next
    case False
    then have "bubble_up i pq = bubble_up (par i) (swap (par i) i pq)"
      using 1(4) by (subst bubble_up.simps) (auto simp: par_def Let_def)
    moreover have "heaped compar (pq_q (bubble_up (par i) (swap (par i) i pq)))"
      using False 1(1) [OF _ refl] swap_up [OF 1(2)] 1(3,4) par_less [of i] by (simp add: par_def)
    ultimately show ?thesis by simp
  qed
qed

lemma least_of:
  assumes "m = (if compar (f a) (f b) > 0 then b else a)"
  shows "compar (f m) (f a) \<le> 0" "compar (f m) (f b) \<le> 0"
  using compar_refl total by (simp_all add: assms)

lemma min_index_least:
  assumes "pq_compar pq = compar"
  shows "compar (pq_q pq ! min_index pq k) (pq_q pq ! k) \<le> 0"
    "0 < i \<Longrightarrow> i < pq_length pq \<Longrightarrow> par i = k \<Longrightarrow> compar (pq_q pq ! min_index pq k) (pq_q pq ! i) \<le> 0"
    "min_index pq k = k \<or> par (min_index pq k) = k"
proof -
  let ?x = "\<lambda>i. pq_q pq ! i" and ?l = "k * 2 + 1"
  define a where "a = (if compar (?x k) (?x ?l) > 0 then ?l else k)"
  define b where "b = (if compar (?x a) (?x (?l + 1)) > 0 then ?l + 1 else a)"
  note la = least_of [of a ?x k ?l, OF a_def] and lb = least_of [of b ?x a "?l + 1", OF b_def]
  have m: "min_index pq k = (if pq_length pq \<le> ?l then k else if pq_length pq \<le> ?l + 1 then a else b)"
    by (simp add: min_index_def assms Let_def a_def b_def)
  show "compar (?x (min_index pq k)) (?x k) \<le> 0"
    using la(1) trans [OF lb(1) la(1)] compar_refl by (simp add: m)
  show "0 < i \<Longrightarrow> i < pq_length pq \<Longrightarrow> par i = k \<Longrightarrow> compar (?x (min_index pq k)) (?x i) \<le> 0"
    using la(2) trans [OF lb(1) la(2)] lb(2) by (auto simp: m par_iff)
  show "min_index pq k = k \<or> par (min_index pq k) = k"
    by (auto simp: m a_def b_def par_def)
qed

lemma swap_down:
  assumes "heaped_down compar (pq_q pq) k" "pq_compar pq = compar" and m: "m = min_index pq k" "m \<noteq> k"
  shows "heaped_down compar (pq_q (swap k m pq)) m"
proof -
  let ?x = "\<lambda>i. pq_q pq ! i"
  have km: "k < m" "m < pq_length pq" using min_index_range [of pq k] m by auto
  have pm: "par m = k" using min_index_least(3) [OF assms(2), of k] m by simp
  note l = min_index_least(1,2) [OF assms(2), where k = k, folded m(1)]
  have h: "compar (?x (par i)) (?x i) \<le> 0" if "0 < i" "i < pq_length pq" "par i \<noteq> k" for i
    using assms(1) that by (simp add: heaped_down_def)
  have s: "compar (?x (par k)) (?x m) \<le> 0" if "0 < k"
    using assms(1) that pm km by (simp add: heaped_down_def skips_def)
  note [simp] = nth_swap [of k pq m]
  have "compar (pq_q (swap k m pq) ! par i) (pq_q (swap k m pq) ! i) \<le> 0"
    if i: "0 < i" "i < pq_length pq" "par i \<noteq> m" for i
    using par_less [OF i(1)] i km pm l(1) l(2) [OF i(1,2)] h [of i] s by auto
  moreover have "compar (pq_q (swap k m pq) ! par m) (pq_q (swap k m pq) ! i) \<le> 0"
    if i: "0 < m" "0 < i" "i < pq_length pq" "par i = m" for i
    using par_less [OF i(2)] i km pm h [of i] by auto
  ultimately show ?thesis by (simp add: heaped_down_def skips_def)
qed

lemma bubble_down_heaped:
  "heaped_down compar (pq_q pq) i \<Longrightarrow> pq_compar pq = compar \<Longrightarrow> heaped compar (pq_q (bubble_down i pq))"
proof (induction i pq rule: bubble_down.induct)
  case (1 i pq)
  show ?case
  proof (cases "min_index pq i = i")
    case True
    have "compar (pq_q pq ! par j) (pq_q pq ! j) \<le> 0" if "0 < j" "j < pq_length pq" for j
      using min_index_least(2) [OF 1(3), of j i] True 1(2) that by (cases "par j = i") (auto simp: heaped_down_def)
    with True show ?thesis by (subst bubble_down.simps) (simp add: heaped_def)
  next
    case False
    with 1(1) [OF refl False] swap_down [OF 1(2,3) refl False] 1(3) show ?thesis
      by (subst bubble_down.simps) (simp add: Let_def)
  qed
qed

lemma heaped_top:
  assumes "heaped compar xs"
  shows "i < length xs \<Longrightarrow> compar (xs ! 0) (xs ! i) \<le> 0"
proof (induction i rule: less_induct)
  case (less i)
  show ?case
  proof (cases "i = 0")
    case False
    then have "compar (xs ! 0) (xs ! par i) \<le> 0" using less par_less [of i] by simp
    moreover have "compar (xs ! par i) (xs ! i) \<le> 0" using assms False less(2) by (simp add: heaped_def)
    ultimately show ?thesis by (rule trans)
  qed (simp add: compar_refl)
qed

lemma push_wf:
  assumes "pq_wf compar pq"
  shows "pq_wf compar (snd (spdylay_pq_push ok x pq))"
proof -
  let ?q = "pq_q pq @ [x]"
  obtain n where w: "pq_compar pq = compar" "heaped compar (pq_q pq)" "pq_length pq \<le> pq_capacity pq"
    and n: "pq_capacity pq = 4096 * 2 ^ n" using assms unfolding pq_wf_def by blast
  have "compar (?q ! par i) (?q ! i) \<le> 0" if i: "0 < i" "i < length ?q" "i \<noteq> pq_length pq" for i
    using w(2) i par_less [OF i(1)] by (simp add: heaped_def nth_append)
  moreover have "\<not> (0 < i \<and> i < length ?q \<and> par i = pq_length pq)" for i
    using par_less [of i] by auto
  ultimately have h: "heaped_up compar ?q (pq_length pq)" by (auto simp: heaped_up_def skips_def)
  have pos: "0 < pq_capacity pq" by (simp add: n)
  define p where "p = (if pq_capacity pq \<le> pq_length pq then pq\<lparr> pq_capacity := pq_capacity pq * 2 \<rparr> else pq)\<lparr> pq_q := ?q \<rparr>"
  have p: "pq_q p = ?q" "pq_compar p = compar" "pq_length p \<le> pq_capacity p" "\<exists>n. pq_capacity p = 4096 * 2 ^ n"
  proof -
    show "pq_length p \<le> pq_capacity p" using w(3) pos by (simp add: p_def)
    have "pq_capacity p = 4096 * 2 ^ n \<or> pq_capacity p = 4096 * 2 ^ Suc n" by (simp add: p_def n)
    then show "\<exists>n. pq_capacity p = 4096 * 2 ^ n" by blast
  qed (simp_all add: p_def w(1))
  have l: "pq_length pq < pq_length p" by (simp add: p(1))
  have "pq_length (bubble_up (pq_length pq) p) = pq_length p"
    using arg_cong [OF bubble_up_mset [OF l], of size] by simp
  with p bubble_up_heaped [of p, OF _ l p(2)] h bubble_up_frame [of "pq_length pq" p]
  have "pq_wf compar (bubble_up (pq_length pq) p)" by (simp add: pq_wf_def)
  with assms show ?thesis by (simp add: spdylay_pq_push_def p_def Let_def split: if_splits)
qed

lemma pop_wf:
  assumes "pq_wf compar pq"
  shows "pq_wf compar (spdylay_pq_pop pq)"
proof (cases "pq_q pq")
  case Nil
  then show ?thesis using assms by (simp add: spdylay_pq_pop_def)
next
  case (Cons x xs)
  let ?q = "butlast ((pq_q pq)[0 := pq_q pq ! (pq_length pq - 1)])"
  have q: "?q ! i = pq_q pq ! i" if "0 < i" "i < length ?q" for i
    using that by (simp add: nth_butlast)
  have "compar (?q ! par i) (?q ! i) \<le> 0" if i: "0 < i" "i < length ?q" "par i \<noteq> 0" for i
    using assms i q [of i] q [of "par i"] par_less [OF i(1)] by (simp add: pq_wf_def heaped_def)
  then have "heaped_down compar (pq_q (pq\<lparr> pq_q := ?q \<rparr>)) 0" by (simp add: heaped_down_def skips_def)
  moreover have p: "spdylay_pq_pop pq = bubble_down 0 (pq\<lparr> pq_q := ?q \<rparr>)" using Cons by (simp add: spdylay_pq_pop_def)
  moreover have c: "pq_compar (pq\<lparr> pq_q := ?q \<rparr>) = compar" using assms by (simp add: pq_wf_def)
  ultimately have "heaped compar (pq_q (spdylay_pq_pop pq))" using bubble_down_heaped by metis
  moreover have "pq_compar (spdylay_pq_pop pq) = compar" "pq_capacity (spdylay_pq_pop pq) = pq_capacity pq"
    unfolding p using c bubble_down_frame [of 0 "pq\<lparr> pq_q := ?q \<rparr>"] by simp_all
  moreover have "pq_length pq \<le> pq_capacity pq" "\<exists>n. pq_capacity pq = 4096 * 2 ^ n"
    using assms unfolding pq_wf_def by blast+
  ultimately show ?thesis using pop_length [of pq] unfolding pq_wf_def by (metis diff_le_self le_trans)
qed

lemma drain_sorted:
  "pq_wf compar pq \<Longrightarrow> sorted_wrt (\<lambda>a b. compar a b \<le> 0) (spdylay_session_ob_pq_free pq)"
proof (induction pq rule: spdylay_session_ob_pq_free.induct)
  case (1 pq)
  show ?case
  proof (cases "pq_q pq")
    case (Cons x xs)
    have "compar x y \<le> 0" if "y \<in> set (pq_q (spdylay_pq_pop pq))" for y
    proof -
      have "y \<in> set (pq_q pq)" using that mset_eq_setD [OF pop_mset [OF Cons]] Cons by auto
      then obtain i where "i < pq_length pq" "y = pq_q pq ! i" by (metis in_set_conv_nth)
      then show ?thesis using heaped_top [of "pq_q pq" i] 1(2) Cons by (simp add: pq_wf_def)
    qed
    moreover have "sorted_wrt (\<lambda>a b. compar a b \<le> 0) (spdylay_session_ob_pq_free (spdylay_pq_pop pq))"
      by (rule 1(1) [OF _ _ pop_wf [OF 1(2)]]) (simp_all add: Cons spdylay_pq_empty_def spdylay_pq_top_def)
    ultimately show ?thesis by (simp add: drain_Cons [OF Cons])
  qed simp
qed

end

subsection \<open>Frames to send\<close>

text \<open>
  The priority of a frame fits a byte or is one of a few small negative constants, and the sequence
  number counts the frames of a session, so the difference of priorities does not overflow.
\<close>

record 'f spdylay_outbound_item =
  ob_frame :: 'f
  ob_pri :: int
  ob_seq :: int

definition spdylay_outbound_item_compar :: "'f spdylay_outbound_item \<Rightarrow> 'f spdylay_outbound_item \<Rightarrow> int" where
  "spdylay_outbound_item_compar lhs rhs =
    (if ob_pri lhs = ob_pri rhs
     then (if ob_seq lhs < ob_seq rhs then -1 else if ob_seq lhs > ob_seq rhs then 1 else 0)
     else ob_pri lhs - ob_pri rhs)"

abbreviation ob_key :: "'f spdylay_outbound_item \<Rightarrow> int \<times> int" where
  "ob_key x \<equiv> (ob_pri x, ob_seq x)"

lemma compar_key: "spdylay_outbound_item_compar a b \<le> 0 \<longleftrightarrow> ob_key a \<le> ob_key b"
  by (auto simp: spdylay_outbound_item_compar_def)

interpretation ob: pq_order "spdylay_outbound_item_compar :: 'f spdylay_outbound_item \<Rightarrow> 'f spdylay_outbound_item \<Rightarrow> int"
proof
  fix a b c :: "'f spdylay_outbound_item"
  show "spdylay_outbound_item_compar b a \<le> 0" if "spdylay_outbound_item_compar a b > 0"
    using that by (auto simp: spdylay_outbound_item_compar_def split: if_splits)
  show "spdylay_outbound_item_compar a c \<le> 0"
    if "spdylay_outbound_item_compar a b \<le> 0" "spdylay_outbound_item_compar b c \<le> 0"
    using that unfolding compar_key by (rule order_trans)
qed

abbreviation ob_wf :: "'f spdylay_outbound_item spdylay_pq \<Rightarrow> bool" where
  "ob_wf pq \<equiv> pq_wf spdylay_outbound_item_compar pq \<and> distinct (map ob_seq (pq_q pq))"

lemma distinct_map_mset: "mset xs = mset ys \<Longrightarrow> distinct (map f xs) = distinct (map f ys)"
  by (metis mset_map mset_eq_imp_distinct_iff)

lemma distinct_key: "distinct (map ob_seq xs) \<Longrightarrow> distinct (map ob_key xs)"
  by (auto simp: distinct_map inj_on_def)

text \<open>A queue with different sequence numbers has exactly one order of leaving.\<close>

lemma ob_drain_unique:
  assumes "ob_wf pq" "sorted (map ob_key xs)" "mset xs = mset (pq_q pq)"
  shows "spdylay_session_ob_pq_free pq = xs"
proof -
  let ?d = "spdylay_session_ob_pq_free pq"
  have "sorted_wrt (\<lambda>a b. ob_key a \<le> ob_key b) ?d" using ob.drain_sorted assms(1) unfolding compar_key by blast
  then have s: "sorted (map ob_key ?d)" by (simp only: sorted_wrt_map)
  have d: "distinct (map ob_key ?d)" "distinct (map ob_key xs)"
    using assms(1,3) distinct_map_mset [OF drain_mset [of pq], of ob_seq] distinct_map_mset [OF assms(3), of ob_seq]
      distinct_key by blast+
  have e: "set ?d = set xs" using mset_eq_setD [OF assms(3)] by simp
  then have "inj_on ob_key (set ?d \<union> set xs)" using d(2) by (simp add: distinct_map)
  from map_sorted_distinct_set_unique [OF this s d(1) assms(2) d(2) e] show ?thesis .
qed

lemma ob_drain_sorted: "ob_wf pq \<Longrightarrow> sorted (map ob_key (spdylay_session_ob_pq_free pq))"
  using ob.drain_sorted unfolding compar_key sorted_wrt_map by blast

subsection \<open>The queue as a sorted list\<close>

datatype 'f ob_op = Ob_push "'f spdylay_outbound_item" | Ob_pop

fun ob_step :: "'f ob_op \<Rightarrow> 'f spdylay_outbound_item spdylay_pq \<Rightarrow> 'f spdylay_outbound_item spdylay_pq" where
  "ob_step (Ob_push x) pq = snd (spdylay_pq_push True x pq)"
| "ob_step Ob_pop pq = spdylay_pq_pop pq"

fun sorted_step :: "'f ob_op \<Rightarrow> 'f spdylay_outbound_item list \<Rightarrow> 'f spdylay_outbound_item list" where
  "sorted_step (Ob_push x) xs = insort_key ob_key x xs"
| "sorted_step Ob_pop xs = tl xs"

fun fresh_seqs :: "'f ob_op list \<Rightarrow> 'f spdylay_outbound_item list \<Rightarrow> bool" where
  "fresh_seqs [] xs \<longleftrightarrow> True"
| "fresh_seqs (op # ops) xs \<longleftrightarrow>
    (case op of Ob_push x \<Rightarrow> ob_seq x \<notin> ob_seq ` set xs | Ob_pop \<Rightarrow> True) \<and> fresh_seqs ops (sorted_step op xs)"

lemma push_ok: "fst (spdylay_pq_push True x pq) = 0"
  by (simp add: spdylay_pq_push_def Let_def)

lemma ob_push_refines:
  assumes "ob_wf pq" "ob_seq x \<notin> ob_seq ` set (pq_q pq)"
  shows "ob_wf (snd (spdylay_pq_push True x pq))"
    "spdylay_session_ob_pq_free (snd (spdylay_pq_push True x pq)) = insort_key ob_key x (spdylay_session_ob_pq_free pq)"
proof -
  let ?p = "snd (spdylay_pq_push True x pq)"
  have m: "mset (pq_q ?p) = add_mset x (mset (pq_q pq))"
    using push_mset [of True x pq ?p] push_ok [of x pq] by (metis prod.collapse)
  have "mset (pq_q ?p) = mset (x # pq_q pq)" using m by simp
  from distinct_map_mset [OF this, of ob_seq] assms show w: "ob_wf ?p" using ob.push_wf by auto
  show "spdylay_session_ob_pq_free ?p = insort_key ob_key x (spdylay_session_ob_pq_free pq)"
    by (rule ob_drain_unique [OF w]) (use assms(1) in \<open>simp_all add: sorted_insort_key ob_drain_sorted drain_mset m\<close>)
qed

lemma ob_pop_refines:
  assumes "ob_wf pq"
  shows "ob_wf (spdylay_pq_pop pq)"
    "spdylay_session_ob_pq_free (spdylay_pq_pop pq) = tl (spdylay_session_ob_pq_free pq)"
    "spdylay_pq_top pq = (case spdylay_session_ob_pq_free pq of [] \<Rightarrow> None | x # _ \<Rightarrow> Some x)"
proof -
  have *: "ob_wf (spdylay_pq_pop pq) \<and> spdylay_session_ob_pq_free (spdylay_pq_pop pq) = tl (spdylay_session_ob_pq_free pq)
    \<and> spdylay_pq_top pq = (case spdylay_session_ob_pq_free pq of [] \<Rightarrow> None | x # _ \<Rightarrow> Some x)"
  proof (cases "pq_q pq")
    case Nil
    with assms show ?thesis by (simp add: spdylay_pq_pop_def spdylay_pq_top_def)
  next
    case (Cons x xs)
    have "distinct (map ob_seq (pq_q (spdylay_pq_pop pq)))"
      using assms distinct_map_mset [OF pop_mset [OF Cons], of ob_seq] by (simp add: Cons)
    with ob.pop_wf [of pq] assms Cons show ?thesis by (simp add: drain_Cons [OF Cons] spdylay_pq_top_def)
  qed
  from * show "ob_wf (spdylay_pq_pop pq)" by blast
  from * show "spdylay_session_ob_pq_free (spdylay_pq_pop pq) = tl (spdylay_session_ob_pq_free pq)" by blast
  from * show "spdylay_pq_top pq = (case spdylay_session_ob_pq_free pq of [] \<Rightarrow> None | x # _ \<Rightarrow> Some x)" by blast
qed

lemma ob_steps_refine:
  "ob_wf pq \<Longrightarrow> fresh_seqs ops (spdylay_session_ob_pq_free pq) \<Longrightarrow>
   ob_wf (fold ob_step ops pq)
   \<and> spdylay_session_ob_pq_free (fold ob_step ops pq) = fold sorted_step ops (spdylay_session_ob_pq_free pq)"
proof (induction ops arbitrary: pq)
  case (Cons op ops)
  have "ob_wf (ob_step op pq) \<and> spdylay_session_ob_pq_free (ob_step op pq) = sorted_step op (spdylay_session_ob_pq_free pq)"
    using Cons.prems ob_push_refines [of pq] ob_pop_refines [of pq] by (cases op) simp_all
  with Cons.IH [of "ob_step op pq"] Cons.prems(2) show ?case by simp
qed simp

subsection \<open>The choice between the two queues\<close>

text \<open>
  \<open>ob_ss_pq\<close> holds the SYN_STREAM frames, which wait while the peer's limit of concurrent streams is
  reached (\<open>max_concurrent\<close> is the entry of \<open>remote_settings\<close>); \<open>ob_pq\<close> holds all others.
\<close>

record 'f ob_session =
  ob_pq :: "'f spdylay_outbound_item spdylay_pq"
  ob_ss_pq :: "'f spdylay_outbound_item spdylay_pq"
  num_outgoing_streams :: nat
  max_concurrent :: nat

definition spdylay_session_is_outgoing_concurrent_streams_max :: "'f ob_session \<Rightarrow> bool" where
  "spdylay_session_is_outgoing_concurrent_streams_max session \<longleftrightarrow> max_concurrent session \<le> num_outgoing_streams session"

definition spdylay_session_get_next_ob_item :: "'f ob_session \<Rightarrow> 'f spdylay_outbound_item option" where
  "spdylay_session_get_next_ob_item session =
    (case (spdylay_pq_top (ob_pq session), spdylay_pq_top (ob_ss_pq session)) of
       (None, None) \<Rightarrow> None
     | (None, Some syn_stream_item) \<Rightarrow>
         if spdylay_session_is_outgoing_concurrent_streams_max session then None else Some syn_stream_item
     | (Some item, None) \<Rightarrow> Some item
     | (Some item, Some syn_stream_item) \<Rightarrow>
         if spdylay_session_is_outgoing_concurrent_streams_max session \<or> ob_pri item < ob_pri syn_stream_item
            \<or> (ob_pri item = ob_pri syn_stream_item \<and> ob_seq item < ob_seq syn_stream_item)
         then Some item else Some syn_stream_item)"

definition spdylay_session_pop_next_ob_item :: "'f ob_session \<Rightarrow> 'f spdylay_outbound_item option \<times> 'f ob_session" where
  "spdylay_session_pop_next_ob_item session =
    (case (spdylay_pq_top (ob_pq session), spdylay_pq_top (ob_ss_pq session)) of
       (None, None) \<Rightarrow> (None, session)
     | (None, Some syn_stream_item) \<Rightarrow>
         if spdylay_session_is_outgoing_concurrent_streams_max session then (None, session)
         else (Some syn_stream_item, session\<lparr> ob_ss_pq := spdylay_pq_pop (ob_ss_pq session) \<rparr>)
     | (Some item, None) \<Rightarrow> (Some item, session\<lparr> ob_pq := spdylay_pq_pop (ob_pq session) \<rparr>)
     | (Some item, Some syn_stream_item) \<Rightarrow>
         if spdylay_session_is_outgoing_concurrent_streams_max session \<or> ob_pri item < ob_pri syn_stream_item
            \<or> (ob_pri item = ob_pri syn_stream_item \<and> ob_seq item < ob_seq syn_stream_item)
         then (Some item, session\<lparr> ob_pq := spdylay_pq_pop (ob_pq session) \<rparr>)
         else (Some syn_stream_item, session\<lparr> ob_ss_pq := spdylay_pq_pop (ob_ss_pq session) \<rparr>))"

text \<open>
  The code asks \<open>spdylay_pq_empty\<close> first; a queue is empty exactly when its top is \<open>NULL\<close>.

  What may be sent now, in order:
\<close>

definition queued :: "'f ob_session \<Rightarrow> 'f spdylay_outbound_item list" where
  "queued session = spdylay_session_ob_pq_free (ob_pq session) @ spdylay_session_ob_pq_free (ob_ss_pq session)"

definition sendable :: "'f ob_session \<Rightarrow> 'f spdylay_outbound_item list" where
  "sendable session =
    (if spdylay_session_is_outgoing_concurrent_streams_max session
     then spdylay_session_ob_pq_free (ob_pq session) else sort_key ob_key (queued session))"

definition ob_session_wf :: "'f ob_session \<Rightarrow> bool" where
  "ob_session_wf session \<longleftrightarrow>
    ob_wf (ob_pq session) \<and> ob_wf (ob_ss_pq session)
    \<and> distinct (map ob_seq (pq_q (ob_pq session) @ pq_q (ob_ss_pq session)))"

lemma sort_key_unique:
  assumes "distinct (map ob_seq xs)" "sorted (map ob_key ys)" "mset ys = mset xs"
  shows "sort_key ob_key xs = ys"
proof -
  have e: "mset (sort_key ob_key xs) = mset ys" using assms(3) by simp
  have d: "distinct (map ob_key (sort_key ob_key xs))" "distinct (map ob_key ys)"
    using distinct_key [OF assms(1)] distinct_map_mset [OF assms(3), of ob_key] distinct_map_mset [of "sort_key ob_key xs" xs ob_key]
    by simp_all
  have "inj_on ob_key (set (sort_key ob_key xs) \<union> set ys)" using d(2) mset_eq_setD [OF e] by (simp add: distinct_map)
  from map_sorted_distinct_set_unique [OF this sorted_sort_key d(1) assms(2) d(2) mset_eq_setD [OF e]] show ?thesis .
qed

lemma sort_key_least:
  assumes "distinct (map ob_seq xs)" "mset xs = add_mset x (mset ys)" "\<And>y. y \<in> set ys \<Longrightarrow> ob_key x \<le> ob_key y"
  shows "sort_key ob_key xs = x # sort_key ob_key ys"
  by (rule sort_key_unique) (use assms in \<open>simp_all\<close>)

lemma drain_top:
  "ob_wf pq \<Longrightarrow> spdylay_session_ob_pq_free pq = x # xs \<Longrightarrow> spdylay_pq_top pq = Some x \<and> spdylay_session_ob_pq_free (spdylay_pq_pop pq) = xs"
  using ob_pop_refines(2,3) [of pq] by simp

lemma drain_least:
  assumes "ob_wf pq" "spdylay_session_ob_pq_free pq = x # xs" "y \<in> set (x # xs)"
  shows "ob_key x \<le> ob_key y"
  using ob_drain_sorted [OF assms(1)] assms(3) unfolding assms(2) by (auto simp del: less_eq_prod_simp)

text \<open>The queues after the choice are still well-formed.\<close>

lemma pop_next_wf:
  assumes "ob_session_wf session"
  shows "ob_session_wf (snd (spdylay_session_pop_next_ob_item session))"
proof -
  have sub: "set (pq_q (spdylay_pq_pop pq)) \<subseteq> set (pq_q pq)" for pq :: "'f spdylay_outbound_item spdylay_pq"
  proof (cases "pq_q pq")
    case (Cons x xs)
    from mset_eq_setD [OF pop_mset [OF Cons]] Cons show ?thesis by auto
  qed (simp add: spdylay_pq_pop_def)
  let ?p = "ob_pq session" and ?s = "ob_ss_pq session"
  have w: "ob_wf ?p" "ob_wf ?s" "ob_seq ` set (pq_q ?p) \<inter> ob_seq ` set (pq_q ?s) = {}"
    using assms by (simp_all add: ob_session_wf_def)
  have "ob_session_wf (session\<lparr> ob_pq := spdylay_pq_pop ?p \<rparr>)"
    using w ob_pop_refines(1) [OF w(1)] sub [of ?p] by (fastforce simp: ob_session_wf_def)
  moreover have "ob_session_wf (session\<lparr> ob_ss_pq := spdylay_pq_pop ?s \<rparr>)"
    using w ob_pop_refines(1) [OF w(2)] sub [of ?s] by (fastforce simp: ob_session_wf_def)
  ultimately show ?thesis
    using assms by (simp add: spdylay_session_pop_next_ob_item_def split: option.split)
qed

lemma pop_next_sendable:
  assumes "ob_session_wf session" "spdylay_session_pop_next_ob_item session = (r, session')"
  shows "(r, sendable session') = (case sendable session of [] \<Rightarrow> (None, []) | x # xs \<Rightarrow> (Some x, xs))"
proof -
  let ?p = "ob_pq session" and ?s = "ob_ss_pq session"
  let ?q = "queued session"
  have p: "ob_wf ?p" and s: "ob_wf ?s" and d: "distinct (map ob_seq ?q)"
    using assms(1) distinct_map_mset [of ?q "pq_q ?p @ pq_q ?s" ob_seq]
    by (simp_all add: ob_session_wf_def drain_mset queued_def)
  note top = ob_pop_refines(3) [OF p] ob_pop_refines(3) [OF s] and pop = ob_pop_refines(2) [OF p] ob_pop_refines(2) [OF s]
  note defs = spdylay_session_pop_next_ob_item_def sendable_def spdylay_session_is_outgoing_concurrent_streams_max_def
  show ?thesis
  proof (cases "spdylay_session_is_outgoing_concurrent_streams_max session")
    case True
    with assms(2) top pop show ?thesis
      by (cases "spdylay_session_ob_pq_free ?p"; cases "spdylay_session_ob_pq_free ?s") (auto simp: defs)
  next
    case False
    have fin: ?thesis
      if "r = Some z" "\<not> spdylay_session_is_outgoing_concurrent_streams_max session'"
        "mset ?q = add_mset z (mset (queued session'))" "\<And>y. y \<in> set (queued session') \<Longrightarrow> ob_key z \<le> ob_key y" for z
      using sort_key_least [OF d that(3,4)] that(1,2) False by (simp add: sendable_def queued_def Let_def)
    show ?thesis
    proof (cases "spdylay_session_ob_pq_free ?p"; cases "spdylay_session_ob_pq_free ?s")
      assume "spdylay_session_ob_pq_free ?p = []" "spdylay_session_ob_pq_free ?s = []"
      with False assms(2) top show ?thesis by (simp add: defs queued_def)
    next
      fix y ys assume e: "spdylay_session_ob_pq_free ?p = []" "spdylay_session_ob_pq_free ?s = y # ys"
      with False assms(2) top have "r = Some y" "session' = session\<lparr> ob_ss_pq := spdylay_pq_pop ?s \<rparr>" by (auto simp: defs)
      then show ?thesis
        by (intro fin [of y]) (use False e pop drain_least [OF s e(2)] in \<open>auto simp: defs queued_def simp del: less_eq_prod_simp\<close>)
    next
      fix x xs assume e: "spdylay_session_ob_pq_free ?p = x # xs" "spdylay_session_ob_pq_free ?s = []"
      with False assms(2) top have "r = Some x" "session' = session\<lparr> ob_pq := spdylay_pq_pop ?p \<rparr>" by (auto simp: defs)
      then show ?thesis
        by (intro fin [of x]) (use False e pop drain_least [OF p e(1)] in \<open>auto simp: defs queued_def simp del: less_eq_prod_simp\<close>)
    next
      fix x xs y ys assume e: "spdylay_session_ob_pq_free ?p = x # xs" "spdylay_session_ob_pq_free ?s = y # ys"
      note l = drain_least [OF p e(1)] drain_least [OF s e(2)]
      have lx: "ob_key x \<le> ob_key z" if "ob_key x < ob_key y" "z \<in> set (y # ys)" for z
        using less_imp_le [OF that(1)] l(2) [OF that(2)] by (rule order_trans)
      have ly: "ob_key y \<le> ob_key z" if "\<not> ob_key x < ob_key y" "z \<in> set (x # xs)" for z
        using that(1) [unfolded not_less] l(1) [OF that(2)] by (rule order_trans)
      show ?thesis
      proof (cases "ob_key x < ob_key y")
        case True
        with False assms(2) top e have "r = Some x" "session' = session\<lparr> ob_pq := spdylay_pq_pop ?p \<rparr>"
          by (auto simp: defs split: if_splits)
        then show ?thesis
          by (intro fin [of x]) (use False e pop l(1) lx [OF True] in \<open>auto simp: defs queued_def simp del: less_eq_prod_simp less_prod_simp\<close>)
      next
        case le: False
        with False assms(2) top e have "r = Some y" "session' = session\<lparr> ob_ss_pq := spdylay_pq_pop ?s \<rparr>"
          by (auto simp: defs split: if_splits)
        then show ?thesis
          by (intro fin [of y]) (use False e pop l(2) ly [OF le] in \<open>auto simp: defs queued_def simp del: less_eq_prod_simp less_prod_simp\<close>)
      qed
    qed
  qed
qed

subsection \<open>Properties\<close>

text \<open>
  C34: For every sequence of pushes and pops on a new queue of outgoing frames, in which no two queued
  frames have the same sequence number, the heap in the array behaves as the list of the frames
  sorted by priority and then by sequence number: a push inserts at its place, a pop removes the
  first. The array is a heap with room for its items all along, so no access leaves it, and emptying
  the queue frees each frame once.
\<close>

theorem outbound_queue_order:
  assumes "spdylay_pq_init True spdylay_outbound_item_compar = Inr pq" and "fresh_seqs ops []"
  shows "pq_wf spdylay_outbound_item_compar (fold ob_step ops pq)
    \<and> spdylay_session_ob_pq_free (fold ob_step ops pq) = fold sorted_step ops []
    \<and> spdylay_pq_top (fold ob_step ops pq) = (case fold sorted_step ops [] of [] \<Rightarrow> None | x # _ \<Rightarrow> Some x)
    \<and> spdylay_pq_size (fold ob_step ops pq) = length (fold sorted_step ops [])"
proof -
  have e: "pq_q pq = []" and "ob_wf pq"
    using assms(1) by (auto simp: spdylay_pq_init_def pq_wf_def heaped_def intro: exI [of _ 0])
  from ob_steps_refine [OF this(2)] assms(2) e
  have w: "ob_wf (fold ob_step ops pq)"
    and d: "spdylay_session_ob_pq_free (fold ob_step ops pq) = fold sorted_step ops []" by simp_all
  have "length (spdylay_session_ob_pq_free (fold ob_step ops pq)) = pq_length (fold ob_step ops pq)"
    using drain_mset by (metis size_mset)
  with w d ob_pop_refines(3) [OF w] show ?thesis by (simp add: spdylay_pq_size_def)
qed

abbreviation sample_item :: "int \<Rightarrow> int \<Rightarrow> char spdylay_outbound_item" where
  "sample_item p n \<equiv> \<lparr> ob_frame = CHR ''f'', ob_pri = p, ob_seq = n \<rparr>"

abbreviation sample_ops :: "char ob_op list" where
  "sample_ops \<equiv> [Ob_push (sample_item 3 0), Ob_push (sample_item 1 1), Ob_push (sample_item 3 2), Ob_pop, Ob_push (sample_item 3 1)]"

abbreviation empty_ob_pq :: "char spdylay_outbound_item spdylay_pq" where
  "empty_ob_pq \<equiv> \<lparr> pq_q = [], pq_capacity = 4096, pq_compar = spdylay_outbound_item_compar \<rparr>"

theorem outbound_queue_order_witness:
  "fresh_seqs sample_ops []
   \<and> spdylay_session_ob_pq_free (fold ob_step sample_ops empty_ob_pq) = [sample_item 3 0, sample_item 3 1, sample_item 3 2]"
  using outbound_queue_order [of empty_ob_pq sample_ops] by (simp add: spdylay_pq_init_def)

text \<open>
  C35: With different sequence numbers in the two queues, \<open>spdylay_session_pop_next_ob_item\<close> returns the
  frame that is first by priority and sequence number among all frames that may be sent, and removes
  only it: SYN_STREAM frames take part exactly while the peer's limit of streams is not reached, and
  \<open>NULL\<close> is returned only when nothing may be sent. \<open>spdylay_session_get_next_ob_item\<close> announces the
  same frame, and both queues stay well-formed.
\<close>

theorem next_item_order:
  assumes "ob_session_wf session"
  shows "(let (r, session') = spdylay_session_pop_next_ob_item session in
      (r, sendable session') = (case sendable session of [] \<Rightarrow> (None, []) | x # xs \<Rightarrow> (Some x, xs))
      \<and> spdylay_session_get_next_ob_item session = r
      \<and> mset (queued session) = (case r of None \<Rightarrow> {#} | Some x \<Rightarrow> {#x#}) + mset (queued session')
      \<and> ob_session_wf session')"
proof -
  obtain r session' where e: "spdylay_session_pop_next_ob_item session = (r, session')" by fastforce
  have "spdylay_session_get_next_ob_item session = r"
    using e unfolding spdylay_session_get_next_ob_item_def spdylay_session_pop_next_ob_item_def
    by (auto split: option.splits if_splits)
  moreover have "mset (queued session) = (case r of None \<Rightarrow> {#} | Some x \<Rightarrow> {#x#}) + mset (queued session')"
  proof -
    have "mset (pq_q pq) = add_mset x (mset (pq_q (spdylay_pq_pop pq)))" if "spdylay_pq_top pq = Some x"
      for pq and x :: "'a spdylay_outbound_item"
      using that pop_mset [of pq x "tl (pq_q pq)"] by (cases "pq_q pq") (auto simp: spdylay_pq_top_def)
    then show ?thesis
      using e by (auto simp: queued_def drain_mset spdylay_session_pop_next_ob_item_def split: option.splits if_splits)
  qed
  ultimately show ?thesis
    using pop_next_sendable [OF assms e] pop_next_wf [OF assms] by (simp add: e)
qed

abbreviation sample_ob_session :: "char ob_session" where
  "sample_ob_session \<equiv>
    \<lparr> ob_pq = empty_ob_pq\<lparr> pq_q := [sample_item 3 0] \<rparr>, ob_ss_pq = empty_ob_pq\<lparr> pq_q := [sample_item 1 1] \<rparr>,
      num_outgoing_streams = 0, max_concurrent = 100 \<rparr>"

theorem next_item_order_witness:
  "ob_session_wf sample_ob_session \<and> spdylay_session_get_next_ob_item sample_ob_session = Some (sample_item 1 1)
   \<and> fst (spdylay_session_pop_next_ob_item sample_ob_session) = Some (sample_item 1 1)"
proof -
  have w: "ob_session_wf sample_ob_session" by (auto simp: ob_session_wf_def pq_wf_def heaped_def intro: exI [of _ 0])
  have "spdylay_session_get_next_ob_item sample_ob_session = Some (sample_item 1 1)"
    by (simp add: spdylay_session_get_next_ob_item_def spdylay_session_is_outgoing_concurrent_streams_max_def spdylay_pq_top_def)
  with next_item_order [OF w] w show ?thesis by (simp add: split_beta)
qed

end
