(* ===== verification/HaP_Spdy_Map.thy ===== *)
theory HaP_Spdy_Map
  imports HaP_Prelude "HOL-Library.Monad_Syntax" "HOL-Library.Tree"
begin

text \<open>
  The ordered map of \<open>src/jni/spdylay/spdylay_map.c\<close>: a search tree of entries linked by \<open>parent\<close>,
  \<open>left\<close> and \<open>right\<close> pointers, kept balanced as a heap on hashed priorities (a treap). The model is
  at the level of the pointers: a memory of entries by address, in which an access through \<open>NULL\<close>
  or to a freed entry has no result.
\<close>

subsection \<open>Memory\<close>

type_synonym ptr = "nat option"

record map_entry =
  me_key :: u32
  me_parent :: ptr
  me_left :: ptr
  me_right :: ptr
  me_priority :: u32

type_synonym mem = "nat \<Rightarrow> map_entry option"

record spdylay_map =
  map_root :: ptr
  map_size :: nat

definition load :: "mem \<Rightarrow> ptr \<Rightarrow> map_entry option" where
  "load m p = Option.bind p m"

definition store :: "mem \<Rightarrow> ptr \<Rightarrow> (map_entry \<Rightarrow> map_entry) \<Rightarrow> mem option" where
  "store m p f = do { a \<leftarrow> p; e \<leftarrow> m a; Some (m(a \<mapsto> f e)) }"

lemma load_simps [simp]: "load m None = None" "load m (Some a) = m a"
  by (simp_all add: load_def)

lemma store_simps [simp]: "m a = Some e \<Longrightarrow> store m (Some a) f = Some (m(a \<mapsto> f e))"
  by (simp add: store_def)

definition SPDYLAY_ERR_INVALID_ARGUMENT :: int where "SPDYLAY_ERR_INVALID_ARGUMENT = -501"

definition spdylay_map_init :: spdylay_map where
  "spdylay_map_init = \<lparr> map_root = None, map_size = 0 \<rparr>"

definition spdylay_map_free :: "spdylay_map \<Rightarrow> spdylay_map" where
  "spdylay_map_free mp = mp\<lparr> map_root := None \<rparr>"

definition spdylay_map_size :: "spdylay_map \<Rightarrow> nat" where
  "spdylay_map_size mp = map_size mp"

subsection \<open>Traversal\<close>

partial_function (option) find_left_most :: "mem \<Rightarrow> ptr \<Rightarrow> ptr option" where
  "find_left_most m entry = do { e \<leftarrow> load m entry; if me_left e \<noteq> None then find_left_most m (me_left e) else Some entry }"

partial_function (option) find_left_most_leaf :: "mem \<Rightarrow> ptr \<Rightarrow> ptr option" where
  "find_left_most_leaf m entry =
    do { entry \<leftarrow> find_left_most m entry; e \<leftarrow> load m entry;
         if me_right e \<noteq> None then find_left_most_leaf m (me_right e) else Some entry }"

definition traverse_postorder :: "mem \<Rightarrow> ptr \<Rightarrow> ptr \<Rightarrow> ptr option" where
  "traverse_postorder m parent entry =
    (if parent = None then Some None
     else do { p \<leftarrow> load m parent;
               if me_left p = entry
               then (if me_right p \<noteq> None then find_left_most_leaf m (me_right p) else Some parent)
               else Some parent })"

text \<open>
  \<open>func\<close> frees the entry it is given. The result is the list of the entries it was given, in order,
  and the memory afterwards.
\<close>

partial_function (option) each_free_loop :: "mem \<Rightarrow> ptr \<Rightarrow> nat list \<Rightarrow> (nat list \<times> mem) option" where
  "each_free_loop m entry freed =
    (case entry of
       None \<Rightarrow> Some (freed, m)
     | Some a \<Rightarrow>
         do { e \<leftarrow> m a;
              let m = m(a := None);
              entry \<leftarrow> traverse_postorder m (me_parent e) entry;
              each_free_loop m entry (freed @ [a]) })"

definition spdylay_map_each_free :: "mem \<Rightarrow> spdylay_map \<Rightarrow> (nat list \<times> mem \<times> spdylay_map) option" where
  "spdylay_map_each_free m mp =
    (if map_root mp = None then Some ([], m, mp)
     else do { entry \<leftarrow> find_left_most_leaf m (map_root mp);
               (freed, m) \<leftarrow> each_free_loop m entry [];
               Some (freed, m, mp\<lparr> map_root := None \<rparr>) })"

partial_function (option) climb :: "mem \<Rightarrow> ptr \<Rightarrow> ptr \<Rightarrow> ptr option" where
  "climb m entry parent =
    (if parent = None then Some None
     else do { p \<leftarrow> load m parent;
               if me_right p = entry
               then do { e \<leftarrow> load m entry; climb m (me_parent e) (me_parent p) }
               else Some parent })"

definition traverse_inorder :: "mem \<Rightarrow> ptr \<Rightarrow> ptr option" where
  "traverse_inorder m entry =
    do { e \<leftarrow> load m entry;
         if me_right e \<noteq> None then find_left_most m (me_right e) else climb m entry (me_parent e) }"

text \<open>\<open>func\<close> reads the entry and changes the state behind \<open>ptr\<close>.\<close>

partial_function (option) each_loop ::
  "mem \<Rightarrow> (nat \<Rightarrow> map_entry \<Rightarrow> 's \<Rightarrow> int \<times> 's) \<Rightarrow> ptr \<Rightarrow> 's \<Rightarrow> (int \<times> 's) option"
where
  "each_loop m func entry s =
    (case entry of
       None \<Rightarrow> Some (0, s)
     | Some a \<Rightarrow>
         do { e \<leftarrow> m a;
              let (rv, s) = func a e s;
              if rv \<noteq> 0 then Some (rv, s)
              else do { entry \<leftarrow> traverse_inorder m entry; each_loop m func entry s } })"

definition spdylay_map_each ::
  "mem \<Rightarrow> spdylay_map \<Rightarrow> (nat \<Rightarrow> map_entry \<Rightarrow> 's \<Rightarrow> int \<times> 's) \<Rightarrow> 's \<Rightarrow> (int \<times> 's) option"
where
  "spdylay_map_each m mp func s =
    (if map_root mp = None then Some (0, s)
     else do { entry \<leftarrow> find_left_most m (map_root mp); each_loop m func entry s })"

subsection \<open>Entries\<close>

definition hash32shift :: "u32 \<Rightarrow> u32" where
  "hash32shift key =
    (let key = not key + push_bit 15 key;
         key = xor key (drop_bit 12 key);
         key = key + push_bit 2 key;
         key = xor key (drop_bit 4 key);
         key = key * 2057;
         key = xor key (drop_bit 16 key)
     in key)"

definition spdylay_map_entry_init :: "u32 \<Rightarrow> map_entry" where
  "spdylay_map_entry_init key =
    \<lparr> me_key = key, me_parent = None, me_left = None, me_right = None, me_priority = hash32shift key \<rparr>"

definition rotate_left :: "mem \<Rightarrow> ptr \<Rightarrow> (ptr \<times> mem) option" where
  "rotate_left m entry =
    do { e \<leftarrow> load m entry;
         let root = me_right e;
         r \<leftarrow> load m root;
         m \<leftarrow> store m entry (\<lambda>x. x\<lparr> me_right := me_left r \<rparr>);
         m \<leftarrow> store m root (\<lambda>x. x\<lparr> me_left := entry \<rparr>);
         e \<leftarrow> load m entry;
         m \<leftarrow> store m root (\<lambda>x. x\<lparr> me_parent := me_parent e \<rparr>);
         m \<leftarrow> store m entry (\<lambda>x. x\<lparr> me_parent := root \<rparr>);
         r \<leftarrow> load m root;
         m \<leftarrow> (if me_parent r \<noteq> None
              then do { p \<leftarrow> load m (me_parent r);
                        if me_left p = entry then store m (me_parent r) (\<lambda>x. x\<lparr> me_left := root \<rparr>)
                        else store m (me_parent r) (\<lambda>x. x\<lparr> me_right := root \<rparr>) }
              else Some m);
         e \<leftarrow> load m entry;
         m \<leftarrow> (if me_right e \<noteq> None then store m (me_right e) (\<lambda>x. x\<lparr> me_parent := entry \<rparr>) else Some m);
         Some (root, m) }"

definition rotate_right :: "mem \<Rightarrow> ptr \<Rightarrow> (ptr \<times> mem) option" where
  "rotate_right m entry =
    do { e \<leftarrow> load m entry;
         let root = me_left e;
         r \<leftarrow> load m root;
         m \<leftarrow> store m entry (\<lambda>x. x\<lparr> me_left := me_right r \<rparr>);
         m \<leftarrow> store m root (\<lambda>x. x\<lparr> me_right := entry \<rparr>);
         e \<leftarrow> load m entry;
         m \<leftarrow> store m root (\<lambda>x. x\<lparr> me_parent := me_parent e \<rparr>);
         m \<leftarrow> store m entry (\<lambda>x. x\<lparr> me_parent := root \<rparr>);
         r \<leftarrow> load m root;
         m \<leftarrow> (if me_parent r \<noteq> None
              then do { p \<leftarrow> load m (me_parent r);
                        if me_left p = entry then store m (me_parent r) (\<lambda>x. x\<lparr> me_left := root \<rparr>)
                        else store m (me_parent r) (\<lambda>x. x\<lparr> me_right := root \<rparr>) }
              else Some m);
         e \<leftarrow> load m entry;
         m \<leftarrow> (if me_left e \<noteq> None then store m (me_left e) (\<lambda>x. x\<lparr> me_parent := entry \<rparr>) else Some m);
         Some (root, m) }"

subsection \<open>Insertion, search and removal\<close>

datatype position = Same_key | Left_of ptr | Right_of ptr

partial_function (option) insert_position :: "mem \<Rightarrow> u32 \<Rightarrow> ptr \<Rightarrow> position option" where
  "insert_position m key entry =
    do { e \<leftarrow> load m entry;
         if key = me_key e then Some Same_key
         else if key < me_key e
         then (if me_left e \<noteq> None then insert_position m key (me_left e) else Some (Left_of entry))
         else (if me_right e \<noteq> None then insert_position m key (me_right e) else Some (Right_of entry)) }"

definition heavier :: "mem \<Rightarrow> map_entry \<Rightarrow> ptr \<Rightarrow> bool option" where
  "heavier m e child = (if child = None then Some False else do { c \<leftarrow> load m child; Some (me_priority e > me_priority c) })"

text \<open>The rotations up the tree; the first component is the new root, when there is one.\<close>

partial_function (option) rotate_up :: "mem \<Rightarrow> ptr \<Rightarrow> (ptr \<times> mem) option" where
  "rotate_up m entry =
    do { e \<leftarrow> load m entry;
         l \<leftarrow> heavier m e (me_left e);
         r \<leftarrow> (if l then Some False else heavier m e (me_right e));
         if \<not> l \<and> \<not> r then Some (None, m)
         else do { (entry, m) \<leftarrow> (if l then rotate_right m entry else rotate_left m entry);
                   e \<leftarrow> load m entry;
                   if me_parent e = None then Some (entry, m) else rotate_up m (me_parent e) } }"

definition spdylay_map_insert :: "mem \<Rightarrow> spdylay_map \<Rightarrow> ptr \<Rightarrow> (int \<times> mem \<times> spdylay_map) option" where
  "spdylay_map_insert m mp new_entry =
    (if map_root mp = None then Some (0, m, mp\<lparr> map_root := new_entry, map_size := 1 \<rparr>)
     else
       let link = (\<lambda>parent f. do {
             m \<leftarrow> store m parent f;
             m \<leftarrow> store m new_entry (\<lambda>x. x\<lparr> me_parent := parent \<rparr>);
             (root, m) \<leftarrow> rotate_up m parent;
             Some (0, m, mp\<lparr> map_root := (if root \<noteq> None then root else map_root mp), map_size := map_size mp + 1 \<rparr>) })
       in do { e \<leftarrow> load m new_entry;
               pos \<leftarrow> insert_position m (me_key e) (map_root mp);
               case pos of
                 Same_key \<Rightarrow> Some (SPDYLAY_ERR_INVALID_ARGUMENT, m, mp)
               | Left_of parent \<Rightarrow> link parent (\<lambda>x. x\<lparr> me_left := new_entry \<rparr>)
               | Right_of parent \<Rightarrow> link parent (\<lambda>x. x\<lparr> me_right := new_entry \<rparr>) })"

partial_function (option) find_loop :: "mem \<Rightarrow> u32 \<Rightarrow> ptr \<Rightarrow> ptr option" where
  "find_loop m key entry =
    (if entry = None then Some None
     else do { e \<leftarrow> load m entry;
               if key < me_key e then find_loop m key (me_left e)
               else if key > me_key e then find_loop m key (me_right e)
               else Some entry })"

definition spdylay_map_find :: "mem \<Rightarrow> spdylay_map \<Rightarrow> u32 \<Rightarrow> ptr option" where
  "spdylay_map_find m mp key = find_loop m key (map_root mp)"

definition unlink :: "mem \<Rightarrow> ptr \<Rightarrow> ptr \<Rightarrow> map_entry \<Rightarrow> ptr \<Rightarrow> (ptr \<times> mem) option" where
  "unlink m root entry e child =
    do { (root, m) \<leftarrow>
           (if me_parent e = None then Some (child, m)
            else do { p \<leftarrow> load m (me_parent e);
                      m \<leftarrow> (if me_left p = entry then store m (me_parent e) (\<lambda>x. x\<lparr> me_left := child \<rparr>)
                           else store m (me_parent e) (\<lambda>x. x\<lparr> me_right := child \<rparr>));
                      Some (root, m) });
         m \<leftarrow> (if child \<noteq> None then store m child (\<lambda>x. x\<lparr> me_parent := me_parent e \<rparr>) else Some m);
         Some (root, m) }"

partial_function (option) bubble_out :: "mem \<Rightarrow> ptr \<Rightarrow> ptr \<Rightarrow> (ptr \<times> mem) option" where
  "bubble_out m root entry =
    do { e \<leftarrow> load m entry;
         if me_left e = None then unlink m root entry e (me_right e)
         else if me_right e = None then unlink m root entry e (me_left e)
         else do {
           l \<leftarrow> load m (me_left e);
           r \<leftarrow> load m (me_right e);
           let right = me_priority l < me_priority r;
           (entry, m) \<leftarrow> (if right then rotate_right m entry else rotate_left m entry);
           e \<leftarrow> load m entry;
           bubble_out m (if me_parent e = None then entry else root) (if right then me_right e else me_left e) } }"

text \<open>The loop that locates the entry is the one of \<open>spdylay_map_find\<close>.\<close>

definition spdylay_map_remove :: "mem \<Rightarrow> spdylay_map \<Rightarrow> u32 \<Rightarrow> (int \<times> mem \<times> spdylay_map) option" where
  "spdylay_map_remove m mp key =
    (if map_root mp = None then Some (SPDYLAY_ERR_INVALID_ARGUMENT, m, mp)
     else do { entry \<leftarrow> find_loop m key (map_root mp);
               if entry = None then Some (SPDYLAY_ERR_INVALID_ARGUMENT, m, mp)
               else do { (root, m) \<leftarrow> bubble_out m (map_root mp) entry;
                         Some (0, m, mp\<lparr> map_root := root, map_size := map_size mp - 1 \<rparr>) } })"

subsection \<open>Trees in memory\<close>

text \<open>
  \<open>laid K m q t\<close>: below the parent \<open>q\<close>, the entries at the addresses of the tree \<open>t\<close> are linked as \<open>t\<close> is,
  in both directions; \<open>K\<close> gives the key of each address, and the priority is the hash of the key.
\<close>

fun rootp :: "nat tree \<Rightarrow> ptr" where
  "rootp \<langle>\<rangle> = None"
| "rootp \<langle>l, a, r\<rangle> = Some a"

definition pri :: "(nat \<Rightarrow> u32) \<Rightarrow> nat \<Rightarrow> u32" where
  "pri K a = hash32shift (K a)"

definition node :: "(nat \<Rightarrow> u32) \<Rightarrow> ptr \<Rightarrow> ptr \<Rightarrow> nat \<Rightarrow> ptr \<Rightarrow> map_entry" where
  "node K q l a r = \<lparr> me_key = K a, me_parent = q, me_left = l, me_right = r, me_priority = pri K a \<rparr>"

fun laid :: "(nat \<Rightarrow> u32) \<Rightarrow> mem \<Rightarrow> ptr \<Rightarrow> nat tree \<Rightarrow> bool" where
  "laid K m q \<langle>\<rangle> \<longleftrightarrow> True"
| "laid K m q \<langle>l, a, r\<rangle> \<longleftrightarrow> m a = Some (node K q (rootp l) a (rootp r)) \<and> laid K m (Some a) l \<and> laid K m (Some a) r"

lemma node_sel [simp]:
  "me_key (node K q l a r) = K a" "me_parent (node K q l a r) = q" "me_left (node K q l a r) = l"
  "me_right (node K q l a r) = r" "me_priority (node K q l a r) = pri K a"
  by (simp_all add: node_def)

lemma node_upd [simp]:
  "(node K q l a r)\<lparr> me_parent := x \<rparr> = node K x l a r" "(node K q l a r)\<lparr> me_left := x \<rparr> = node K q x a r"
  "(node K q l a r)\<lparr> me_right := x \<rparr> = node K q l a x"
  by (simp_all add: node_def)

lemma rootp_None [simp]: "rootp t = None \<longleftrightarrow> t = \<langle>\<rangle>" "None = rootp t \<longleftrightarrow> t = \<langle>\<rangle>"
  by (cases t; simp)+

lemma rootp_other [simp]: "a \<notin> set_tree t \<Longrightarrow> rootp t \<noteq> Some a" by (cases t) auto

lemma laid_upd [simp]: "x \<notin> set_tree t \<Longrightarrow> laid K (m(x := v)) q t = laid K m q t"
  by (induction t arbitrary: q) auto

text \<open>
  A position in a tree is a subtree with the path from it to the root: on the way up, the parent has
  the subtree on its left (and another on its right) or on its right.
\<close>

datatype crumb = On_left nat "nat tree" | On_right "nat tree" nat

fun plug :: "crumb list \<Rightarrow> nat tree \<Rightarrow> nat tree" where
  "plug [] t = t"
| "plug (On_left a r # p) t = plug p \<langle>t, a, r\<rangle>"
| "plug (On_right l a # p) t = plug p \<langle>l, a, t\<rangle>"

fun top_of :: "crumb list \<Rightarrow> ptr" where
  "top_of [] = None"
| "top_of (On_left a r # p) = Some a"
| "top_of (On_right l a # p) = Some a"

fun laid_path :: "(nat \<Rightarrow> u32) \<Rightarrow> mem \<Rightarrow> ptr \<Rightarrow> crumb list \<Rightarrow> bool" where
  "laid_path K m q [] \<longleftrightarrow> True"
| "laid_path K m q (On_left a r # p) \<longleftrightarrow>
    m a = Some (node K (top_of p) q a (rootp r)) \<and> laid K m (Some a) r \<and> laid_path K m (Some a) p"
| "laid_path K m q (On_right l a # p) \<longleftrightarrow>
    m a = Some (node K (top_of p) (rootp l) a q) \<and> laid K m (Some a) l \<and> laid_path K m (Some a) p"

fun lefts :: "crumb list \<Rightarrow> nat list" where
  "lefts [] = []"
| "lefts (On_left a r # p) = lefts p"
| "lefts (On_right l a # p) = lefts p @ inorder l @ [a]"

fun rights :: "crumb list \<Rightarrow> nat list" where
  "rights [] = []"
| "rights (On_left a r # p) = a # inorder r @ rights p"
| "rights (On_right l a # p) = rights p"

lemma inorder_plug [simp]: "inorder (plug p t) = lefts p @ inorder t @ rights p"
  by (induction p t rule: plug.induct) auto

lemma set_plug [simp]: "set_tree (plug p t) = set (lefts p) \<union> set_tree t \<union> set (rights p)"
  by (induction p t rule: plug.induct) auto

lemma laid_plug: "laid K m None (plug p t) \<longleftrightarrow> laid K m (top_of p) t \<and> laid_path K m (rootp t) p"
  by (induction p t rule: plug.induct) auto

lemma laid_path_upd [simp]:
  "x \<notin> set (lefts p) \<Longrightarrow> x \<notin> set (rights p) \<Longrightarrow> laid_path K (m(x := v)) q p = laid_path K m q p"
  by (induction p arbitrary: q rule: lefts.induct) auto

lemma rootp_plug: "rootp (plug p t) = rootp (plug p u)" if "rootp t = rootp u"
  using that by (induction p t arbitrary: u rule: plug.induct) auto

text \<open>The memory holds the tree, and no address occurs in it twice.\<close>

definition holds_tree :: "(nat \<Rightarrow> u32) \<Rightarrow> mem \<Rightarrow> nat tree \<Rightarrow> bool" where
  "holds_tree K m t \<longleftrightarrow> laid K m None t \<and> distinct (inorder t)"

lemma rotate_left_laid:
  assumes "holds_tree K m (plug p \<langle>l, a, \<langle>l', b, r'\<rangle>\<rangle>)"
  obtains m' where "rotate_left m (Some a) = Some (Some b, m')" "holds_tree K m' (plug p \<langle>\<langle>l, a, l'\<rangle>, b, r'\<rangle>)"
    "m' b = Some (node K (top_of p) (Some a) b (rootp r'))" "\<And>x. x \<notin> set_tree (plug p \<langle>l, a, \<langle>l', b, r'\<rangle>\<rangle>) \<Longrightarrow> m' x = m x"
proof -
  have "\<exists>m'. rotate_left m (Some a) = Some (Some b, m') \<and> laid K m' None (plug p \<langle>\<langle>l, a, l'\<rangle>, b, r'\<rangle>)
    \<and> m' b = Some (node K (top_of p) (Some a) b (rootp r')) \<and> (\<forall>x. x \<notin> set_tree (plug p \<langle>l, a, \<langle>l', b, r'\<rangle>\<rangle>) \<longrightarrow> m' x = m x)"
    using assms unfolding holds_tree_def laid_plug
    by (cases l'; cases p rule: top_of.cases) (auto simp: rotate_left_def laid_plug Let_def)
  with assms that show ?thesis by (auto simp: holds_tree_def)
qed

lemma rotate_right_laid:
  assumes "holds_tree K m (plug p \<langle>\<langle>l', b, r'\<rangle>, a, r\<rangle>)"
  obtains m' where "rotate_right m (Some a) = Some (Some b, m')" "holds_tree K m' (plug p \<langle>l', b, \<langle>r', a, r\<rangle>\<rangle>)"
    "m' b = Some (node K (top_of p) (rootp l') b (Some a))" "\<And>x. x \<notin> set_tree (plug p \<langle>\<langle>l', b, r'\<rangle>, a, r\<rangle>) \<Longrightarrow> m' x = m x"
proof -
  have "\<exists>m'. rotate_right m (Some a) = Some (Some b, m') \<and> laid K m' None (plug p \<langle>l', b, \<langle>r', a, r\<rangle>\<rangle>)
    \<and> m' b = Some (node K (top_of p) (rootp l') b (Some a)) \<and> (\<forall>x. x \<notin> set_tree (plug p \<langle>\<langle>l', b, r'\<rangle>, a, r\<rangle>) \<longrightarrow> m' x = m x)"
    using assms unfolding holds_tree_def laid_plug
    by (cases r'; cases p rule: top_of.cases) (auto simp: rotate_right_def laid_plug Let_def)
  with assms that show ?thesis by (auto simp: holds_tree_def)
qed

subsection \<open>The loops on trees\<close>

text \<open>One turn of the loop that restores the heap above a new entry.\<close>

fun rotated_left :: "(nat \<Rightarrow> u32) \<Rightarrow> nat tree \<Rightarrow> nat \<Rightarrow> nat tree \<Rightarrow> nat tree option" where
  "rotated_left K l a \<langle>l', b, r'\<rangle> = (if pri K a > pri K b then Some \<langle>\<langle>l, a, l'\<rangle>, b, r'\<rangle> else None)"
| "rotated_left K l a \<langle>\<rangle> = None"

fun rotated :: "(nat \<Rightarrow> u32) \<Rightarrow> nat tree \<Rightarrow> nat tree option" where
  "rotated K \<langle>\<langle>l', b, r'\<rangle>, a, r\<rangle> =
    (if pri K a > pri K b then Some \<langle>l', b, \<langle>r', a, r\<rangle>\<rangle> else rotated_left K \<langle>l', b, r'\<rangle> a r)"
| "rotated K \<langle>\<langle>\<rangle>, a, r\<rangle> = rotated_left K \<langle>\<rangle> a r"
| "rotated K \<langle>\<rangle> = None"

fun rotate_all :: "(nat \<Rightarrow> u32) \<Rightarrow> crumb list \<Rightarrow> nat tree \<Rightarrow> nat tree" where
  "rotate_all K [] t = (case rotated K t of None \<Rightarrow> t | Some t' \<Rightarrow> t')"
| "rotate_all K (On_left a r # p) t =
    (case rotated K t of None \<Rightarrow> plug (On_left a r # p) t | Some t' \<Rightarrow> rotate_all K p \<langle>t', a, r\<rangle>)"
| "rotate_all K (On_right l a # p) t =
    (case rotated K t of None \<Rightarrow> plug (On_right l a # p) t | Some t' \<Rightarrow> rotate_all K p \<langle>l, a, t'\<rangle>)"

lemma heavier_laid: "laid K m q t \<Longrightarrow> heavier m (node K q' l a r) (rootp t) = Some (case t of \<langle>\<rangle> \<Rightarrow> False | \<langle>_, b, _\<rangle> \<Rightarrow> pri K a > pri K b)"
  by (cases t) (auto simp: heavier_def)

lemma rotate_up_step:
  assumes "holds_tree K m (plug p t)" "t \<noteq> \<langle>\<rangle>"
  shows "case rotated K t of
      None \<Rightarrow> rotate_up m (rootp t) = Some (None, m)
    | Some t' \<Rightarrow> \<exists>m'. holds_tree K m' (plug p t') \<and> (\<forall>x. x \<notin> set_tree (plug p t) \<longrightarrow> m' x = m x)
        \<and> rotate_up m (rootp t) = (if top_of p = None then Some (rootp t', m') else rotate_up m' (top_of p))"
proof -
  obtain l a r where t: "t = \<langle>l, a, r\<rangle>" using assms(2) by (cases t) auto
  have m: "m a = Some (node K (top_of p) (rootp l) a (rootp r))" "laid K m (Some a) l" "laid K m (Some a) r"
    using assms(1) by (simp_all add: t holds_tree_def laid_plug)
  note h = heavier_laid [OF m(2)] heavier_laid [OF m(3)]
  consider (right) l' b r' where "l = \<langle>l', b, r'\<rangle>" "pri K a > pri K b"
    | (left) l' b r' where "r = \<langle>l', b, r'\<rangle>" "pri K a > pri K b" "\<forall>l1 c r1. l = \<langle>l1, c, r1\<rangle> \<longrightarrow> \<not> pri K a > pri K c"
    | (stop) "\<forall>l1 c r1. l = \<langle>l1, c, r1\<rangle> \<or> r = \<langle>l1, c, r1\<rangle> \<longrightarrow> \<not> pri K a > pri K c"
    by blast
  then show ?thesis
  proof cases
    case right
    from assms(1)[unfolded t right(1)] obtain m' where
      "rotate_right m (Some a) = Some (Some b, m')" "holds_tree K m' (plug p \<langle>l', b, \<langle>r', a, r\<rangle>\<rangle>)"
      "m' b = Some (node K (top_of p) (rootp l') b (Some a))" "\<And>x. x \<notin> set_tree (plug p \<langle>\<langle>l', b, r'\<rangle>, a, r\<rangle>) \<Longrightarrow> m' x = m x"
      by (rule rotate_right_laid) (rule that)
    then show ?thesis
      using m(1) h right by (auto simp: t rotate_up.simps [of m "Some a"] intro!: exI [of _ m'])
  next
    case left
    from assms(1)[unfolded t left(1)] obtain m' where
      "rotate_left m (Some a) = Some (Some b, m')" "holds_tree K m' (plug p \<langle>\<langle>l, a, l'\<rangle>, b, r'\<rangle>)"
      "m' b = Some (node K (top_of p) (Some a) b (rootp r'))" "\<And>x. x \<notin> set_tree (plug p \<langle>l, a, \<langle>l', b, r'\<rangle>\<rangle>) \<Longrightarrow> m' x = m x"
      by (rule rotate_left_laid) (rule that)
    then show ?thesis
      using m(1) h left by (cases l) (auto simp: t rotate_up.simps [of m "Some a"] intro!: exI [of _ m'])
  next
    case stop
    then show ?thesis
      using m(1) h by (cases l; cases r) (simp_all add: t rotate_up.simps [of m "Some a"])
  qed
qed

lemma rotated_plug: "rotated K t = Some t' \<Longrightarrow> inorder t' = inorder t \<and> t' \<noteq> \<langle>\<rangle>"
  by (induction K t rule: rotated.induct) (auto split: if_splits elim!: rotated_left.elims)

lemma rotate_up_laid:
  assumes "holds_tree K m (plug p t)" "t \<noteq> \<langle>\<rangle>"
  shows "\<exists>root m'. rotate_up m (rootp t) = Some (root, m') \<and> holds_tree K m' (rotate_all K p t)
    \<and> (if root \<noteq> None then root else rootp (plug p t)) = rootp (rotate_all K p t)
    \<and> (\<forall>x. x \<notin> set_tree (plug p t) \<longrightarrow> m' x = m x)"
  using assms
proof (induction p arbitrary: m t)
  case Nil
  show ?case
  proof (cases "rotated K t")
    case (Some u)
    with rotate_up_step [OF Nil] rotated_plug [OF Some] show ?thesis by (auto intro!: exI [of _ "rootp u"])
  qed (use rotate_up_step [OF Nil] Nil in auto)
next
  case (Cons c p)
  show ?case
  proof (cases "rotated K t")
    case None
    with rotate_up_step [OF Cons.prems] Cons.prems show ?thesis by (cases c) auto
  next
    case (Some t')
    define u where "u = plug [c] t'"
    have u: "plug (c # p) t' = plug p u" "rotate_all K (c # p) t = rotate_all K p u" "u \<noteq> \<langle>\<rangle>"
        "top_of (c # p) = rootp u" "rootp (plug (c # p) t) = rootp (plug p u)"
      using Some rootp_plug [of "plug [c] t" u p] by (cases c; simp add: u_def)+
    from rotate_up_step [OF Cons.prems] Some obtain m1 where
      m1: "holds_tree K m1 (plug p u)" "\<forall>x. x \<notin> set_tree (plug (c # p) t) \<longrightarrow> m1 x = m x"
        "rotate_up m (rootp t) = rotate_up m1 (rootp u)"
      using u by (auto split: if_splits)
    have "set_tree (plug p u) = set_tree (plug (c # p) t)"
      unfolding u(1) [symmetric] set_inorder [symmetric] inorder_plug using rotated_plug [OF Some] by simp
    moreover from Cons.IH [OF m1(1) u(3)] obtain root m2 where
      "rotate_up m1 (rootp u) = Some (root, m2)" "holds_tree K m2 (rotate_all K p u)"
      "(if root \<noteq> None then root else rootp (plug p u)) = rootp (rotate_all K p u)"
      "\<forall>x. x \<notin> set_tree (plug p u) \<longrightarrow> m2 x = m1 x" by blast
    ultimately show ?thesis using m1(2,3) u(2,5) by (intro exI [of _ root] exI [of _ m2]) (simp split: if_splits)
  qed
qed

subsection \<open>Heap order\<close>

text \<open>Heap order, ignoring the entry \<open>x\<close> (\<open>heap_ok\<close> ignores none).\<close>

fun heap_but :: "(nat \<Rightarrow> u32) \<Rightarrow> nat option \<Rightarrow> nat tree \<Rightarrow> bool" where
  "heap_but K x \<langle>\<rangle> \<longleftrightarrow> True"
| "heap_but K x \<langle>l, a, r\<rangle> \<longleftrightarrow>
    (\<forall>d \<in> set_tree l \<union> set_tree r. x = Some a \<or> x = Some d \<or> pri K a \<le> pri K d) \<and> heap_but K x l \<and> heap_but K x r"

fun path_but :: "(nat \<Rightarrow> u32) \<Rightarrow> nat option \<Rightarrow> crumb list \<Rightarrow> nat set \<Rightarrow> bool" where
  "path_but K x [] S \<longleftrightarrow> True"
| "path_but K x (On_left a r # p) S \<longleftrightarrow>
    (\<forall>d \<in> S \<union> set_tree r. x = Some a \<or> x = Some d \<or> pri K a \<le> pri K d) \<and> heap_but K x r \<and> path_but K x p (insert a (S \<union> set_tree r))"
| "path_but K x (On_right l a # p) S \<longleftrightarrow>
    (\<forall>d \<in> S \<union> set_tree l. x = Some a \<or> x = Some d \<or> pri K a \<le> pri K d) \<and> heap_but K x l \<and> path_but K x p (insert a (S \<union> set_tree l))"

abbreviation heap_ok :: "(nat \<Rightarrow> u32) \<Rightarrow> nat tree \<Rightarrow> bool" where
  "heap_ok K t \<equiv> heap_but K None t"

lemma heap_plug: "heap_but K x (plug p t) \<longleftrightarrow> heap_but K x t \<and> path_but K x p (set_tree t)"
  by (induction p t rule: plug.induct) (auto simp: insert_commute Un_commute)

lemma path_mono: "path_but K x p S \<Longrightarrow> S' \<subseteq> S \<Longrightarrow> path_but K x p S'"
proof (induction p S arbitrary: S' rule: path_but.induct)
  case (2 K x a r p S)
  have "insert a (S' \<union> set_tree r) \<subseteq> insert a (S \<union> set_tree r)" using 2(3) by auto
  with 2 show ?case by auto
next
  case (3 K x l a p S)
  have "insert a (S' \<union> set_tree l) \<subseteq> insert a (S \<union> set_tree l)" using 3(3) by auto
  with 3 show ?case by auto
qed simp

lemma heap_other [simp]: "x \<notin> set_tree t \<Longrightarrow> heap_but K (Some x) t = heap_ok K t"
  by (induction t) auto

text \<open>An entry that is not lighter than one below all ancestors is no exception to them.\<close>

lemma path_fits:
  assumes "path_but K (Some x) p S" "b \<in> S" "b \<noteq> x" "pri K b \<le> pri K x" "x \<notin> set (lefts p) \<union> set (rights p)"
  shows "path_but K None p S"
  using assms
proof (induction K "Some x" p S rule: path_but.induct)
  case (2 K a r p S)
  have "pri K a \<le> pri K d" if "d \<in> S \<union> set_tree r" for d
    using 2(2-6) that by (cases "d = x") (auto intro: order_trans)
  with 2 show ?case by auto
next
  case (3 K l a p S)
  have "pri K a \<le> pri K d" if "d \<in> S \<union> set_tree l" for d
    using 3(2-6) that by (cases "d = x") (auto intro: order_trans)
  with 3 show ?case by auto
qed simp

text \<open>A new entry \<open>x\<close>, light on top of its own subtree, rises to its place.\<close>

lemma rotate_all_inorder: "inorder (rotate_all K p t) = lefts p @ inorder t @ rights p"
  by (induction K p t rule: rotate_all.induct) (auto dest: rotated_plug split: option.split)

definition rising :: "(nat \<Rightarrow> u32) \<Rightarrow> nat \<Rightarrow> nat tree \<Rightarrow> bool" where
  "rising K x t \<longleftrightarrow> (\<exists>l r. t = \<langle>l, x, r\<rangle> \<and> (\<forall>d \<in> set_tree l \<union> set_tree r. pri K x \<le> pri K d))"

lemma rotated_rising:
  assumes "heap_but K (Some x) t" "distinct (inorder t)" "t = \<langle>l, a, r\<rangle>" "rising K x l \<or> rising K x r"
  shows "case rotated K t of
      None \<Rightarrow> pri K a \<le> pri K x \<and> heap_ok K t
    | Some t' \<Rightarrow> rising K x t' \<and> heap_but K (Some x) t'"
proof (cases "rising K x l")
  case True
  then obtain l' r' where l: "l = \<langle>l', x, r'\<rangle>" by (auto simp: rising_def)
  then have "\<not> pri K a > pri K b" if "b \<in> set_tree r" for b
    using assms that by (auto simp: not_less)
  then have "rotated_left K l a r = None" by (cases r) auto
  with True l assms show ?thesis by (auto simp: rising_def not_less)
next
  case False
  then obtain l' r' where r: "r = \<langle>l', x, r'\<rangle>" using assms(4) by (auto simp: rising_def)
  then have "\<not> pri K a > pri K b" if "b \<in> set_tree l" for b
    using assms that by (auto simp: not_less)
  then have "rotated K t = rotated_left K l a r" by (cases l) (auto simp: assms(3))
  with False r assms show ?thesis by (auto simp: rising_def not_less)
qed

lemma rotate_all_heap:
  assumes "heap_but K (Some x) (plug p t)" "distinct (inorder (plug p t))" "t = \<langle>l, a, r\<rangle>" "rising K x l \<or> rising K x r"
  shows "heap_ok K (rotate_all K p t)"
  using assms
proof (induction p arbitrary: t l a r)
  case Nil
  note s = rotated_rising [OF Nil(1) [simplified] Nil(2) [simplified] Nil(3,4)]
  show ?case
  proof (cases "rotated K t")
    case (Some u)
    with s have "rising K x u" "heap_but K (Some x) u" by simp_all
    moreover have "distinct (inorder u)" using rotated_plug [OF Some] Nil(2) by simp
    ultimately have "heap_ok K u" by (auto simp: rising_def)
    with Some show ?thesis by simp
  qed (use s in simp)
next
  case (Cons c p)
  have h: "heap_but K (Some x) t" "path_but K (Some x) (c # p) (set_tree t)" "distinct (inorder t)"
    using Cons.prems(1,2) unfolding heap_plug by simp_all
  note s = rotated_rising [OF h(1,3) Cons.prems(3,4)]
  show ?case
  proof (cases "rotated K t")
    case None
    with s have k: "pri K a \<le> pri K x" "heap_ok K t" by simp_all
    have x: "x \<in> set_tree t" "a \<in> set_tree t" "a \<noteq> x" using Cons.prems(3,4) h(3) by (auto simp: rising_def)
    then have "x \<notin> set (lefts (c # p)) \<union> set (rights (c # p))" using Cons.prems(2) by auto
    from path_fits [OF h(2) x(2,3) k(1) this] k(2) have "heap_ok K (plug (c # p) t)" by (simp add: heap_plug)
    with None show ?thesis by (cases c) simp_all
  next
    case (Some t')
    have "set_tree t' = set_tree t" using rotated_plug [OF Some] by (metis set_inorder)
    then have "heap_but K (Some x) (plug (c # p) t')" using Some s h(2) by (simp add: heap_plug)
    moreover have "distinct (inorder (plug (c # p) t'))" using Cons.prems(2) rotated_plug [OF Some] by simp
    ultimately show ?thesis
      using Cons.IH [of "plug [c] t'"] Some s by (cases c) auto
  qed
qed

subsection \<open>Finding the place of a key\<close>

fun locate :: "(nat \<Rightarrow> u32) \<Rightarrow> u32 \<Rightarrow> crumb list \<Rightarrow> nat tree \<Rightarrow> crumb list option" where
  "locate K k p \<langle>\<rangle> = Some p"
| "locate K k p \<langle>l, a, r\<rangle> =
    (if k = K a then None else if k < K a then locate K k (On_left a r # p) l else locate K k (On_right l a # p) r)"

fun pos_of :: "crumb list option \<Rightarrow> position" where
  "pos_of (Some (On_left a r # p)) = Left_of (Some a)"
| "pos_of (Some (On_right l a # p)) = Right_of (Some a)"
| "pos_of _ = Same_key"

lemma insert_position_laid:
  "laid K m q t \<Longrightarrow> t \<noteq> \<langle>\<rangle> \<Longrightarrow> insert_position m k (rootp t) = Some (pos_of (locate K k p t))"
proof (induction t arbitrary: q p)
  case (Node l a r)
  from Node.prems Node.IH(1) [of "Some a" "On_left a r # p"] Node.IH(2) [of "Some a" "On_right l a # p"] show ?case
    by (cases l; cases r) (auto simp: insert_position.simps [of m k "Some a"])
qed simp

abbreviation keys_ok :: "(nat \<Rightarrow> u32) \<Rightarrow> nat list \<Rightarrow> bool" where
  "keys_ok K xs \<equiv> sorted_wrt (<) (map K xs)"

lemma locate_Some:
  "locate K k p t = Some p' \<Longrightarrow> plug p' \<langle>\<rangle> = plug p t \<and> (p' = [] \<longrightarrow> p = [] \<and> t = \<langle>\<rangle>)"
  by (induction K k p t rule: locate.induct) (auto split: if_splits)

lemma keys_Node:
  assumes "keys_ok K (inorder \<langle>l, a, r\<rangle>)"
  shows "\<forall>x \<in> set_tree l. K x < K a" "\<forall>x \<in> set_tree r. K a < K x" "keys_ok K (inorder l)" "keys_ok K (inorder r)"
  using assms by (simp_all add: sorted_wrt_append)

lemma locate_between:
  assumes "locate K k p t = Some p'" "keys_ok K (inorder t)"
    "\<forall>a \<in> set (lefts p). K a < k" "\<forall>a \<in> set (rights p). k < K a"
  shows "(\<forall>a \<in> set (lefts p'). K a < k) \<and> (\<forall>a \<in> set (rights p'). k < K a)"
  using assms
proof (induction K k p t rule: locate.induct)
  case (2 K k p l a r)
  note o = keys_Node [OF 2(4)]
  have ne: "k \<noteq> K a" using 2(3) by auto
  show ?case
  proof (cases "k < K a")
    case True
    then have "\<forall>x \<in> set (rights (On_left a r # p)). k < K x" using o(2) 2(6) by auto
    with 2(1) [OF ne True _ o(3)] 2(3,5) True ne show ?thesis by simp
  next
    case False
    then have "k > K a" using ne by simp
    then have "\<forall>x \<in> set (lefts (On_right l a # p)). K x < k" using o(1) 2(5) by auto
    with 2(2) [OF ne False _ o(4)] 2(3,6) False ne show ?thesis by simp
  qed
qed simp

lemma locate_None: "locate K k p t = None \<Longrightarrow> k \<in> K ` set_tree t"
  by (induction K k p t rule: locate.induct) (auto split: if_splits)

text \<open>The association that the tree stands for.\<close>

definition entries_of :: "(nat \<Rightarrow> u32) \<Rightarrow> nat tree \<Rightarrow> u32 \<Rightarrow> nat option" where
  "entries_of K t = map_of (map (\<lambda>a. (K a, a)) (inorder t))"

lemma keys_inj: "keys_ok K xs \<Longrightarrow> inj_on K (set xs) \<and> distinct xs"
  using strict_sorted_iff [of "map K xs"] by (simp add: distinct_map)

lemma entries_None [simp]: "entries_of K t k = None \<longleftrightarrow> k \<notin> K ` set_tree t"
  by (simp add: entries_of_def map_of_eq_None_iff image_comp comp_def)

lemma entries_Some:
  assumes "keys_ok K (inorder t)"
  shows "entries_of K t k = Some a \<longleftrightarrow> a \<in> set_tree t \<and> K a = k"
proof -
  have "distinct (map fst (map (\<lambda>a. (K a, a)) (inorder t)))"
    using keys_inj [OF assms] by (simp add: distinct_map comp_def)
  then show ?thesis by (auto simp: entries_of_def image_iff)
qed

lemma entries_Node:
  "entries_of K \<langle>l, a, r\<rangle> k = (if k \<in> K ` set_tree l then entries_of K l k else if k = K a then Some a else entries_of K r k)"
proof (cases "entries_of K l k")
  case None
  moreover from None have "k \<notin> K ` set_tree l" by simp
  ultimately show ?thesis by (simp add: entries_of_def map_add_def)
next
  case (Some x)
  moreover from Some have "k \<in> K ` set_tree l" using entries_None [of K l k] by auto
  ultimately show ?thesis by (simp add: entries_of_def map_add_def)
qed

lemma find_loop_laid:
  "laid K m q t \<Longrightarrow> keys_ok K (inorder t) \<Longrightarrow> find_loop m k (rootp t) = Some (entries_of K t k)"
proof (induction t arbitrary: q)
  case Leaf
  show ?case by (subst find_loop.simps) (simp add: entries_of_def)
next
  case (Node l a r)
  note o = keys_Node [OF Node.prems(2)]
  consider "k < K a" | "k = K a" | "k > K a" by fastforce
  then show ?case
  proof cases
    case 1
    then have "k \<notin> K ` set_tree r" using o(2) by auto
    then have "entries_of K \<langle>l, a, r\<rangle> k = entries_of K l k"
      using 1 entries_None [of K l k] entries_None [of K r k] by (cases "k \<in> K ` set_tree l") (auto simp: entries_Node simp del: entries_None)
    with 1 Node.prems(1) Node.IH(1) [of "Some a", OF _ o(3)] show ?thesis by (simp add: find_loop.simps [of m k "Some a"])
  next
    case 2
    then have "k \<notin> K ` set_tree l" using o by auto
    with 2 Node.prems(1) show ?thesis by (simp add: find_loop.simps [of m "K a" "Some a"] entries_Node)
  next
    case 3
    then have "k \<notin> K ` set_tree l" using o(1) by auto
    moreover have n: "\<not> k < K a" "k \<noteq> K a" using 3 by auto
    ultimately have "entries_of K \<langle>l, a, r\<rangle> k = entries_of K r k" by (simp add: entries_Node)
    moreover have "find_loop m k (Some a) = find_loop m k (rootp r)"
      using Node.prems(1) 3 n(1) by (subst find_loop.simps) simp
    ultimately show ?thesis using Node.prems(1) Node.IH(2) [of "Some a", OF _ o(4)] by simp
  qed
qed


subsection \<open>Removal\<close>

lemma rootp_plug_path: "p \<noteq> [] \<Longrightarrow> rootp (plug p t) = rootp (plug p u)"
  by (cases p rule: top_of.cases) (auto intro: rootp_plug)

lemma unlink_laid:
  assumes "holds_tree K m (plug p \<langle>l, a, r\<rangle>)" "c = r \<and> l = \<langle>\<rangle> \<or> c = l \<and> r = \<langle>\<rangle>"
  obtains m' where
    "unlink m (rootp (plug p \<langle>l, a, r\<rangle>)) (Some a) (node K (top_of p) (rootp l) a (rootp r)) (rootp c) = Some (rootp (plug p c), m')"
    "holds_tree K m' (plug p c)" "\<And>x. x \<notin> set_tree (plug p \<langle>l, a, r\<rangle>) \<Longrightarrow> m' x = m x"
proof -
  have n: "rootp (plug q t) = rootp (plug q u)" if "q = x # xs" for q x xs t u
    using that rootp_plug_path [of q] by simp
  have "\<exists>m'. unlink m (rootp (plug p \<langle>l, a, r\<rangle>)) (Some a) (node K (top_of p) (rootp l) a (rootp r)) (rootp c) = Some (rootp (plug p c), m')
    \<and> laid K m' None (plug p c) \<and> (\<forall>x. x \<notin> set_tree (plug p \<langle>l, a, r\<rangle>) \<longrightarrow> m' x = m x)"
    using assms unfolding holds_tree_def laid_plug
    by (cases c; cases p rule: top_of.cases)
      (auto simp: unlink_def laid_plug simp del: plug.simps(2,3) intro: n)
  with assms that show ?thesis by (auto simp: holds_tree_def)
qed

lemma path_other:
  "x \<notin> S \<Longrightarrow> x \<notin> set (lefts p) \<union> set (rights p) \<Longrightarrow> path_but K (Some x) p S = path_but K None p S"
  by (induction K "Some x" p S rule: path_but.induct) auto

lemma heap_unlinked:
  assumes "heap_but K (Some a) (plug p \<langle>l, a, r\<rangle>)" "distinct (inorder (plug p \<langle>l, a, r\<rangle>))" "c = l \<or> c = r"
  shows "heap_ok K (plug p c)"
proof -
  have h: "heap_but K (Some a) c" "path_but K (Some a) p (set_tree \<langle>l, a, r\<rangle>)"
    using assms(1,3) unfolding heap_plug by auto
  have a: "a \<notin> set_tree c" "a \<notin> set (lefts p) \<union> set (rights p)" using assms(2,3) by auto
  have "path_but K (Some a) p (set_tree c)" by (rule path_mono [OF h(2)]) (use assms(3) in auto)
  with h(1) a show ?thesis by (simp add: heap_plug path_other)
qed

lemma heap_down_right:
  assumes "heap_but K (Some a) (plug p \<langle>\<langle>l', b, r'\<rangle>, a, \<langle>l'', d, r''\<rangle>\<rangle>)" "pri K b < pri K d"
    "distinct (inorder (plug p \<langle>\<langle>l', b, r'\<rangle>, a, \<langle>l'', d, r''\<rangle>\<rangle>))"
  shows "heap_but K (Some a) (plug (On_right l' b # p) \<langle>r', a, \<langle>l'', d, r''\<rangle>\<rangle>)"
proof -
  have "set_tree \<langle>l', b, \<langle>r', a, \<langle>l'', d, r''\<rangle>\<rangle>\<rangle> = set_tree \<langle>\<langle>l', b, r'\<rangle>, a, \<langle>l'', d, r''\<rangle>\<rangle>" by auto
  with assms show ?thesis unfolding heap_plug plug.simps by (auto intro: order_trans [OF less_imp_le])
qed

lemma heap_down_left:
  assumes "heap_but K (Some a) (plug p \<langle>\<langle>l', b, r'\<rangle>, a, \<langle>l'', d, r''\<rangle>\<rangle>)" "\<not> pri K b < pri K d"
    "distinct (inorder (plug p \<langle>\<langle>l', b, r'\<rangle>, a, \<langle>l'', d, r''\<rangle>\<rangle>))"
  shows "heap_but K (Some a) (plug (On_left d r'' # p) \<langle>\<langle>l', b, r'\<rangle>, a, l''\<rangle>)"
proof -
  have "set_tree \<langle>\<langle>\<langle>l', b, r'\<rangle>, a, l''\<rangle>, d, r''\<rangle> = set_tree \<langle>\<langle>l', b, r'\<rangle>, a, \<langle>l'', d, r''\<rangle>\<rangle>" by auto
  with assms show ?thesis unfolding heap_plug plug.simps by (auto simp: not_less intro: order_trans)
qed

text \<open>One turn of the loop with two children: the rotation towards the lighter one.\<close>

definition bubble_step :: "(nat \<Rightarrow> u32) \<Rightarrow> nat \<Rightarrow> mem \<Rightarrow> crumb list \<Rightarrow> nat tree \<Rightarrow> nat tree \<Rightarrow> bool" where
  "bubble_step K a m p l r \<longleftrightarrow>
    (\<exists>m1 p1 l1 r1. holds_tree K m1 (plug p1 \<langle>l1, a, r1\<rangle>) \<and> heap_but K (Some a) (plug p1 \<langle>l1, a, r1\<rangle>)
      \<and> size l1 + size r1 < size l + size r
      \<and> lefts p1 @ inorder l1 @ inorder r1 @ rights p1 = lefts p @ inorder l @ inorder r @ rights p
      \<and> (\<forall>x. x \<notin> set_tree (plug p \<langle>l, a, r\<rangle>) \<longrightarrow> m1 x = m x) \<and> set_tree (plug p1 \<langle>l1, a, r1\<rangle>) = set_tree (plug p \<langle>l, a, r\<rangle>)
      \<and> bubble_out m (rootp (plug p \<langle>l, a, r\<rangle>)) (Some a) = bubble_out m1 (rootp (plug p1 \<langle>l1, a, r1\<rangle>)) (Some a))"

lemma bubble_step_two:
  assumes "holds_tree K m (plug p \<langle>l, a, r\<rangle>)" "heap_but K (Some a) (plug p \<langle>l, a, r\<rangle>)"
    and lr: "l = \<langle>l', b, r'\<rangle>" "r = \<langle>l'', d', r''\<rangle>"
  shows "bubble_step K a m p l r"
proof -
  let ?t = "plug p \<langle>l, a, r\<rangle>"
  have d: "distinct (inorder ?t)" using assms(1) by (simp add: holds_tree_def)
  have m: "m a = Some (node K (top_of p) (Some b) a (Some d'))"
      "m b = Some (node K (Some a) (rootp l') b (rootp r'))" "m d' = Some (node K (Some a) (rootp l'') d' (rootp r''))"
    using assms(1) by (simp_all add: holds_tree_def laid_plug lr)
  have root: "(if top_of p = None then rootp u else rootp ?t) = rootp (plug p u)" for u
    by (cases "p = []") (auto intro: rootp_plug_path elim: top_of.elims)
  show ?thesis
  proof (cases "pri K b < pri K d'")
    case True
    obtain m1 where r: "rotate_right m (Some a) = Some (Some b, m1)" "holds_tree K m1 (plug (On_right l' b # p) \<langle>r', a, r\<rangle>)"
      "m1 b = Some (node K (top_of p) (rootp l') b (Some a))" "\<And>x. x \<notin> set_tree ?t \<Longrightarrow> m1 x = m x"
      using rotate_right_laid assms(1) unfolding lr(1) by (metis plug.simps(3))
    have "bubble_out m X (Some a) = bubble_out m1 (if top_of p = None then Some b else X) (Some a)" for X
      using m r(1,3) True by (subst bubble_out.simps) (simp add: Let_def)
    with root [of "\<langle>l', b, \<langle>r', a, r\<rangle>\<rangle>"] r(2,4) heap_down_right [OF assms(2) [unfolded lr] True d [unfolded lr]] show ?thesis
      unfolding bubble_step_def
      by (intro exI [of _ m1] exI [of _ "On_right l' b # p"] exI [of _ r'] exI [of _ r]) (auto simp: lr)
  next
    case False
    obtain m1 where r: "rotate_left m (Some a) = Some (Some d', m1)" "holds_tree K m1 (plug (On_left d' r'' # p) \<langle>l, a, l''\<rangle>)"
      "m1 d' = Some (node K (top_of p) (Some a) d' (rootp r''))" "\<And>x. x \<notin> set_tree ?t \<Longrightarrow> m1 x = m x"
      using rotate_left_laid assms(1) unfolding lr(2) by (metis plug.simps(2))
    have "bubble_out m X (Some a) = bubble_out m1 (if top_of p = None then Some d' else X) (Some a)" for X
      using m r(1,3) False by (subst bubble_out.simps) (simp add: Let_def)
    with root [of "\<langle>\<langle>l, a, l''\<rangle>, d', r''\<rangle>"] r(2,4) heap_down_left [OF assms(2) [unfolded lr] False d [unfolded lr]] show ?thesis
      unfolding bubble_step_def
      by (intro exI [of _ m1] exI [of _ "On_left d' r'' # p"] exI [of _ l] exI [of _ l'']) (auto simp: lr)
  qed
qed

lemma bubble_out_laid:
  assumes "holds_tree K m (plug p \<langle>l, a, r\<rangle>)" "heap_but K (Some a) (plug p \<langle>l, a, r\<rangle>)"
  shows "\<exists>m' t'. bubble_out m (rootp (plug p \<langle>l, a, r\<rangle>)) (Some a) = Some (rootp t', m') \<and> holds_tree K m' t' \<and> heap_ok K t'
    \<and> inorder t' = lefts p @ inorder l @ inorder r @ rights p \<and> (\<forall>x. x \<notin> set_tree (plug p \<langle>l, a, r\<rangle>) \<longrightarrow> m' x = m x)"
  using assms
proof (induction "size l + size r" arbitrary: m p l r rule: less_induct)
  case less
  let ?t = "plug p \<langle>l, a, r\<rangle>"
  show ?case
  proof (cases "l = \<langle>\<rangle> \<or> r = \<langle>\<rangle>")
    case True
    define c where "c = (if l = \<langle>\<rangle> then r else l)"
    have c: "c = r \<and> l = \<langle>\<rangle> \<or> c = l \<and> r = \<langle>\<rangle>" using True by (auto simp: c_def)
    have e: "distinct (inorder ?t)" "m a = Some (node K (top_of p) (rootp l) a (rootp r))"
      using less.prems(1) by (simp_all add: holds_tree_def laid_plug)
    obtain m' where u: "unlink m (rootp ?t) (Some a) (node K (top_of p) (rootp l) a (rootp r)) (rootp c) = Some (rootp (plug p c), m')"
      "holds_tree K m' (plug p c)" "\<And>x. x \<notin> set_tree ?t \<Longrightarrow> m' x = m x" using unlink_laid [OF less.prems(1) c] by blast
    have "bubble_out m (rootp ?t) (Some a) = Some (rootp (plug p c), m')"
      using u(1) e(2) True by (subst bubble_out.simps) (auto simp: c_def split: if_splits)
    moreover have "heap_ok K (plug p c)" using heap_unlinked [OF less.prems(2) e(1)] c by blast
    moreover have "inorder (plug p c) = lefts p @ inorder l @ inorder r @ rights p" using c by auto
    ultimately show ?thesis using u(2,3) by blast
  next
    case False
    then have "bubble_step K a m p l r" using bubble_step_two [OF less.prems] by (metis tree.exhaust)
    then obtain m1 p1 l1 r1 where s: "holds_tree K m1 (plug p1 \<langle>l1, a, r1\<rangle>)" "heap_but K (Some a) (plug p1 \<langle>l1, a, r1\<rangle>)"
      "size l1 + size r1 < size l + size r"
      and e: "lefts p1 @ inorder l1 @ inorder r1 @ rights p1 = lefts p @ inorder l @ inorder r @ rights p"
        "\<forall>x. x \<notin> set_tree ?t \<longrightarrow> m1 x = m x" "set_tree (plug p1 \<langle>l1, a, r1\<rangle>) = set_tree ?t"
        "bubble_out m (rootp ?t) (Some a) = bubble_out m1 (rootp (plug p1 \<langle>l1, a, r1\<rangle>)) (Some a)"
      unfolding bubble_step_def by blast
    from less.hyps [OF s(3,1,2)] show ?thesis unfolding e(1,3,4) using e(2) by metis
  qed
qed

subsection \<open>The operations on a well-formed map\<close>

definition map_ok :: "(nat \<Rightarrow> u32) \<Rightarrow> mem \<Rightarrow> spdylay_map \<Rightarrow> nat tree \<Rightarrow> bool" where
  "map_ok K m mp t \<longleftrightarrow>
    map_root mp = rootp t \<and> map_size mp = size t \<and> holds_tree K m t \<and> keys_ok K (inorder t) \<and> heap_ok K t"

lemma path_add: "path_but K None p S \<Longrightarrow> path_but K (Some x) p (insert x S)"
proof (induction K "None :: nat option" p S rule: path_but.induct)
  case (2 K a r p S)
  have "heap_but K (Some x) r" if "heap_ok K r" for r using that by (induction r) auto
  with 2 show ?case by (auto simp: insert_commute)
next
  case (3 K l a p S)
  have "heap_but K (Some x) r" if "heap_ok K r" for r using that by (induction r) auto
  with 3 show ?case by (auto simp: insert_commute)
qed simp

lemma keys_between:
  assumes "keys_ok K (xs @ ys)" "\<forall>a \<in> set xs. K a < K x" "\<forall>a \<in> set ys. K x < K a"
  shows "keys_ok K (xs @ x # ys)"
  using assms by (simp add: sorted_wrt_append)

definition link_to :: "crumb \<Rightarrow> nat \<Rightarrow> map_entry \<Rightarrow> map_entry" where
  "link_to c x = (case c of On_left _ _ \<Rightarrow> (\<lambda>e. e\<lparr> me_left := Some x \<rparr>) | On_right _ _ \<Rightarrow> (\<lambda>e. e\<lparr> me_right := Some x \<rparr>))"

lemma link_laid:
  assumes "holds_tree K m (plug (c # p) \<langle>\<rangle>)" "m x = Some (spdylay_map_entry_init (K x))" "x \<notin> set_tree (plug (c # p) \<langle>\<rangle>)"
  obtains m1 m2 where "store m (top_of (c # p)) (link_to c x) = Some m1"
    "store m1 (Some x) (\<lambda>e. e\<lparr> me_parent := top_of (c # p) \<rparr>) = Some m2"
    "holds_tree K m2 (plug (c # p) \<langle>\<langle>\<rangle>, x, \<langle>\<rangle>\<rangle>)" "\<And>y. y \<notin> insert x (set_tree (plug (c # p) \<langle>\<rangle>)) \<Longrightarrow> m2 y = m y"
proof -
  have x: "m x = Some (node K None None x None)" using assms(2) by (simp add: spdylay_map_entry_init_def node_def pri_def)
  have "\<exists>m1 m2. store m (top_of (c # p)) (link_to c x) = Some m1 \<and> store m1 (Some x) (\<lambda>e. e\<lparr> me_parent := top_of (c # p) \<rparr>) = Some m2
    \<and> laid K m2 None (plug (c # p) \<langle>\<langle>\<rangle>, x, \<langle>\<rangle>\<rangle>) \<and> distinct (inorder (plug (c # p) \<langle>\<langle>\<rangle>, x, \<langle>\<rangle>\<rangle>))
    \<and> (\<forall>y. y \<notin> insert x (set_tree (plug (c # p) \<langle>\<rangle>)) \<longrightarrow> m2 y = m y)"
    using assms(1,3) x unfolding holds_tree_def laid_plug by (cases c) (auto simp: laid_plug link_to_def)
  with that show ?thesis unfolding holds_tree_def by blast
qed

lemma insert_duplicate:
  assumes "map_ok K m mp t" "m x = Some (spdylay_map_entry_init k)" "k \<in> K ` set_tree t"
  shows "spdylay_map_insert m mp (Some x) = Some (SPDYLAY_ERR_INVALID_ARGUMENT, m, mp)"
proof -
  have t: "t \<noteq> \<langle>\<rangle>" "map_root mp = rootp t" "laid K m None t" "keys_ok K (inorder t)"
    using assms(1,3) by (auto simp: map_ok_def holds_tree_def)
  have "locate K k [] t = None"
  proof (cases "locate K k [] t")
    case (Some p)
    from locate_between [OF this t(4)] locate_Some [OF this] arg_cong [of "plug p \<langle>\<rangle>" t set_tree] assms(3)
    show ?thesis by (auto simp: image_iff)
  qed
  with insert_position_laid [OF t(3,1), of k "[]"] assms(2) t(1,2) show ?thesis
    by (simp add: spdylay_map_insert_def spdylay_map_entry_init_def Let_def)
qed

lemma rotate_all_heap_link:
  assumes "heap_ok K (plug (c # p) \<langle>\<rangle>)" "distinct (inorder (plug p u))" "u = plug [c] \<langle>\<langle>\<rangle>, x, \<langle>\<rangle>\<rangle>"
  shows "heap_ok K (rotate_all K p u)"
proof -
  have "path_but K (Some x) (c # p) {x}" using path_add [of K "c # p" "{}" x] assms(1) by (simp add: heap_plug)
  then have "heap_but K (Some x) (plug p u)"
    using heap_plug [of K "Some x" "c # p" "\<langle>\<langle>\<rangle>, x, \<langle>\<rangle>\<rangle>"] by (cases c) (simp_all add: assms(3))
  moreover obtain l a r where "u = \<langle>l, a, r\<rangle>" "rising K x l \<or> rising K x r"
    using assms(3) by (cases c) (auto simp: rising_def)
  ultimately show ?thesis using rotate_all_heap assms(2) by blast
qed

lemma insert_eval:
  assumes "map_root mp = rootp t" "laid K m None t" "t \<noteq> \<langle>\<rangle>" "m x = Some (spdylay_map_entry_init (K x))"
    "locate K (K x) [] t = Some (c # p)" "store m (top_of (c # p)) (link_to c x) = Some m1"
    "store m1 (Some x) (\<lambda>e. e\<lparr> me_parent := top_of (c # p) \<rparr>) = Some m2" "rotate_up m2 (top_of (c # p)) = Some (root, m')"
  shows "spdylay_map_insert m mp (Some x) =
    Some (0, m', mp\<lparr> map_root := (if root \<noteq> None then root else rootp t), map_size := map_size mp + 1 \<rparr>)"
  using assms insert_position_laid [OF assms(2,3), of "K x" "[]"]
  by (cases c) (simp_all add: spdylay_map_insert_def spdylay_map_entry_init_def Let_def link_to_def)

lemma insert_new:
  assumes "map_ok K m mp t" "m x = Some (spdylay_map_entry_init (K x))" "x \<notin> set_tree t" "K x \<notin> K ` set_tree t"
  shows "\<exists>m' mp' t'. spdylay_map_insert m mp (Some x) = Some (0, m', mp') \<and> map_ok K m' mp' t'
    \<and> set_tree t' = insert x (set_tree t) \<and> (\<forall>y. y \<notin> insert x (set_tree t) \<longrightarrow> m' y = m y)"
proof (cases "t = \<langle>\<rangle>")
  case True
  then show ?thesis
    using assms(1,2)
    by (intro exI [of _ m] exI [of _ "\<lparr> map_root = Some x, map_size = 1 \<rparr>"] exI [of _ "\<langle>\<langle>\<rangle>, x, \<langle>\<rangle>\<rangle>"])
      (simp add: spdylay_map_insert_def map_ok_def holds_tree_def spdylay_map_entry_init_def node_def pri_def)
next
  case False
  have t: "map_root mp = rootp t" "map_size mp = size t" "holds_tree K m t" "keys_ok K (inorder t)" "heap_ok K t"
    using assms(1) by (simp_all add: map_ok_def)
  obtain q where q: "locate K (K x) [] t = Some q" using locate_None assms(4) by (cases "locate K (K x) [] t") auto
  with locate_Some [OF q] False obtain c p where cp: "q = c # p" "plug (c # p) \<langle>\<rangle> = t" by (cases q) auto
  obtain m1 m2 where m: "store m (top_of (c # p)) (link_to c x) = Some m1"
    "store m1 (Some x) (\<lambda>e. e\<lparr> me_parent := top_of (c # p) \<rparr>) = Some m2"
    "holds_tree K m2 (plug (c # p) \<langle>\<langle>\<rangle>, x, \<langle>\<rangle>\<rangle>)" "\<And>y. y \<notin> insert x (set_tree t) \<Longrightarrow> m2 y = m y"
    using link_laid [of K m c p x] assms(2,3) t(3) cp(2) by (metis (no_types, lifting))
  define u where "u = plug [c] \<langle>\<langle>\<rangle>, x, \<langle>\<rangle>\<rangle>"
  have u: "plug (c # p) \<langle>\<langle>\<rangle>, x, \<langle>\<rangle>\<rangle> = plug p u" "u \<noteq> \<langle>\<rangle>" "top_of (c # p) = rootp u" "rootp (plug p u) = rootp t"
    using rootp_plug [of u "plug [c] \<langle>\<rangle>" p] cp(2) by (cases c; simp add: u_def)+
  obtain root m' where r: "rotate_up m2 (rootp u) = Some (root, m')" "holds_tree K m' (rotate_all K p u)"
    "(if root \<noteq> None then root else rootp t) = rootp (rotate_all K p u)" "\<forall>y. y \<notin> set_tree (plug p u) \<longrightarrow> m' y = m2 y"
    using rotate_up_laid [OF m(3) [unfolded u(1)] u(2)] unfolding u(4) by blast
  let ?t = "rotate_all K p u" and ?mp = "mp\<lparr> map_root := (if root \<noteq> None then root else rootp t), map_size := size t + 1 \<rparr>"
  have i: "inorder ?t = lefts (c # p) @ x # rights (c # p)"
    using rotate_all_inorder [of K p u] arg_cong [OF u(1), of inorder] by simp
  have it: "inorder t = lefts (c # p) @ rights (c # p)" using arg_cong [OF cp(2), of inorder] by simp
  have "keys_ok K (inorder ?t)"
    unfolding i by (rule keys_between) (use t(4) it locate_between [OF q t(4)] cp(1) in simp_all)
  moreover have "heap_ok K ?t"
  proof (rule rotate_all_heap_link)
    show "heap_ok K (plug (c # p) \<langle>\<rangle>)" using t(5) cp(2) by simp
  qed (use m(3) u_def u(1) in \<open>simp_all add: holds_tree_def\<close>)
  moreover have "size ?t = size t + 1" using arg_cong [OF i, of length] arg_cong [OF it, of length] by simp
  moreover have "set_tree ?t = insert x (set_tree t)" using arg_cong [OF i, of set] arg_cong [OF it, of set] by auto
  moreover have "spdylay_map_insert m mp (Some x) = Some (0, m', ?mp)"
    using insert_eval [OF t(1) _ False assms(2) q [unfolded cp(1)] m(1,2)] r(1) t(2,3) u(3) by (simp add: holds_tree_def)
  moreover have "set_tree (plug p u) = insert x (set_tree t)" unfolding u(1) [symmetric] cp(2) [symmetric] by simp
  then have "m' y = m y" if "y \<notin> insert x (set_tree t)" for y using that r(4) m(4) by metis
  ultimately show ?thesis using r(2,3) unfolding map_ok_def by (intro exI [of _ m'] exI [of _ ?mp] exI [of _ ?t]) simp
qed

lemma subtree_at: "a \<in> set_tree t \<Longrightarrow> \<exists>p l r. t = plug p \<langle>l, a, r\<rangle>"
proof (induction t)
  case (Node l b r)
  have "plug (p @ [On_left b r]) u = \<langle>plug p u, b, r\<rangle>" "plug (p @ [On_right l b]) u = \<langle>l, b, plug p u\<rangle>" for p u
    by (induction p u rule: plug.induct) auto
  note e = this [symmetric]
  consider "a = b" | "a \<in> set_tree l" | "a \<in> set_tree r" using Node.prems by auto
  then show ?case
  proof cases
    case 1
    then have "\<langle>l, b, r\<rangle> = plug [] \<langle>l, a, r\<rangle>" by simp
    then show ?thesis by blast
  next
    case 2
    with Node.IH(1) obtain p l1 r1 where "l = plug p \<langle>l1, a, r1\<rangle>" by blast
    with e(1) show ?thesis by blast
  next
    case 3
    with Node.IH(2) obtain p l1 r1 where "r = plug p \<langle>l1, a, r1\<rangle>" by blast
    with e(2) show ?thesis by blast
  qed
qed simp

lemma remove_found:
  assumes "map_ok K m mp t" "a \<in> set_tree t"
  shows "\<exists>m' mp' t'. spdylay_map_remove m mp (K a) = Some (0, m', mp') \<and> map_ok K m' mp' t'
    \<and> set_tree t' = set_tree t - {a} \<and> (\<forall>y. y \<notin> set_tree t \<longrightarrow> m' y = m y)"
proof -
  have t: "map_root mp = rootp t" "map_size mp = size t" "holds_tree K m t" "keys_ok K (inorder t)" "heap_ok K t"
    using assms(1) by (simp_all add: map_ok_def)
  obtain p l r where p: "t = plug p \<langle>l, a, r\<rangle>" using subtree_at [OF assms(2)] by blast
  have "heap_but K (Some a) u" if "heap_ok K u" for u using that by (induction u) auto
  with t(5) p have "heap_but K (Some a) (plug p \<langle>l, a, r\<rangle>)" by simp
  from bubble_out_laid [OF _ this, of m] t(3) p obtain m' t' where
    b: "bubble_out m (rootp t) (Some a) = Some (rootp t', m')" "holds_tree K m' t'" "heap_ok K t'"
      "inorder t' = lefts p @ inorder l @ inorder r @ rights p" "\<forall>y. y \<notin> set_tree t \<longrightarrow> m' y = m y" by auto
  have it: "inorder t = (lefts p @ inorder l) @ a # inorder r @ rights p" using p by simp
  have "find_loop m (K a) (rootp t) = Some (Some a)"
    using find_loop_laid [of K m None t] entries_Some [OF t(4), of "K a" a] t(3,4) assms(2) by (simp add: holds_tree_def)
  then have "spdylay_map_remove m mp (K a) = Some (0, m', mp\<lparr> map_root := rootp t', map_size := size t - 1 \<rparr>)"
    using b(1) t(1,2) assms(2) by (cases t) (simp_all add: spdylay_map_remove_def)
  moreover have "size t' = size t - 1" using arg_cong [OF b(4), of length] arg_cong [OF it, of length] by simp
  moreover have "keys_ok K (inorder t')" using t(4) unfolding b(4) it by (auto simp: sorted_wrt_append)
  moreover have "set_tree t' = set_tree t - {a}"
    using arg_cong [OF b(4), of set] t(3) unfolding p holds_tree_def by auto
  ultimately show ?thesis using b(2,3,5) unfolding map_ok_def
    by (intro exI [of _ m'] exI [of _ "mp\<lparr> map_root := rootp t', map_size := size t - 1 \<rparr>"] exI [of _ t']) simp
qed

lemma remove_missing:
  assumes "map_ok K m mp t" "k \<notin> K ` set_tree t"
  shows "spdylay_map_remove m mp k = Some (SPDYLAY_ERR_INVALID_ARGUMENT, m, mp)"
proof -
  have t: "map_root mp = rootp t" "laid K m None t" "keys_ok K (inorder t)"
    using assms(1) by (simp_all add: map_ok_def holds_tree_def)
  with find_loop_laid [OF t(2,3), of k] entries_None [of K t k] assms(2) show ?thesis
    by (simp add: spdylay_map_remove_def)
qed

subsection \<open>Traversal in key order\<close>

abbreviation first :: "nat list \<Rightarrow> ptr" where
  "first xs \<equiv> (case xs of [] \<Rightarrow> None | x # _ \<Rightarrow> Some x)"

lemma find_left_most_laid: "laid K m q t \<Longrightarrow> t \<noteq> \<langle>\<rangle> \<Longrightarrow> find_left_most m (rootp t) = Some (first (inorder t))"
proof (induction t arbitrary: q)
  case (Node l a r)
  show ?case
  proof (cases "l = \<langle>\<rangle>")
    case True
    with Node.prems show ?thesis by (subst find_left_most.simps) simp
  next
    case False
    then have "inorder l \<noteq> []" by simp
    moreover have "find_left_most m (Some a) = find_left_most m (rootp l)"
      using Node.prems(1) False by (subst find_left_most.simps) simp
    ultimately show ?thesis using Node.IH(1) [of "Some a"] Node.prems(1) False by (auto split: list.split)
  qed
qed simp

lemma climb_laid:
  "laid_path K m (Some a) p \<Longrightarrow> m a = Some e \<Longrightarrow> me_parent e = top_of p \<Longrightarrow> distinct (lefts p @ a # rights p) \<Longrightarrow>
   climb m (Some a) (top_of p) = Some (first (rights p))"
proof (induction p arbitrary: a e)
  case Nil
  then show ?case by (subst climb.simps) simp
next
  case (Cons c p)
  show ?case
  proof (cases c)
    case (On_left b r)
    with Cons.prems show ?thesis by (subst climb.simps) auto
  next
    case (On_right l b)
    have "climb m (Some a) (Some b) = climb m (Some b) (top_of p)"
      using Cons.prems On_right by (subst climb.simps) simp
    with Cons.IH [of b] Cons.prems On_right show ?thesis by auto
  qed
qed

lemma traverse_inorder_laid:
  assumes "holds_tree K m t" "inorder t = xs @ a # ys"
  shows "traverse_inorder m (Some a) = Some (first ys)"
proof -
  obtain p l r where p: "t = plug p \<langle>l, a, r\<rangle>" using subtree_at [of a t] assms(2) by (metis in_set_conv_decomp set_inorder)
  have "distinct (xs @ a # ys)" using assms by (simp add: holds_tree_def)
  then have ys: "ys = inorder r @ rights p"
    using assms(2) append_Cons_eq_iff [of a xs ys "lefts p @ inorder l" "inorder r @ rights p"] unfolding p by auto
  have m: "m a = Some (node K (top_of p) (rootp l) a (rootp r))" "laid K m (Some a) r" "laid_path K m (Some a) p"
      "distinct (lefts p @ a # rights p)"
    using assms(1) unfolding p by (auto simp: holds_tree_def laid_plug)
  show ?thesis
  proof (cases "r = \<langle>\<rangle>")
    case True
    with m climb_laid [OF m(3,1) _ m(4)] show ?thesis by (simp add: traverse_inorder_def ys)
  next
    case False
    then have "inorder r \<noteq> []" by simp
    with m(1) find_left_most_laid [OF m(2) False] False show ?thesis by (auto simp: traverse_inorder_def ys split: list.split)
  qed
qed

text \<open>What \<open>spdylay_map_each\<close> means: call \<open>func\<close> on one entry after the other until it returns nonzero.\<close>

fun visit :: "mem \<Rightarrow> (nat \<Rightarrow> map_entry \<Rightarrow> 's \<Rightarrow> int \<times> 's) \<Rightarrow> nat list \<Rightarrow> 's \<Rightarrow> int \<times> 's" where
  "visit m func [] s = (0, s)"
| "visit m func (a # as) s = (let (rv, s) = func a (the (m a)) s in if rv \<noteq> 0 then (rv, s) else visit m func as s)"

lemma laid_mem: "laid K m q t \<Longrightarrow> a \<in> set_tree t \<Longrightarrow> \<exists>e. m a = Some e \<and> me_key e = K a"
  by (induction t arbitrary: q) auto

lemma each_loop_laid:
  assumes "holds_tree K m t" "inorder t = xs @ ys"
  shows "each_loop m func (first ys) s = Some (visit m func ys s)"
  using assms(2)
proof (induction ys arbitrary: xs s)
  case Nil
  then show ?case by (subst each_loop.simps) simp
next
  case (Cons a ys)
  obtain e where e: "m a = Some e"
    using laid_mem [of K m None t a] assms(1) Cons.prems by (metis holds_tree_def in_set_conv_decomp set_inorder)
  obtain rv s' where f: "func a e s = (rv, s')" by fastforce
  from Cons.IH [of "xs @ [a]" s'] Cons.prems e f traverse_inorder_laid [OF assms(1) Cons.prems] show ?case
    by (subst each_loop.simps) simp
qed

lemma each_ok:
  assumes "map_ok K m mp t"
  shows "spdylay_map_each m mp func s = Some (visit m func (inorder t) s)"
proof (cases "t = \<langle>\<rangle>")
  case False
  with assms find_left_most_laid [of K m None t] each_loop_laid [of K m t "[]" "inorder t" func s] show ?thesis
    by (simp add: spdylay_map_each_def map_ok_def holds_tree_def)
qed (use assms in \<open>simp add: spdylay_map_each_def map_ok_def\<close>)

subsection \<open>Freeing every entry\<close>

text \<open>
  While the entries are freed in postorder, the memory still holds the path from the current entry to
  the root and the subtrees to the right of it. \<open>post_rest\<close> lists what is left to free.
\<close>

fun post_rest :: "crumb list \<Rightarrow> nat list" where
  "post_rest [] = []"
| "post_rest (On_left a r # p) = postorder r @ a # post_rest p"
| "post_rest (On_right l a # p) = a # post_rest p"

fun unfreed :: "(nat \<Rightarrow> u32) \<Rightarrow> mem \<Rightarrow> ptr \<Rightarrow> crumb list \<Rightarrow> bool" where
  "unfreed K m q [] \<longleftrightarrow> True"
| "unfreed K m q (On_left a r # p) \<longleftrightarrow>
    m a = Some (node K (top_of p) q a (rootp r)) \<and> laid K m (Some a) r \<and> unfreed K m (Some a) p"
| "unfreed K m q (On_right l a # p) \<longleftrightarrow>
    m a = Some (node K (top_of p) (rootp l) a q) \<and> rootp l \<noteq> q \<and> unfreed K m (Some a) p"

lemma set_post [simp]: "set (postorder t) = set_tree t"
  by (induction t) auto

lemma unfreed_upd [simp]: "x \<notin> set (post_rest p) \<Longrightarrow> unfreed K (m(x := v)) q p = unfreed K m q p"
  by (induction p arbitrary: q rule: post_rest.induct) auto

lemma find_leaf_step:
  assumes "laid K m q \<langle>l, a, r\<rangle>"
  shows "find_left_most_leaf m (Some a) =
    (if l \<noteq> \<langle>\<rangle> then find_left_most_leaf m (rootp l) else if r \<noteq> \<langle>\<rangle> then find_left_most_leaf m (rootp r) else Some (Some a))"
proof (cases "l = \<langle>\<rangle>")
  case True
  have "find_left_most m (Some a) = Some (Some a)" using assms True by (subst find_left_most.simps) simp
  with assms True show ?thesis by (subst find_left_most_leaf.simps) simp
next
  case False
  have "find_left_most m (Some a) = find_left_most m (rootp l)" using assms False by (subst find_left_most.simps) simp
  with False show ?thesis by (subst (1 2) find_left_most_leaf.simps) simp
qed

text \<open>Going down to the first leaf of a subtree.\<close>

lemma descend:
  assumes "laid K m (top_of p) t" "t \<noteq> \<langle>\<rangle>" "unfreed K m (rootp t) p"
  shows "\<exists>x p'. find_left_most_leaf m (rootp t) = Some (Some x) \<and> unfreed K m (Some x) p'
    \<and> m x = Some (node K (top_of p') None x None) \<and> x # post_rest p' = postorder t @ post_rest p"
  using assms
proof (induction t arbitrary: p)
  case (Node l a r)
  note s = find_leaf_step [OF Node.prems(1)]
  show ?case
  proof (cases "l = \<langle>\<rangle>")
    case False
    have "unfreed K m (rootp l) (On_left a r # p)" using Node.prems by simp
    from Node.IH(1) [OF _ False this] Node.prems(1) s False show ?thesis by simp
  next
    case l: True
    show ?thesis
    proof (cases "r = \<langle>\<rangle>")
      case False
      then have "unfreed K m (rootp r) (On_right l a # p)" using Node.prems l by simp
      from Node.IH(2) [OF _ False this] Node.prems(1) s False l show ?thesis by simp
    next
      case True
      with l s Node.prems show ?thesis by (intro exI [of _ a] exI [of _ p]) simp
    qed
  qed
qed simp

lemma each_free_laid:
  assumes "m a = Some e" "me_parent e = top_of p" "unfreed K m (Some a) p" "distinct (a # post_rest p)"
  shows "each_free_loop m (Some a) acc = Some (acc @ a # post_rest p, m |` (- set (a # post_rest p)))"
  using assms
proof (induction "length (post_rest p)" arbitrary: m a e p acc rule: less_induct)
  case less
  let ?m = "m(a := None)"
  have u: "unfreed K ?m (Some a) p" using less.prems by simp
  have step: "each_free_loop m (Some a) acc =
      Option.bind (traverse_postorder ?m (top_of p) (Some a)) (\<lambda>q. each_free_loop ?m q (acc @ [a]))"
    using less.prems(1,2) by (subst each_free_loop.simps) (simp add: Let_def)
  have fin: ?case
    if "traverse_postorder ?m (top_of p) (Some a) = Some (Some x)" "?m x = Some e'" "me_parent e' = top_of p'"
      "unfreed K ?m (Some x) p'" "x # post_rest p' = post_rest p" for x e' p'
  proof -
    have "distinct (x # post_rest p')" "length (post_rest p') < length (post_rest p)"
      using less.prems(4) that(5) by (metis distinct.simps(2), metis length_Cons lessI)
    from less.hyps [OF this(2) that(2-4) this(1), of "acc @ [a]"] that(1,5) show ?thesis
      by (simp add: step restrict_map_def fun_eq_iff)
  qed
  show ?case
  proof (cases p rule: top_of.cases)
    case 1
    have "traverse_postorder ?m None (Some a) = Some None" by (simp add: traverse_postorder_def)
    then have "each_free_loop m (Some a) acc = each_free_loop ?m None (acc @ [a])" using step 1 by simp
    also have "\<dots> = Some (acc @ [a], ?m)" by (subst each_free_loop.simps) simp
    finally show ?thesis using 1 by (auto simp: restrict_map_def fun_eq_iff)
  next
    case (2 b r q)
    show ?thesis
    proof (cases "r = \<langle>\<rangle>")
      case True
      with 2 u show ?thesis by (intro fin [of b "node K (top_of q) (Some a) b None" q]) (simp_all add: traverse_postorder_def)
    next
      case False
      have ne: "rootp r \<noteq> Some a" using less.prems(4) 2 by (intro rootp_other) simp
      have "unfreed K ?m (rootp r) (On_right \<langle>\<langle>\<rangle>, a, \<langle>\<rangle>\<rangle> b # q)" using u 2 ne by simp
      from descend [OF _ False this] u 2 obtain x p' where "find_left_most_leaf ?m (rootp r) = Some (Some x)"
        "unfreed K ?m (Some x) p'" "?m x = Some (node K (top_of p') None x None)" "x # post_rest p' = postorder r @ b # post_rest q"
        by auto
      with 2 u False show ?thesis by (intro fin [of x "node K (top_of p') None x None" p']) (simp_all add: traverse_postorder_def)
    qed
  next
    case (3 l b q)
    with u show ?thesis by (intro fin [of b "node K (top_of q) (rootp l) b (Some a)" q]) (simp_all add: traverse_postorder_def)
  qed
qed

lemma distinct_post: "distinct (postorder t) \<longleftrightarrow> distinct (inorder t)"
  by (induction t) auto

lemma each_free_ok:
  assumes "map_ok K m mp t"
  shows "spdylay_map_each_free m mp = Some (postorder t, m |` (- set_tree t), mp\<lparr> map_root := None \<rparr>)"
proof (cases "t = \<langle>\<rangle>")
  case True
  have "m |` (- {}) = m" by (simp add: restrict_map_def fun_eq_iff)
  with True assms show ?thesis by (cases mp) (simp add: spdylay_map_each_free_def map_ok_def)
next
  case False
  from descend [of K m "[]" t] False assms obtain x p where d: "find_left_most_leaf m (rootp t) = Some (Some x)"
    "unfreed K m (Some x) p" "m x = Some (node K (top_of p) None x None)" "x # post_rest p = postorder t"
    by (auto simp: map_ok_def holds_tree_def)
  have "distinct (x # post_rest p)" using assms d(4) distinct_post [of t] by (simp add: map_ok_def holds_tree_def)
  from each_free_laid [OF d(3) _ d(2) this, of "[]"] d(4) arg_cong [OF d(4), of set]
  have "each_free_loop m (Some x) [] = Some (postorder t, m |` (- set_tree t))" by simp
  with d(1) assms False show ?thesis by (simp add: spdylay_map_each_free_def map_ok_def)
qed

subsection \<open>The map as a finite function\<close>

text \<open>Some choice of keys and some tree make the memory a well-formed map with the bindings \<open>f\<close>.\<close>

definition map_rep :: "mem \<Rightarrow> spdylay_map \<Rightarrow> (u32 \<rightharpoonup> nat) \<Rightarrow> bool" where
  "map_rep m mp f \<longleftrightarrow> (\<exists>K t. map_ok K m mp t \<and> f = entries_of K t)"

lemma laid_cong: "laid K m q t = laid K' m' q t"
  if "\<And>a. a \<in> set_tree t \<Longrightarrow> K a = K' a" "\<And>a. a \<in> set_tree t \<Longrightarrow> m a = m' a"
  using that by (induction t arbitrary: q) (auto simp: node_def pri_def)

lemma heap_cong: "(\<And>a. a \<in> set_tree t \<Longrightarrow> K a = K' a) \<Longrightarrow> heap_ok K t = heap_ok K' t"
  by (induction t) (auto simp: pri_def)

lemma map_ok_cong:
  assumes "\<And>a. a \<in> set_tree t \<Longrightarrow> K a = K' a" "\<And>a. a \<in> set_tree t \<Longrightarrow> m a = m' a"
  shows "map_ok K m mp t = map_ok K' m' mp t" "entries_of K t = entries_of K' t"
proof -
  have e: "map K (inorder t) = map K' (inorder t)" "map (\<lambda>a. (K a, a)) (inorder t) = map (\<lambda>a. (K' a, a)) (inorder t)"
    using assms(1) by simp_all
  show "map_ok K m mp t = map_ok K' m' mp t"
    unfolding map_ok_def holds_tree_def e(1) using laid_cong [of t K K' m m' None] heap_cong [of t K K'] assms by simp
  show "entries_of K t = entries_of K' t" unfolding entries_of_def e(2) ..
qed

lemma option_eqI: "(\<And>b. x = Some b \<longleftrightarrow> y = Some b) \<Longrightarrow> x = y"
  by (metis option.exhaust)

lemma entries_insert:
  assumes "keys_ok K (inorder t)" "keys_ok K (inorder t')" "set_tree t' = insert x (set_tree t)" "K x \<notin> K ` set_tree t"
  shows "entries_of K t' = (entries_of K t)(K x \<mapsto> x)"
proof (rule ext)
  fix k
  have "K a \<noteq> K x" if "a \<in> set_tree t" for a using assms(4) that by (metis imageI)
  then have "entries_of K t' k = Some a \<longleftrightarrow> ((entries_of K t)(K x \<mapsto> x)) k = Some a" for a
    using assms(3) entries_Some [OF assms(1), of k a] entries_Some [OF assms(2), of k a] by auto
  then show "entries_of K t' k = ((entries_of K t)(K x \<mapsto> x)) k" by (rule option_eqI)
qed

lemma entries_delete:
  assumes "keys_ok K (inorder t)" "keys_ok K (inorder t')" "set_tree t' = set_tree t - {a}" "a \<in> set_tree t"
  shows "entries_of K t' = (entries_of K t)(K a := None)"
proof (rule ext)
  fix k
  have "inj_on K (set_tree t)" using keys_inj [OF assms(1)] by simp
  then have "entries_of K t' k = Some b \<longleftrightarrow> ((entries_of K t)(K a := None)) k = Some b" for b
    using assms(3,4) entries_Some [OF assms(1), of k b] entries_Some [OF assms(2), of k b] by (auto dest: inj_onD)
  then show "entries_of K t' k = ((entries_of K t)(K a := None)) k" by (rule option_eqI)
qed

lemma init_rep: "map_rep m spdylay_map_init Map.empty"
  unfolding map_rep_def
  by (intro exI [of _ "\<lambda>_. 0"] exI [of _ "\<langle>\<rangle>"])
    (simp add: map_ok_def holds_tree_def entries_of_def spdylay_map_init_def)

text \<open>
  \<open>spdylay_map_entry_init\<close> and \<open>spdylay_map_insert\<close> of the entry at \<open>x\<close>, against the update of a function.
\<close>

definition insert_entry :: "nat \<Rightarrow> u32 \<Rightarrow> mem \<Rightarrow> spdylay_map \<Rightarrow> (int \<times> mem \<times> spdylay_map) option" where
  "insert_entry x k m mp = spdylay_map_insert (m(x \<mapsto> spdylay_map_entry_init k)) mp (Some x)"

lemma rep_ran: "map_ok K m mp t \<Longrightarrow> ran (entries_of K t) = set_tree t"
  unfolding map_ok_def ran_def using entries_Some by fastforce

lemma insert_rep:
  assumes "map_rep m mp f" "x \<notin> ran f"
  shows "\<exists>m' mp'. insert_entry x k m mp =
      Some (if k \<in> dom f then SPDYLAY_ERR_INVALID_ARGUMENT else 0, m', mp')
    \<and> map_rep m' mp' (if k \<in> dom f then f else f(k \<mapsto> x)) \<and> (\<forall>y. y \<noteq> x \<and> y \<notin> ran f \<longrightarrow> m' y = m y)"
proof -
  obtain K t where t: "map_ok K m mp t" "f = entries_of K t" using assms(1) by (auto simp: map_rep_def)
  have x: "x \<notin> set_tree t" using assms(2) rep_ran [OF t(1)] t(2) by simp
  let ?K = "K(x := k)" and ?m = "m(x \<mapsto> spdylay_map_entry_init k)"
  have c: "K a = ?K a" "m a = ?m a" if "a \<in> set_tree t" for a using x that by auto
  have t': "map_ok ?K ?m mp t" "f = entries_of ?K t"
    using map_ok_cong(1) [of t K ?K m ?m mp, OF c] map_ok_cong(2) [of t K ?K m ?m, OF c] t by blast+
  have d: "dom f = ?K ` set_tree t" using entries_None [of ?K t] t'(2) by (auto simp: dom_def simp del: entries_None)
  show ?thesis
  proof (cases "k \<in> dom f")
    case True
    with insert_duplicate [OF t'(1), of x k] d t' show ?thesis by (auto simp: insert_entry_def map_rep_def)
  next
    case False
    then have "?K x \<notin> ?K ` set_tree t" using d by simp
    moreover have "?m x = Some (spdylay_map_entry_init (?K x))" by simp
    ultimately obtain m' mp' u where
      u: "spdylay_map_insert ?m mp (Some x) = Some (0, m', mp')" "map_ok ?K m' mp' u" "set_tree u = insert x (set_tree t)"
        "\<forall>y. y \<notin> insert x (set_tree t) \<longrightarrow> m' y = ?m y" using insert_new [OF t'(1) _ x] by blast
    have "entries_of ?K u = f(k \<mapsto> x)"
      using entries_insert [of ?K t u x] t' u(2,3) \<open>?K x \<notin> ?K ` set_tree t\<close> by (simp add: map_ok_def)
    then have "map_rep m' mp' (f(k \<mapsto> x))" using u(2) unfolding map_rep_def by metis
    with u(1,4) False rep_ran [OF t'(1)] t'(2) show ?thesis by (auto simp: insert_entry_def)
  qed
qed

lemma remove_rep:
  assumes "map_rep m mp f"
  shows "\<exists>m' mp'. spdylay_map_remove m mp k = Some (if k \<in> dom f then 0 else SPDYLAY_ERR_INVALID_ARGUMENT, m', mp')
    \<and> map_rep m' mp' (f(k := None)) \<and> (\<forall>y. y \<notin> ran f \<longrightarrow> m' y = m y)"
proof -
  obtain K t where t: "map_ok K m mp t" "f = entries_of K t" using assms by (auto simp: map_rep_def)
  have d: "dom f = K ` set_tree t" using entries_None [of K t] t(2) by (auto simp: dom_def simp del: entries_None)
  show ?thesis
  proof (cases "k \<in> dom f")
    case False
    then have "f(k := None) = f" by (auto simp: dom_def)
    with False remove_missing [OF t(1), of k] d assms show ?thesis by auto
  next
    case True
    then obtain a where a: "k = K a" "a \<in> set_tree t" using d by auto
    from remove_found [OF t(1) a(2)] obtain m' mp' u where
      u: "spdylay_map_remove m mp (K a) = Some (0, m', mp')" "map_ok K m' mp' u" "set_tree u = set_tree t - {a}"
        "\<forall>y. y \<notin> set_tree t \<longrightarrow> m' y = m y" by auto
    have "entries_of K u = f(k := None)"
      using entries_delete [of K t u a] t u(2,3) a by (simp add: map_ok_def)
    then have "map_rep m' mp' (f(k := None))" using u(2) unfolding map_rep_def by metis
    with u(1,4) True rep_ran [OF t(1)] t(2) a(1) show ?thesis by auto
  qed
qed

lemma find_rep: "map_rep m mp f \<Longrightarrow> spdylay_map_find m mp k = Some (f k)"
  by (auto simp: map_rep_def map_ok_def holds_tree_def spdylay_map_find_def find_loop_laid)

lemma size_rep:
  assumes "map_rep m mp f"
  shows "spdylay_map_size mp = card (dom f)"
proof -
  obtain K t where t: "map_ok K m mp t" "f = entries_of K t" using assms by (auto simp: map_rep_def)
  have d: "dom f = K ` set_tree t" using entries_None [of K t] t(2) by (auto simp: dom_def simp del: entries_None)
  have "inj_on K (set_tree t)" "distinct (inorder t)" using keys_inj [of K "inorder t"] t(1) by (simp_all add: map_ok_def)
  then show ?thesis
    using t(1) distinct_card [of "inorder t"] by (simp add: d card_image spdylay_map_size_def map_ok_def)
qed

subsection \<open>Histories\<close>

text \<open>The contract of a map with the codes of the C interface, and the clients' view of it.\<close>

datatype map_op = Map_insert nat u32 | Map_remove u32

fun map_step :: "map_op \<Rightarrow> mem \<times> spdylay_map \<Rightarrow> (int \<times> mem \<times> spdylay_map) option" where
  "map_step (Map_insert x k) (m, mp) = insert_entry x k m mp"
| "map_step (Map_remove k) (m, mp) = spdylay_map_remove m mp k"

fun map_run :: "map_op list \<Rightarrow> mem \<times> spdylay_map \<Rightarrow> (int list \<times> mem \<times> spdylay_map) option" where
  "map_run [] s = Some ([], s)"
| "map_run (op # ops) s = do { (r, s) \<leftarrow> map_step op s; (rs, s) \<leftarrow> map_run ops s; Some (r # rs, s) }"

fun fun_step :: "map_op \<Rightarrow> (u32 \<rightharpoonup> nat) \<Rightarrow> int \<times> (u32 \<rightharpoonup> nat)" where
  "fun_step (Map_insert x k) f = (if k \<in> dom f then (SPDYLAY_ERR_INVALID_ARGUMENT, f) else (0, f(k \<mapsto> x)))"
| "fun_step (Map_remove k) f = (if k \<in> dom f then 0 else SPDYLAY_ERR_INVALID_ARGUMENT, f(k := None))"

fun fun_run :: "map_op list \<Rightarrow> (u32 \<rightharpoonup> nat) \<Rightarrow> int list \<times> (u32 \<rightharpoonup> nat)" where
  "fun_run [] f = ([], f)"
| "fun_run (op # ops) f = (let (r, f) = fun_step op f; (rs, f) = fun_run ops f in (r # rs, f))"

text \<open>An entry is inserted only while it is not in the map.\<close>

fun fresh_entries :: "map_op list \<Rightarrow> (u32 \<rightharpoonup> nat) \<Rightarrow> bool" where
  "fresh_entries [] f \<longleftrightarrow> True"
| "fresh_entries (op # ops) f \<longleftrightarrow>
    (case op of Map_insert x _ \<Rightarrow> x \<notin> ran f | Map_remove _ \<Rightarrow> True) \<and> fresh_entries ops (snd (fun_step op f))"

lemma map_run_rep:
  "map_rep m mp f \<Longrightarrow> fresh_entries ops f \<Longrightarrow>
   \<exists>m' mp'. map_run ops (m, mp) = Some (fst (fun_run ops f), m', mp') \<and> map_rep m' mp' (snd (fun_run ops f))"
proof (induction ops arbitrary: m mp f)
  case (Cons op ops)
  have "\<exists>m' mp'. map_step op (m, mp) = Some (fst (fun_step op f), m', mp') \<and> map_rep m' mp' (snd (fun_step op f))"
  proof (cases op)
    case (Map_insert x k)
    with insert_rep [OF Cons.prems(1), of x k] Cons.prems(2) show ?thesis by (cases "k \<in> dom f") auto
  next
    case (Map_remove k)
    with remove_rep [OF Cons.prems(1), of k] show ?thesis by (cases "k \<in> dom f") auto
  qed
  then obtain m1 mp1 where s: "map_step op (m, mp) = Some (fst (fun_step op f), m1, mp1)" "map_rep m1 mp1 (snd (fun_step op f))"
    by blast
  from Cons.IH [OF s(2)] Cons.prems(2) s(1) show ?case by (auto simp: split_beta Let_def)
qed simp

text \<open>
  C36: In every history of insertions (of entries that are not in the map at the time) and removals
  from a new map, every operation returns without following \<open>NULL\<close> or a stale pointer, with the
  code that the history calls for: an insertion is refused exactly when the key is bound, a removal
  exactly when it is not. Afterwards \<open>spdylay_map_find\<close> gives the entry last inserted for the key and
  not removed since, and \<open>spdylay_map_size\<close> the number of bindings.
\<close>

theorem map_refines_function:
  assumes "fresh_entries ops Map.empty" "fun_run ops Map.empty = (codes, f)"
  shows "\<exists>m' mp'. map_run ops (m, spdylay_map_init) = Some (codes, m', mp')
    \<and> (\<forall>k. spdylay_map_find m' mp' k = Some (f k)) \<and> spdylay_map_size mp' = card (dom f)"
proof -
  obtain m' mp' where r: "map_run ops (m, spdylay_map_init) = Some (codes, m', mp')" "map_rep m' mp' f"
    using map_run_rep [OF init_rep assms(1), of m] assms(2) by auto
  with find_rep [OF r(2)] size_rep [OF r(2)] show ?thesis by blast
qed

theorem map_refines_function_witness:
  "\<exists>m' mp'. map_run [Map_insert 10 5, Map_insert 11 3, Map_insert 12 5, Map_remove 5, Map_remove 5]
      (Map.empty, spdylay_map_init) = Some ([0, 0, SPDYLAY_ERR_INVALID_ARGUMENT, 0, SPDYLAY_ERR_INVALID_ARGUMENT], m', mp')
    \<and> spdylay_map_find m' mp' 3 = Some (Some 11) \<and> spdylay_map_size mp' = 1"
proof -
  let ?ops = "[Map_insert 10 5, Map_insert 11 3, Map_insert 12 5, Map_remove 5, Map_remove 5]"
  have "fresh_entries ?ops Map.empty" by (auto simp: ran_def)
  moreover have "fun_run ?ops Map.empty = ([0, 0, SPDYLAY_ERR_INVALID_ARGUMENT, 0, SPDYLAY_ERR_INVALID_ARGUMENT], [3 \<mapsto> 11])"
    by (auto simp: fun_eq_iff)
  ultimately obtain m' mp' where "map_run ?ops (Map.empty, spdylay_map_init) =
      Some ([0, 0, SPDYLAY_ERR_INVALID_ARGUMENT, 0, SPDYLAY_ERR_INVALID_ARGUMENT], m', mp')"
      "\<forall>k. spdylay_map_find m' mp' k = Some ([3 \<mapsto> 11] k)" "spdylay_map_size mp' = card (dom [3 :: u32 \<mapsto> 11 :: nat])"
    using map_refines_function [of ?ops _ "[3 \<mapsto> 11]" Map.empty] by blast
  then show ?thesis by (intro exI [of _ m'] exI [of _ mp']) simp
qed

text \<open>
  C37: After every such history both traversals end. \<open>spdylay_map_each\<close> calls its function on the
  entries in ascending order of their keys, each once, until a call returns nonzero.
  \<open>spdylay_map_each_free\<close> calls its function on every entry exactly once, reads no entry after it
  was freed, and leaves the rest of the memory as it was.
\<close>

theorem map_traversals:
  assumes "fresh_entries ops Map.empty" "fun_run ops Map.empty = (codes, f)" "map_run ops (m, spdylay_map_init) = Some (codes, m', mp')"
  shows "(\<exists>as. sorted_wrt (<) (map (\<lambda>a. me_key (the (m' a))) as) \<and> set as = ran f
      \<and> spdylay_map_each m' mp' func s = Some (visit m' func as s))
    \<and> (\<exists>as. distinct as \<and> set as = ran f
      \<and> spdylay_map_each_free m' mp' = Some (as, m' |` (- ran f), mp'\<lparr> map_root := None \<rparr>))"
proof -
  have "map_rep m' mp' f" using map_run_rep [OF init_rep assms(1), of m] assms(2,3) by simp
  then obtain K t where t: "map_ok K m' mp' t" "f = entries_of K t" by (auto simp: map_rep_def)
  have k: "map (\<lambda>a. me_key (the (m' a))) (inorder t) = map K (inorder t)"
    using t(1) laid_mem [of K m' None t] by (fastforce simp: map_ok_def holds_tree_def)
  have "keys_ok K (inorder t)" "distinct (postorder t)"
    using t(1) distinct_post [of t] by (simp_all add: map_ok_def holds_tree_def)
  with rep_ran [OF t(1)] t(2) each_ok [OF t(1)] each_free_ok [OF t(1)] show ?thesis
    by (intro conjI exI [of _ "inorder t"] exI [of _ "postorder t"]) (simp_all add: k)
qed

theorem map_traversals_witness:
  "\<exists>m' mp' as. map_run [Map_insert 10 5, Map_insert 11 3] (Map.empty, spdylay_map_init) = Some ([0, 0], m', mp')
    \<and> distinct as \<and> set as = {10, 11} \<and> spdylay_map_each_free m' mp' = Some (as, m' |` (- {10, 11}), mp'\<lparr> map_root := None \<rparr>)"
proof -
  let ?ops = "[Map_insert 10 5, Map_insert 11 3]" and ?f = "[5 :: u32 \<mapsto> 10 :: nat, 3 \<mapsto> 11]"
  have f: "fresh_entries ?ops Map.empty" by (auto simp: ran_def)
  have g: "fun_run ?ops Map.empty = ([0, 0], ?f)" by simp
  obtain m' mp' where r: "map_run ?ops (Map.empty, spdylay_map_init) = Some ([0, 0], m', mp')"
    using map_run_rep [OF init_rep f, of Map.empty] g by auto
  have "ran ?f = {10, 11}" by (auto simp: ran_def intro: exI [of _ 3])
  with conjunct2 [OF map_traversals [OF f g r, of "\<lambda>_ _ s. (0, s)" "()"]] r show ?thesis by metis
qed

end
