(* ===== verification/Spec2Isabelle.thy ===== *)
theory Spec2Isabelle
  imports HaP_Config HaP_Dialogue HaP_Spdy_Pq HaP_Spdy_Map
begin

text \<open>
  \<^bold>\<open>Verification of the native proxies of HaP-Android.\<close>

  \<^medskip>
  HaP-Android is an Android application around native network programs under \<open>src/jni\<close>. The one
  verified here is \<^emph>\<open>redsocks\<close>, a transparent redirector: the firewall sends TCP connections of
  the device to it, it finds their original destination, opens a connection to a configured proxy
  (SOCKS4, SOCKS5 or HTTP CONNECT), asks the proxy for the destination, and then copies bytes both
  ways. It runs on the event loop and the buffers of \<^emph>\<open>libevent\<close>.

  \<^medskip>
  \<^bold>\<open>Parts and theories.\<close>

  \<^item> \<open>HaP_Prelude\<close>: types (\<open>byte\<close>, \<open>u16\<close>, \<open>u32\<close>, byte strings), C string and number functions,
    network byte order, decimal and dotted-quad printing.
  \<^item> \<open>HaP_Base64\<close>, \<open>HaP_Md5\<close>, \<open>HaP_Http_Auth\<close>: \<open>redsocks/base64.c\<close>, \<open>md5.c\<close>, \<open>http-auth.c\<close>; the
    codec, the hash and the HTTP Basic and Digest credentials, at the machine's widths.
  \<^item> \<open>HaP_Parser\<close>: \<open>redsocks/parser.c\<close>, the configuration file: tokenizer, value parsers and the
    reading loop with its growing buffer.
  \<^item> \<open>HaP_Evbuffer\<close>: \<open>libevent/buffer.c\<close>, queues of bytes as lists of chunks, and the search for the
    end of a line across chunks.
  \<^item> \<open>HaP_Bufferevent\<close>: \<open>libevent/bufferevent.c\<close> and \<open>bufferevent_sock.c\<close>, a socket with its two
    queues, watermarks, enabled directions and callbacks.
  \<^item> \<open>HaP_Redsocks\<close>: \<open>redsocks/redsocks.c\<close> with the socket helpers of \<open>utils.c\<close>. The record \<open>world\<close>
    is the state of the process: instances, clients by address, open descriptors, first fault.
    Each callback of the code is a function on it; \<open>env\<close> holds what its system calls return.
  \<^item> \<open>HaP_Redsocks_Inv\<close>: the invariant \<open>world_ok\<close>, the rules for keeping it, and the locale
    \<open>relay_subsys\<close>, the contract between the core and a protocol (\<open>struct relay_subsys\<close>).
  \<^item> \<open>HaP_Socks4\<close>, \<open>HaP_Socks5\<close>, \<open>HaP_Http_Connect\<close>: \<open>socks4.c\<close>, \<open>socks5.c\<close>, \<open>http-connect.c\<close>, each
    with its interpretation of \<open>relay_subsys\<close>.
  \<^item> \<open>HaP_Lifecycle\<close>: \<open>redsocks_init\<close> and \<open>redsocks_fini\<close>.
  \<^item> \<open>HaP_Event_Loop\<close>: dispatch through \<open>relay_subsystems\<close>, and the step relation \<open>step\<close>: one event
    (a connection to accept, the end of a pause, a socket that is readable or writable) with any
    results of the system calls made while it is handled. \<open>steps\<close> is a run.
  \<^item> \<open>HaP_Traces\<close>, \<open>HaP_System\<close>: what holds of all runs.

  \<^medskip>
  \<^bold>\<open>What is shown.\<close> The codec and the hash compute what their RFCs say, for all inputs. The
  credentials carry the right digest and fit their buffers. The parser reads back printed
  configurations and never overruns its buffer on any file. The chunked buffers implement byte
  queues, the line search included. For the redirector, every run from a start keeps \<open>world_ok\<close>:
  no use of freed clients, null pointers or closed descriptors, exactly one holder per
  descriptor, clients always in one of three phases; stopping releases everything; relaying loses no
  byte. Where the code does not do what it should, the theorem says what it does: a client
  that is never served again, a direction that is suspended for ever, a pause that wraps around.

  \<^medskip>
  \<^bold>\<open>Bounds and termination.\<close> No definition uses fuel. Loops over strings and buffers are
  structural or have a termination proof (\<open>parser_loop\<close>, \<open>parser_tokens\<close>, \<open>search_eol_crlf\<close>,
  \<open>get_auth_request_header\<close>, \<open>skip_headers\<close>), so every definition is total. The event loop itself
  is the relation \<open>steps\<close>, over runs of any length.

  \<^medskip>
  \<^bold>\<open>Idealisations.\<close> Lengths of buffers are natural numbers. Memory is exhausted only where \<open>env\<close>
  says so (clients, buffers, bufferevents). A new descriptor is one that is not open
  (\<open>fresh_fds\<close>), and a new client is at an address that is not in use (\<open>env_ok\<close>). Log output is
  left out. Bufferevents are those the redirector makes: no timeouts, rate limits or deferred
  callbacks.

  \<^medskip>
  \<^bold>\<open>Not modelled.\<close> In redsocks: the relay of plain HTTP requests (\<open>http-relay.c\<close>), the UDP and DNS
  redirectors (\<open>redudp.c\<close>, \<open>dnstc.c\<close>, \<open>reddns.c\<close>), the firewall backends (\<open>base.c\<close>), \<open>log.c\<close> and
  \<open>main.c\<close>. The rest of libevent (the event base, its backends, DNS, HTTP, RPC, rate limits,
  filters). The other programs under \<open>src/jni\<close>: the SPDY library and proxy (\<open>spdylay\<close>, \<open>shrpx\<close>),
  \<open>shadowsocks\<close>, the syntax highlighter, the terminal helper; the libraries \<open>openssl\<close> and \<open>libev\<close>,
  which are third-party code used through their interfaces; and the Java user interface, which is
  made of calls to the Android framework.
\<close>

end
